theory Spec2Isabelle
  imports Main "HOL-Library.Multiset"
begin

section \<open>The graph representation\<close>

text \<open>
  The store keeps its components in an \<open>EdgeWeightedGraph<T>\<close>. Nodes and edges are
  identified by their index; an edge owns two adjacency entries, one in the adjacency
  list of its source and one in the list of its target.
\<close>

type_synonym node = nat
type_synonym edge = nat

datatype adjEntry = AdjSource edge | AdjTarget edge

fun theEdge :: "adjEntry \<Rightarrow> edge" where
  "theEdge (AdjSource e) = e"
| "theEdge (AdjTarget e) = e"

fun twin :: "adjEntry \<Rightarrow> adjEntry" where
  "twin (AdjSource e) = AdjTarget e"
| "twin (AdjTarget e) = AdjSource e"

record 'w EdgeWeightedGraph =
  nodes :: "node list"
  ends :: "edge \<Rightarrow> (node \<times> node) option"
  adjEntries :: "node \<Rightarrow> adjEntry list"
  weight :: "edge \<Rightarrow> 'w"
  nodeIdCount :: nat
  edgeIdCount :: nat

definition emptyGraph :: "'w::zero EdgeWeightedGraph" where
  "emptyGraph = \<lparr> nodes = [], ends = (\<lambda>e. None), adjEntries = (\<lambda>v. []),
     weight = (\<lambda>e. 0), nodeIdCount = 0, edgeIdCount = 0 \<rparr>"

text \<open>
  Modelled from the spec: \<open>Graph::newNode\<close>, \<open>newEdge\<close>, \<open>delEdge\<close>, \<open>delNode\<close> and the
  accessors of \<open>adjEntry\<close> (ogdf/basic/Graph.h and EdgeWeightedGraph.h are not among the
  sources). A new node or edge gets the next unused index; a new edge is appended to the
  adjacency lists of its two end nodes; deleting an edge takes its two entries out of
  those lists; deleting a node deletes its incident edges first. A handle of a deleted
  edge has no node (\<open>None\<close>): the callers below turn that into an error.
\<close>

definition newNode :: "'w EdgeWeightedGraph \<Rightarrow> 'w EdgeWeightedGraph \<times> node" where
  "newNode g = (g\<lparr> nodes := nodes g @ [nodeIdCount g],
                    adjEntries := (adjEntries g)(nodeIdCount g := []),
                    nodeIdCount := Suc (nodeIdCount g) \<rparr>, nodeIdCount g)"

definition newEdge :: "'w EdgeWeightedGraph \<Rightarrow> node \<Rightarrow> node \<Rightarrow> 'w \<Rightarrow> 'w EdgeWeightedGraph \<times> edge" where
  "newEdge g v w c =
     (let e = edgeIdCount g;
          adj1 = (adjEntries g)(v := adjEntries g v @ [AdjSource e]);
          adj2 = adj1(w := adj1 w @ [AdjTarget e])
      in (g\<lparr> ends := (ends g)(e := Some (v, w)),
             adjEntries := adj2,
             weight := (weight g)(e := c),
             edgeIdCount := Suc e \<rparr>, e))"

definition delEdge :: "'w EdgeWeightedGraph \<Rightarrow> edge \<Rightarrow> 'w EdgeWeightedGraph" where
  "delEdge g e =
     (case ends g e of
        None \<Rightarrow> g
      | Some (v, w) \<Rightarrow>
          (let adj1 = (adjEntries g)(v := removeAll (AdjSource e) (adjEntries g v));
               adj2 = adj1(w := removeAll (AdjTarget e) (adj1 w))
           in g\<lparr> ends := (ends g)(e := None), adjEntries := adj2 \<rparr>))"

definition delNode :: "'w EdgeWeightedGraph \<Rightarrow> node \<Rightarrow> 'w EdgeWeightedGraph" where
  "delNode g v =
     (let g' = fold (\<lambda>a h. delEdge h (theEdge a)) (adjEntries g v) g
      in g'\<lparr> nodes := removeAll v (nodes g') \<rparr>)"

definition theNode :: "'w EdgeWeightedGraph \<Rightarrow> adjEntry \<Rightarrow> node option" where
  "theNode g a =
     (case ends g (theEdge a) of
        None \<Rightarrow> None
      | Some (v, w) \<Rightarrow> Some (case a of AdjSource _ \<Rightarrow> v | AdjTarget _ \<Rightarrow> w))"

definition twinNode :: "'w EdgeWeightedGraph \<Rightarrow> adjEntry \<Rightarrow> node option" where
  "twinNode g a = theNode g (twin a)"

text \<open>
  The entries that \<open>for (adj = back->cyclicSucc(); adj != back; adj = adj->cyclicSucc())\<close>
  runs through: those behind \<open>back\<close> in the adjacency list of its node, then those in
  front of it. \<open>None\<close> when \<open>back\<close> is not in the list.
\<close>

definition cyclicOthers :: "adjEntry \<Rightarrow> adjEntry list \<Rightarrow> adjEntry list option" where
  "cyclicOthers back xs =
     (if back \<in> set xs
      then Some (tl (dropWhile (\<lambda>a. a \<noteq> back) xs) @ takeWhile (\<lambda>a. a \<noteq> back) xs)
      else None)"

section \<open>Errors, bounded stacks, array buffers\<close>

datatype error = AssertionFailed | NullPointer | DanglingPointer | StackOverflow

text \<open>
  Modelled from the spec: \<open>BoundedStack<E>\<close> (ogdf/basic/BoundedStack.h is not among the
  sources): a stack for at most \<open>cap\<close> elements; a push onto a full stack is a failure.
  The head of the list is the top of the stack.
\<close>

fun push_all :: "int \<Rightarrow> 'a list \<Rightarrow> 'a list \<Rightarrow> error + 'a list" where
  "push_all cap stack [] = Inr stack"
| "push_all cap stack (x # xs) =
     (if cap \<le> int (length stack) then Inl StackOverflow
      else push_all cap (x # stack) xs)"

section \<open>The full component store\<close>

record ('w, 'x) Metadata =
  md_start :: "adjEntry option"
  md_terminals :: "node list"
  md_cost :: 'w
  md_extra :: 'x

definition Metadata0 :: "('w::zero, 'x::default) Metadata" where
  "Metadata0 = \<lparr> md_start = None, md_terminals = [], md_cost = 0, md_extra = default \<rparr>"

record ('w, 'x) FullComponentStore =
  m_terminals :: "node list"
  m_isTerminal :: "node \<Rightarrow> bool"
  m_graph :: "'w EdgeWeightedGraph"
  m_nodeCopy :: "node \<Rightarrow> node option"
  m_nodeOrig :: "node \<Rightarrow> node option"
  m_components :: "('w, 'x) Metadata list"

text \<open>
  The argument of \<open>insert\<close>, an \<open>EdgeWeightedGraphCopy<T>\<close>: its nodes, each given by
  \<open>comp.original(v)\<close>, in the order of \<open>comp.nodes\<close>, and its edges in the order of
  \<open>comp.edges\<close>, each with the originals of its source and target and its weight.
\<close>

record 'w EdgeWeightedGraphCopy =
  c_nodes :: "node list"
  c_edges :: "(node \<times> node \<times> 'w) list"

text \<open>The constructor: one node of \<open>m_graph\<close> per terminal, in the order of the list.\<close>

definition new_terminal :: "node \<Rightarrow> ('w, 'x) FullComponentStore \<Rightarrow> ('w, 'x) FullComponentStore" where
  "new_terminal v s =
     (let (g, u) = newNode (m_graph s)
      in s\<lparr> m_graph := g,
            m_nodeCopy := (m_nodeCopy s)(v := Some u),
            m_nodeOrig := (m_nodeOrig s)(u := Some v) \<rparr>)"

definition new_store :: "node list \<Rightarrow> (node \<Rightarrow> bool) \<Rightarrow> ('w::zero, 'x) FullComponentStore" where
  "new_store ts isT =
     fold new_terminal ts
       \<lparr> m_terminals = ts, m_isTerminal = isT, m_graph = emptyGraph,
         m_nodeCopy = (\<lambda>v. None), m_nodeOrig = (\<lambda>v. None), m_components = [] \<rparr>"

text \<open>
  Modelled from the spec: \<open>ArrayBuffer<E>::operator[]\<close> (ogdf/basic/ArrayBuffer.h is not
  among the sources) is bounds-checked against the current size.
\<close>

definition component_at :: "('w, 'x) FullComponentStore \<Rightarrow> int \<Rightarrow> error + ('w, 'x) Metadata" where
  "component_at s i =
     (if 0 \<le> i \<and> i < int (length (m_components s))
      then Inr (m_components s ! nat i) else Inl AssertionFailed)"

definition size_fc :: "('w, 'x) FullComponentStore \<Rightarrow> int" where
  "size_fc s = int (length (m_components s))"

definition isEmpty :: "('w, 'x) FullComponentStore \<Rightarrow> bool" where
  "isEmpty s = (m_components s = [])"

definition terminals :: "('w, 'x) FullComponentStore \<Rightarrow> int \<Rightarrow> error + node list" where
  "terminals s i =
     (if \<not> 0 \<le> i then Inl AssertionFailed
      else if \<not> i < int (length (m_components s)) then Inl AssertionFailed
      else Inr (md_terminals (m_components s ! nat i)))"

definition isTerminal :: "('w, 'x) FullComponentStore \<Rightarrow> int \<Rightarrow> node \<Rightarrow> error + bool" where
  "isTerminal s i t =
     (if \<not> 0 \<le> i then Inl AssertionFailed
      else if \<not> i < int (length (m_components s)) then Inl AssertionFailed
      else Inr (t \<in> set (md_terminals (m_components s ! nat i))))"

text \<open>\<open>isTerminal(node v)\<close>: \<open>m_isTerminal[m_nodeOrig[v]]\<close>.\<close>

definition isTerminal_node :: "('w, 'x) FullComponentStore \<Rightarrow> node \<Rightarrow> error + bool" where
  "isTerminal_node s v =
     (case m_nodeOrig s v of None \<Rightarrow> Inl NullPointer | Some vO \<Rightarrow> Inr (m_isTerminal s vO))"

definition cost :: "('w, 'x) FullComponentStore \<Rightarrow> int \<Rightarrow> error + 'w" where
  "cost s i =
     (if \<not> 0 \<le> i then Inl AssertionFailed
      else if \<not> i < int (length (m_components s)) then Inl AssertionFailed
      else Inr (md_cost (m_components s ! nat i)))"

definition start :: "('w, 'x) FullComponentStore \<Rightarrow> int \<Rightarrow> error + adjEntry option" where
  "start s i =
     (if \<not> 0 \<le> i then Inl AssertionFailed
      else if \<not> i < int (length (m_components s)) then Inl AssertionFailed
      else Inr (md_start (m_components s ! nat i)))"

definition original :: "('w, 'x) FullComponentStore \<Rightarrow> node \<Rightarrow> error + node" where
  "original s v =
     (case m_nodeOrig s v of None \<Rightarrow> Inl AssertionFailed | Some vO \<Rightarrow> Inr vO)"

subsection \<open>insert\<close>

text \<open>
  Modelled from the spec: \<open>isTree\<close> (ogdf/basic/simple_graph_alg.h is not among the
  sources): the graph is connected and has one edge less than it has nodes. \<open>grow\<close>
  collects the nodes that can be reached from the first node, one edge at a time.
\<close>

fun attachable :: "node list \<Rightarrow> nat list \<Rightarrow> (node \<times> node \<times> 'w) list \<Rightarrow> nat \<Rightarrow> (nat \<times> bool) option" where
  "attachable vis used [] k = None"
| "attachable vis used ((u, v, w) # es) k =
     (if k \<notin> set used \<and> u \<in> set vis \<and> v \<notin> set vis then Some (k, True)
      else if k \<notin> set used \<and> v \<in> set vis \<and> u \<notin> set vis then Some (k, False)
      else attachable vis used es (Suc k))"

fun grow :: "nat \<Rightarrow> (node \<times> node \<times> 'w) list \<Rightarrow> node list \<Rightarrow> (nat \<times> bool) list \<Rightarrow> node list \<times> (nat \<times> bool) list" where
  "grow 0 es vis ds = (vis, ds)"
| "grow (Suc n) es vis ds =
     (case attachable vis (map fst ds) es 0 of
        None \<Rightarrow> (vis, ds)
      | Some (k, b) \<Rightarrow>
          grow n es (vis @ [if b then fst (snd (es ! k)) else fst (es ! k)]) (ds @ [(k, b)]))"

definition isConnected :: "'w EdgeWeightedGraphCopy \<Rightarrow> bool" where
  "isConnected c =
     (case c_nodes c of
        [] \<Rightarrow> True
      | r # _ \<Rightarrow> set (c_nodes c) \<subseteq> set (fst (grow (length (c_nodes c)) (c_edges c) [r] [])))"

definition isTree :: "'w EdgeWeightedGraphCopy \<Rightarrow> bool" where
  "isTree c =
     (distinct (c_nodes c)
      \<and> (\<forall>(u, v, w) \<in> set (c_edges c). u \<in> set (c_nodes c) \<and> v \<in> set (c_nodes c))
      \<and> (c_nodes c = [] \<or> (Suc (length (c_edges c)) = length (c_nodes c) \<and> isConnected c)))"

text \<open>The first loop of \<open>insert\<close>: new nodes for the nonterminals, and the terminals found.\<close>

fun insert_nodes :: "('w, 'x) FullComponentStore \<Rightarrow> node list \<Rightarrow> node list \<Rightarrow> node list
    \<Rightarrow> ('w, 'x) FullComponentStore \<times> node list \<times> node list" where
  "insert_nodes s tempUse ts [] = (s, tempUse, ts)"
| "insert_nodes s tempUse ts (vO # vs) =
     (case m_nodeCopy s vO of
        None \<Rightarrow>
          (let (g, vC) = newNode (m_graph s)
           in insert_nodes (s\<lparr> m_graph := g,
                               m_nodeCopy := (m_nodeCopy s)(vO := Some vC),
                               m_nodeOrig := (m_nodeOrig s)(vC := Some vO) \<rparr>)
                (tempUse @ [vO]) ts vs)
      | Some _ \<Rightarrow> insert_nodes s tempUse (ts @ [vO]) vs)"

text \<open>The second loop: the edges, the cost and the start entry.\<close>

fun insert_edges :: "('w::plus, 'x) FullComponentStore \<Rightarrow> ('w, 'x) Metadata \<Rightarrow> (node \<times> node \<times> 'w) list
    \<Rightarrow> error + ('w, 'x) FullComponentStore \<times> ('w, 'x) Metadata" where
  "insert_edges s d [] = Inr (s, d)"
| "insert_edges s d ((uO, vO, w) # es) =
     (case m_nodeCopy s uO of
        None \<Rightarrow> Inl NullPointer
      | Some uC \<Rightarrow>
          (case m_nodeCopy s vO of
             None \<Rightarrow> Inl NullPointer
           | Some vC \<Rightarrow>
               if uC \<notin> set (nodes (m_graph s)) \<or> vC \<notin> set (nodes (m_graph s))
               then Inl DanglingPointer
               else
                 (let (g, eC) = newEdge (m_graph s) uC vC w;
                      d1 = d\<lparr> md_cost := md_cost d + w \<rparr>;
                      d2 = (if m_isTerminal s uO then d1\<lparr> md_start := Some (AdjSource eC) \<rparr>
                            else if m_isTerminal s vO then d1\<lparr> md_start := Some (AdjTarget eC) \<rparr>
                            else d1)
                  in insert_edges (s\<lparr> m_graph := g \<rparr>) d2 es)))"

text \<open>\<open>insert\<close> is declared \<open>void\<close>: what it returns is the updated store alone.\<close>

datatype retval = Void | IntVal int

definition insert_fc :: "('w::monoid_add, 'x::default) FullComponentStore \<Rightarrow> 'w EdgeWeightedGraphCopy
    \<Rightarrow> error + retval \<times> ('w, 'x) FullComponentStore" where
  "insert_fc s c =
     (if c_nodes c = [] then Inl AssertionFailed
      else if \<not> isTree c then Inl AssertionFailed
      else
        (let (s1, tempUse, ts) = insert_nodes s [] [] (c_nodes c);
             data = Metadata0\<lparr> md_terminals := sort ts \<rparr>
         in case insert_edges s1 data (c_edges c) of
              Inl e \<Rightarrow> Inl e
            | Inr (s2, data') \<Rightarrow>
                Inr (Void,
                     s2\<lparr> m_nodeCopy := fold (\<lambda>vO m. m(vO := None)) tempUse (m_nodeCopy s2),
                         m_components := m_components s2 @ [data'] \<rparr>)))"

subsection \<open>remove\<close>

fun twinNodes :: "'w EdgeWeightedGraph \<Rightarrow> adjEntry list \<Rightarrow> node list option" where
  "twinNodes g [] = Some []"
| "twinNodes g (a # as) =
     (case twinNode g a of
        None \<Rightarrow> None
      | Some v \<Rightarrow> (case twinNodes g as of None \<Rightarrow> None | Some vs \<Rightarrow> Some (v # vs)))"

lemma nodes_fold_delEdge:
  "nodes (fold (\<lambda>a h. delEdge h (theEdge a)) as g) = nodes g"
  by (induction as arbitrary: g) (auto simp: delEdge_def Let_def split: option.splits)

lemma length_nodes_delNode:
  "v \<in> set (nodes g) \<Longrightarrow> length (nodes (delNode g v)) < length (nodes g)"
  by (simp add: delNode_def Let_def nodes_fold_delEdge length_removeAll_less)

function remove_loop :: "('w, 'x) FullComponentStore \<Rightarrow> int \<Rightarrow> node list \<Rightarrow> error + ('w, 'x) FullComponentStore" where
  "remove_loop s cap [] = Inr s"
| "remove_loop s cap (v # stack) =
     (if v \<notin> set (nodes (m_graph s)) then Inl DanglingPointer
      else case isTerminal_node s v of
        Inl e \<Rightarrow> Inl e
      | Inr t \<Rightarrow>
          if t then remove_loop s cap stack
          else
            (case twinNodes (m_graph s) (adjEntries (m_graph s) v) of
               None \<Rightarrow> Inl DanglingPointer
             | Some ns \<Rightarrow>
                 (case push_all cap stack ns of
                    Inl e \<Rightarrow> Inl e
                  | Inr stack' \<Rightarrow> remove_loop (s\<lparr> m_graph := delNode (m_graph s) v \<rparr>) cap stack')))"
  by pat_completeness auto
termination
  by (relation "measures [\<lambda>(s, cap, stack). length (nodes (m_graph s)), \<lambda>(s, cap, stack). length stack]")
     (auto simp: length_nodes_delNode)

definition remove_in_graph :: "('w, 'x) FullComponentStore \<Rightarrow> ('w, 'x) Metadata \<Rightarrow> error + ('w, 'x) FullComponentStore" where
  "remove_in_graph s md =
     (case md_start md of
        None \<Rightarrow> Inl NullPointer
      | Some a \<Rightarrow>
          if ends (m_graph s) (theEdge a) = None then Inl DanglingPointer
          else if int (length (md_terminals md)) = 2
          then Inr (s\<lparr> m_graph := delEdge (m_graph s) (theEdge a) \<rparr>)
          else
            (case twinNode (m_graph s) a of
               None \<Rightarrow> Inl DanglingPointer
             | Some v \<Rightarrow>
                 (case push_all (2 * int (length (md_terminals md)) - 3) [] [v] of
                    Inl e \<Rightarrow> Inl e
                  | Inr stack \<Rightarrow>
                      remove_loop (s\<lparr> m_graph := delEdge (m_graph s) (theEdge a) \<rparr>)
                        (2 * int (length (md_terminals md)) - 3) stack)))"

definition remove_fc :: "('w, 'x) FullComponentStore \<Rightarrow> int \<Rightarrow> error + ('w, 'x) FullComponentStore" where
  "remove_fc s i =
     (case component_at s i of
        Inl e \<Rightarrow> Inl e
      | Inr md \<Rightarrow>
          (case remove_in_graph s md of
             Inl e \<Rightarrow> Inl e
           | Inr s' \<Rightarrow>
               Inr (s'\<lparr> m_components :=
                      (if int (length (m_components s')) = i + 1 then butlast (m_components s')
                       else (butlast (m_components s'))[nat i := last (m_components s')]) \<rparr>)))"

subsection \<open>Traversal\<close>

partial_function (option) dfs_loop :: "('w, 'x) FullComponentStore \<Rightarrow> int \<Rightarrow> adjEntry list \<Rightarrow> adjEntry list
    \<Rightarrow> (error + adjEntry list) option" where
  "dfs_loop s cap stack out =
     (case stack of
        [] \<Rightarrow> Some (Inr out)
      | a # stack' \<Rightarrow>
          (case theNode (m_graph s) (twin a) of
             None \<Rightarrow> Some (Inl DanglingPointer)
           | Some v \<Rightarrow>
               (case isTerminal_node s v of
                  Inl e \<Rightarrow> Some (Inl e)
                | Inr t \<Rightarrow>
                    if t then dfs_loop s cap stack' (out @ [twin a])
                    else
                      (case cyclicOthers (twin a) (adjEntries (m_graph s) v) of
                         None \<Rightarrow> Some (Inl DanglingPointer)
                       | Some others \<Rightarrow>
                           (case push_all cap stack' others of
                              Inl e \<Rightarrow> Some (Inl e)
                            | Inr stack'' \<Rightarrow> dfs_loop s cap stack'' (out @ [twin a]))))))"

declare dfs_loop.simps [code]

text \<open>
  \<open>foreachAdjEntry(i, f)\<close>: the entries on which \<open>f\<close> is called, in the order of the
  calls. \<open>None\<close> when the traversal does not come to an end.
\<close>

definition foreachAdjEntry :: "('w, 'x) FullComponentStore \<Rightarrow> int \<Rightarrow> (error + adjEntry list) option" where
  "foreachAdjEntry s i =
     (case component_at s i of
        Inl e \<Rightarrow> Some (Inl e)
      | Inr md \<Rightarrow>
          (let size = int (length (md_terminals md)) in
           if size = 2 then
             (case md_start md of
                None \<Rightarrow> Some (Inl NullPointer)
              | Some a \<Rightarrow>
                  if ends (m_graph s) (theEdge a) = None then Some (Inl DanglingPointer)
                  else Some (Inr [twin a]))
           else
             (case md_start md of
                None \<Rightarrow>
                  (case push_all (2 * size - 2) [] [()] of
                     Inl e \<Rightarrow> Some (Inl e) | Inr _ \<Rightarrow> Some (Inl NullPointer))
              | Some a \<Rightarrow>
                  (case push_all (2 * size - 2) [] [a] of
                     Inl e \<Rightarrow> Some (Inl e)
                   | Inr stack \<Rightarrow> dfs_loop s (2 * size - 2) stack []))))"


text \<open>\<open>f(original(back->theNode()))\<close> for every entry of a list.\<close>

fun originals :: "('w, 'x) FullComponentStore \<Rightarrow> adjEntry list \<Rightarrow> error + node list" where
  "originals s [] = Inr []"
| "originals s (a # as) =
     (case theNode (m_graph s) a of
        None \<Rightarrow> Inl DanglingPointer
      | Some v \<Rightarrow>
          (case original s v of
             Inl e \<Rightarrow> Inl e
           | Inr vO \<Rightarrow> (case originals s as of Inl e \<Rightarrow> Inl e | Inr vs \<Rightarrow> Inr (vO # vs))))"

text \<open>\<open>foreachNode(id, f)\<close>: the nodes on which \<open>f\<close> is called.\<close>

definition foreachNode :: "('w, 'x) FullComponentStore \<Rightarrow> int \<Rightarrow> (error + node list) option" where
  "foreachNode s i =
     (case start s i of
        Inl e \<Rightarrow> Some (Inl e)
      | Inr None \<Rightarrow> Some (Inl NullPointer)
      | Inr (Some a) \<Rightarrow>
          (case originals s [a] of
             Inl e \<Rightarrow> Some (Inl e)
           | Inr vs \<Rightarrow>
               (case foreachAdjEntry s i of
                  None \<Rightarrow> None
                | Some (Inl e) \<Rightarrow> Some (Inl e)
                | Some (Inr backs) \<Rightarrow>
                    (case originals s backs of
                       Inl e \<Rightarrow> Some (Inl e)
                     | Inr ws \<Rightarrow> Some (Inr (vs @ ws))))))"

text \<open>
  The inner loop of \<open>foreachEdge\<close> and \<open>foreachNode\<close> with a predecessor table:
  \<open>for (node v = ...; pred[u][v]; v = pred[u][v]->opposite(v))\<close>. The table and
  \<open>opposite\<close> belong to the original graph and are parameters. The loop collects the
  edge \<open>pred[u][v]\<close> and the node \<open>v\<close> of every round.
\<close>

partial_function (option) pred_path :: "(node \<Rightarrow> node \<Rightarrow> edge option) \<Rightarrow> (edge \<Rightarrow> node \<Rightarrow> node)
    \<Rightarrow> node \<Rightarrow> node \<Rightarrow> (edge \<times> node) list \<Rightarrow> (edge \<times> node) list option" where
  "pred_path pred opposite u v out =
     (case pred u v of
        None \<Rightarrow> Some out
      | Some e \<Rightarrow> pred_path pred opposite u (opposite e v) (out @ [(e, v)]))"

declare pred_path.simps [code]

fun expand :: "('w, 'x) FullComponentStore \<Rightarrow> (node \<Rightarrow> node \<Rightarrow> edge option) \<Rightarrow> (edge \<Rightarrow> node \<Rightarrow> node)
    \<Rightarrow> adjEntry list \<Rightarrow> (error + (edge \<times> node) list) option" where
  "expand s pred opposite [] = Some (Inr [])"
| "expand s pred opposite (back # backs) =
     (case originals s [twin back] of
        Inl e \<Rightarrow> Some (Inl e)
      | Inr us \<Rightarrow>
          (case originals s [back] of
             Inl e \<Rightarrow> Some (Inl e)
           | Inr vs \<Rightarrow>
               (case pred_path pred opposite (hd us) (hd vs) [] of
                  None \<Rightarrow> None
                | Some path \<Rightarrow>
                    (case expand s pred opposite backs of
                       None \<Rightarrow> None
                     | Some (Inl e) \<Rightarrow> Some (Inl e)
                     | Some (Inr rest) \<Rightarrow> Some (Inr (path @ rest))))))"

definition foreachEdge :: "('w, 'x) FullComponentStore \<Rightarrow> int \<Rightarrow> (node \<Rightarrow> node \<Rightarrow> edge option)
    \<Rightarrow> (edge \<Rightarrow> node \<Rightarrow> node) \<Rightarrow> (error + edge list) option" where
  "foreachEdge s i pred opposite =
     (case foreachAdjEntry s i of
        None \<Rightarrow> None
      | Some (Inl e) \<Rightarrow> Some (Inl e)
      | Some (Inr backs) \<Rightarrow>
          (case expand s pred opposite backs of
             None \<Rightarrow> None
           | Some (Inl e) \<Rightarrow> Some (Inl e)
           | Some (Inr path) \<Rightarrow> Some (Inr (map fst path))))"

text \<open>The loop \<open>while (v != u) { v = pred[u][v]->opposite(v); f(v); }\<close>.\<close>

partial_function (option) pred_until :: "(node \<Rightarrow> node \<Rightarrow> edge option) \<Rightarrow> (edge \<Rightarrow> node \<Rightarrow> node)
    \<Rightarrow> node \<Rightarrow> node \<Rightarrow> node list \<Rightarrow> (error + node list) option" where
  "pred_until pred opposite u v out =
     (if v = u then Some (Inr out)
      else case pred u v of
        None \<Rightarrow> Some (Inl NullPointer)
      | Some e \<Rightarrow> pred_until pred opposite u (opposite e v) (out @ [opposite e v]))"

declare pred_until.simps [code]

fun hub_paths :: "('w, 'x) FullComponentStore \<Rightarrow> (node \<Rightarrow> node \<Rightarrow> edge option) \<Rightarrow> (edge \<Rightarrow> node \<Rightarrow> node)
    \<Rightarrow> node \<Rightarrow> adjEntry list \<Rightarrow> (error + node list) option" where
  "hub_paths s pred opposite cO [] = Some (Inr [])"
| "hub_paths s pred opposite cO (a # as) =
     (case originals s [twin a] of
        Inl e \<Rightarrow> Some (Inl e)
      | Inr us \<Rightarrow>
          (case pred_until pred opposite (hd us) cO [] of
             None \<Rightarrow> None
           | Some (Inl e) \<Rightarrow> Some (Inl e)
           | Some (Inr path) \<Rightarrow>
               (case hub_paths s pred opposite cO as of
                  None \<Rightarrow> None
                | Some (Inl e) \<Rightarrow> Some (Inl e)
                | Some (Inr rest) \<Rightarrow> Some (Inr (path @ rest)))))"

text \<open>\<open>foreachNode(id, pred, f)\<close>, with its variant for three terminals.\<close>

definition foreachNode_pred :: "('w, 'x) FullComponentStore \<Rightarrow> int \<Rightarrow> (node \<Rightarrow> node \<Rightarrow> edge option)
    \<Rightarrow> (edge \<Rightarrow> node \<Rightarrow> node) \<Rightarrow> (error + node list) option" where
  "foreachNode_pred s i pred opposite =
     (case component_at s i of
        Inl e \<Rightarrow> Some (Inl e)
      | Inr md \<Rightarrow>
          if int (length (md_terminals md)) = 3 then
            (case md_start md of
               None \<Rightarrow> Some (Inl NullPointer)
             | Some a \<Rightarrow>
                 (case twinNode (m_graph s) a of
                    None \<Rightarrow> Some (Inl DanglingPointer)
                  | Some c \<Rightarrow>
                      (case original s c of
                         Inl e \<Rightarrow> Some (Inl e)
                       | Inr cO \<Rightarrow>
                           (case hub_paths s pred opposite cO (adjEntries (m_graph s) c) of
                              None \<Rightarrow> None
                            | Some (Inl e) \<Rightarrow> Some (Inl e)
                            | Some (Inr vs) \<Rightarrow> Some (Inr (cO # vs))))))
          else
            (case start s i of
               Inl e \<Rightarrow> Some (Inl e)
             | Inr None \<Rightarrow> Some (Inl NullPointer)
             | Inr (Some a) \<Rightarrow>
                 (case originals s [a] of
                    Inl e \<Rightarrow> Some (Inl e)
                  | Inr vs \<Rightarrow>
                      (case foreachAdjEntry s i of
                         None \<Rightarrow> None
                       | Some (Inl e) \<Rightarrow> Some (Inl e)
                       | Some (Inr backs) \<Rightarrow>
                           (case expand s pred opposite backs of
                              None \<Rightarrow> None
                            | Some (Inl e) \<Rightarrow> Some (Inl e)
                            | Some (Inr path) \<Rightarrow> Some (Inr (vs @ map snd path)))))))"


section \<open>The store with loss\<close>

datatype 'w LossMetadata = LossMetadata (loss_of: 'w) (bridges_of: "edge list")

instantiation LossMetadata :: (zero) default
begin

definition default_LossMetadata_def: "default = LossMetadata 0 []"

instance ..

end

text \<open>
  \<open>FullComponentWithLossStore<T>\<close>: the store with \<open>LossMetadata<T>\<close> as extra data
  (\<open>fcs\<close>, the base class), and \<open>m_lossTerminal\<close>.
\<close>

record 'w FullComponentWithLossStore =
  fcs :: "('w, 'w LossMetadata) FullComponentStore"
  m_lossTerminal :: "node \<Rightarrow> node option"

definition extra :: "('w, 'x) FullComponentStore \<Rightarrow> int \<Rightarrow> error + 'x" where
  "extra s i =
     (if \<not> 0 \<le> i then Inl AssertionFailed
      else if \<not> i < int (length (m_components s)) then Inl AssertionFailed
      else Inr (md_extra (m_components s ! nat i)))"

definition loss :: "'w FullComponentWithLossStore \<Rightarrow> int \<Rightarrow> error + 'w" where
  "loss ls i = (case extra (fcs ls) i of Inl e \<Rightarrow> Inl e | Inr x \<Rightarrow> Inr (loss_of x))"

definition lossBridges :: "'w FullComponentWithLossStore \<Rightarrow> int \<Rightarrow> error + edge list" where
  "lossBridges ls i = (case extra (fcs ls) i of Inl e \<Rightarrow> Inl e | Inr x \<Rightarrow> Inr (bridges_of x))"

definition opposite :: "'w EdgeWeightedGraph \<Rightarrow> edge \<Rightarrow> node \<Rightarrow> node option" where
  "opposite g e u =
     (case ends g e of None \<Rightarrow> None | Some (v, w) \<Rightarrow> Some (if u = v then w else v))"

text \<open>
  \<open>findLossTerminal(u, pred)\<close>, on the table \<open>m_lossTerminal\<close>: the value returned and
  the table afterwards. \<open>None\<close> when the recursion does not come to an end.
\<close>

partial_function (option) findLossTerminal :: "'w EdgeWeightedGraph \<Rightarrow> (node \<Rightarrow> edge option)
    \<Rightarrow> (node \<Rightarrow> node option) \<Rightarrow> node \<Rightarrow> (error + node option \<times> (node \<Rightarrow> node option)) option" where
  "findLossTerminal g pred lt u =
     (case lt u of
        Some t \<Rightarrow> Some (Inr (Some t, lt))
      | None \<Rightarrow>
          (case pred u of
             None \<Rightarrow> Some (Inr (None, lt))
           | Some e \<Rightarrow>
               (case opposite g e u of
                  None \<Rightarrow> Some (Inl DanglingPointer)
                | Some v \<Rightarrow>
                    Option.bind (findLossTerminal g pred lt v)
                      (\<lambda>r. case r of
                         Inl err \<Rightarrow> Some (Inl err)
                       | Inr (t, lt') \<Rightarrow> Some (Inr (t, lt'(u := t)))))))"

declare findLossTerminal.simps [code]

text \<open>The zero-cost edges from the first terminal to every other terminal.\<close>

fun zero_edges :: "('w::zero, 'x) FullComponentStore \<Rightarrow> node \<Rightarrow> node list \<Rightarrow> (node \<Rightarrow> node option) \<Rightarrow> edge list
    \<Rightarrow> error + ('w, 'x) FullComponentStore \<times> (node \<Rightarrow> node option) \<times> edge list" where
  "zero_edges s sC [] lt zs = Inr (s, lt, zs)"
| "zero_edges s sC (v # vs) lt zs =
     (case m_nodeCopy s v of
        None \<Rightarrow> Inl NullPointer
      | Some vC \<Rightarrow>
          if sC \<notin> set (nodes (m_graph s)) \<or> vC \<notin> set (nodes (m_graph s)) then Inl DanglingPointer
          else
            (let (g, e) = newEdge (m_graph s) sC vC 0
             in zero_edges (s\<lparr> m_graph := g \<rparr>) sC vs (lt(vC := Some v)) (zs @ [e])))"

text \<open>The body of the lambda in \<open>computeAllLosses\<close>, for the entries of one component.\<close>

fun loss_visit :: "'w::plus EdgeWeightedGraph \<Rightarrow> (node \<Rightarrow> edge option) \<Rightarrow> (edge \<Rightarrow> bool)
    \<Rightarrow> 'w LossMetadata \<Rightarrow> (node \<Rightarrow> node option) \<Rightarrow> adjEntry list
    \<Rightarrow> (error + 'w LossMetadata \<times> (node \<Rightarrow> node option)) option" where
  "loss_visit g pred isLossEdge x lt [] = Some (Inr (x, lt))"
| "loss_visit g pred isLossEdge x lt (a # as) =
     (if \<not> isLossEdge (theEdge a) then
        (case ends g (theEdge a) of
           None \<Rightarrow> Some (Inl DanglingPointer)
         | Some (u, v) \<Rightarrow>
             (case findLossTerminal g pred lt u of
                None \<Rightarrow> None
              | Some (Inl e) \<Rightarrow> Some (Inl e)
              | Some (Inr (_, lt1)) \<Rightarrow>
                  (case findLossTerminal g pred lt1 v of
                     None \<Rightarrow> None
                   | Some (Inl e) \<Rightarrow> Some (Inl e)
                   | Some (Inr (_, lt2)) \<Rightarrow>
                       loss_visit g pred isLossEdge
                         (LossMetadata (loss_of x) (bridges_of x @ [theEdge a])) lt2 as)))
      else loss_visit g pred isLossEdge
             (LossMetadata (loss_of x + weight g (theEdge a)) (bridges_of x)) lt as)"

text \<open>The loop \<open>for (int id = 0; id < this->size(); ++id)\<close>.\<close>

fun loss_all :: "('w::plus, 'w LossMetadata) FullComponentStore \<Rightarrow> (node \<Rightarrow> edge option) \<Rightarrow> (edge \<Rightarrow> bool)
    \<Rightarrow> (node \<Rightarrow> node option) \<Rightarrow> nat list
    \<Rightarrow> (error + 'w FullComponentWithLossStore) option" where
  "loss_all s pred isLossEdge lt [] = Some (Inr \<lparr> fcs = s, m_lossTerminal = lt \<rparr>)"
| "loss_all s pred isLossEdge lt (i # is) =
     (case foreachAdjEntry s (int i) of
        None \<Rightarrow> None
      | Some (Inl e) \<Rightarrow> Some (Inl e)
      | Some (Inr adjs) \<Rightarrow>
          (case loss_visit (m_graph s) pred isLossEdge (md_extra (m_components s ! i)) lt adjs of
             None \<Rightarrow> None
           | Some (Inl e) \<Rightarrow> Some (Inl e)
           | Some (Inr (x, lt')) \<Rightarrow>
               loss_all (s\<lparr> m_components := (m_components s)[i := (m_components s ! i)\<lparr> md_extra := x \<rparr>] \<rparr>)
                 pred isLossEdge lt' is))"

text \<open>
  \<open>computeAllLosses()\<close>. The minimum spanning tree comes from \<open>computeMinST\<close>, which is
  not part of the store: it is a parameter, called with the root and the graph and
  giving the predecessor table and the flags of the tree edges.
\<close>

definition computeAllLosses :: "(node \<Rightarrow> 'w EdgeWeightedGraph \<Rightarrow> (node \<Rightarrow> edge option) \<times> (edge \<Rightarrow> bool))
    \<Rightarrow> 'w::monoid_add FullComponentWithLossStore \<Rightarrow> (error + 'w FullComponentWithLossStore) option" where
  "computeAllLosses computeMinST ls =
     (case m_terminals (fcs ls) of
        [] \<Rightarrow> Some (Inl AssertionFailed)
      | t # ts \<Rightarrow>
          (case m_nodeCopy (fcs ls) t of
             None \<Rightarrow> Some (Inl NullPointer)
           | Some sC \<Rightarrow>
               (case zero_edges (fcs ls) sC ts ((\<lambda>v. None)(sC := Some t)) [] of
                  Inl e \<Rightarrow> Some (Inl e)
                | Inr (s1, lt, zeroEdges) \<Rightarrow>
                    (let (pred, isLossEdge) = computeMinST sC (m_graph s1);
                         s2 = s1\<lparr> m_graph := fold (\<lambda>e g. delEdge g e) zeroEdges (m_graph s1) \<rparr>
                     in loss_all s2 pred isLossEdge lt [0..<length (m_components s2)]))))"


section \<open>Auxiliary notions and examples\<close>

text \<open>
  The start entry that the second loop of \<open>insert\<close> leaves behind when the first new edge
  gets the index \<open>e\<close>: every edge with a terminal end overwrites the entry of the edges
  before it.
\<close>

fun find_start :: "(node \<Rightarrow> bool) \<Rightarrow> edge \<Rightarrow> (node \<times> node \<times> 'w) list \<Rightarrow> adjEntry option" where
  "find_start isT e [] = None"
| "find_start isT e ((u, v, w) # es) =
     (case find_start isT (Suc e) es of
        Some a \<Rightarrow> Some a
      | None \<Rightarrow> if isT u then Some (AdjSource e) else if isT v then Some (AdjTarget e) else None)"

definition terminal_incident :: "(node \<Rightarrow> bool) \<Rightarrow> node \<times> node \<times> 'w \<Rightarrow> bool" where
  "terminal_incident isT e = (isT (fst e) \<or> isT (fst (snd e)))"

text \<open>
  An instance with the terminals 1, 2 and 3; a star with the nonterminal 0 in the
  middle, and a single edge between two terminals.
\<close>

definition ex_isT :: "node \<Rightarrow> bool" where
  "ex_isT v = (v = 1 \<or> v = 2 \<or> v = 3)"

definition ex_store0 :: "(int, unit) FullComponentStore" where
  "ex_store0 = new_store [1, 2, 3] ex_isT"

definition ex_star :: "int EdgeWeightedGraphCopy" where
  "ex_star = \<lparr> c_nodes = [0, 1, 2, 3], c_edges = [(1, 0, 2), (2, 0, 3), (0, 3, 4)] \<rparr>"

definition ex_edge :: "int EdgeWeightedGraphCopy" where
  "ex_edge = \<lparr> c_nodes = [1, 2], c_edges = [(1, 2, 5)] \<rparr>"

definition after :: "error + retval \<times> ('w, 'x) FullComponentStore \<Rightarrow> ('w, 'x) FullComponentStore
    \<Rightarrow> ('w, 'x) FullComponentStore" where
  "after r s = (case r of Inl e \<Rightarrow> s | Inr (v, s') \<Rightarrow> s')"

definition ex_store1 :: "(int, unit) FullComponentStore" where
  "ex_store1 = after (insert_fc ex_store0 ex_star) ex_store0"

definition ex_store2 :: "(int, unit) FullComponentStore" where
  "ex_store2 = after (insert_fc ex_store1 ex_edge) ex_store1"

section \<open>Invariants of the store\<close>

definition wf_graph :: "'w EdgeWeightedGraph \<Rightarrow> bool" where
  "wf_graph g =
     (distinct (nodes g)
      \<and> (\<forall>v \<in> set (nodes g). v < nodeIdCount g)
      \<and> (\<forall>e u v. ends g e = Some (u, v) \<longrightarrow>
            e < edgeIdCount g \<and> u \<in> set (nodes g) \<and> v \<in> set (nodes g)
            \<and> AdjSource e \<in> set (adjEntries g u) \<and> AdjTarget e \<in> set (adjEntries g v))
      \<and> (\<forall>v a. a \<in> set (adjEntries g v) \<longrightarrow> theNode g a = Some v)
      \<and> (\<forall>v. distinct (adjEntries g v)))"

definition base_inv :: "('w, 'x) FullComponentStore \<Rightarrow> bool" where
  "base_inv s =
     (wf_graph (m_graph s)
      \<and> (\<forall>x. m_isTerminal s x \<longleftrightarrow> x \<in> set (m_terminals s))
      \<and> (\<forall>x. m_nodeCopy s x \<noteq> None \<longleftrightarrow> m_isTerminal s x)
      \<and> (\<forall>x y. m_nodeCopy s x = Some y \<longrightarrow>
            y \<in> set (nodes (m_graph s)) \<and> m_nodeOrig s y = Some x))"

definition rg :: "'w EdgeWeightedGraph \<Rightarrow> edge set \<Rightarrow> node set \<Rightarrow> 'w EdgeWeightedGraph" where
  "rg g X N = g\<lparr> ends := (\<lambda>e. if e \<in> X then None else ends g e),
                 adjEntries := (\<lambda>z. filter (\<lambda>a. theEdge a \<notin> X) (adjEntries g z)),
                 nodes := filter (\<lambda>v. v \<notin> N) (nodes g) \<rparr>"

fun incident :: "(node \<Rightarrow> node option) \<Rightarrow> node \<Rightarrow> edge \<Rightarrow> (node \<times> node \<times> 'w) list \<Rightarrow> adjEntry list" where
  "incident nc y e [] = []"
| "incident nc y e ((u, v, w) # es) =
     (if nc u = Some y then [AdjSource e] else []) @ (if nc v = Some y then [AdjTarget e] else [])
     @ incident nc y (Suc e) es"

type_synonym 'w ghost = "'w EdgeWeightedGraphCopy \<times> (node \<Rightarrow> node option) \<times> edge"

definition priv :: "(node \<Rightarrow> bool) \<Rightarrow> 'w ghost \<Rightarrow> node set" where
  "priv isT gh = (case gh of (c, nc, e0) \<Rightarrow> {y. \<exists>x \<in> set (c_nodes c). \<not> isT x \<and> nc x = Some y})"

definition own_edges :: "'w ghost \<Rightarrow> edge set" where
  "own_edges gh = (case gh of (c, nc, e0) \<Rightarrow> {e0 ..< e0 + length (c_edges c)})"

definition embedded :: "('w::monoid_add, 'x) FullComponentStore \<Rightarrow> 'w ghost \<Rightarrow> ('w, 'x) Metadata \<Rightarrow> bool" where
  "embedded s gh md =
     (case gh of (c, nc, e0) \<Rightarrow>
        c_nodes c \<noteq> [] \<and> isTree c
        \<and> (\<forall>x \<in> set (c_nodes c). \<exists>y. nc x = Some y \<and> y \<in> set (nodes (m_graph s))
               \<and> m_nodeOrig s y = Some x
               \<and> (if m_isTerminal s x then m_nodeCopy s x = Some y
                   else adjEntries (m_graph s) y = incident nc y e0 (c_edges c)))
        \<and> (\<forall>k < length (c_edges c). \<exists>u v.
               nc (fst (c_edges c ! k)) = Some u \<and> nc (fst (snd (c_edges c ! k))) = Some v
               \<and> ends (m_graph s) (e0 + k) = Some (u, v)
               \<and> weight (m_graph s) (e0 + k) = snd (snd (c_edges c ! k)))
        \<and> e0 + length (c_edges c) \<le> edgeIdCount (m_graph s)
        \<and> md_start md = find_start (m_isTerminal s) e0 (c_edges c)
        \<and> md_cost md = sum_list (map (\<lambda>e. snd (snd e)) (c_edges c))
        \<and> md_terminals md = sort (filter (m_isTerminal s) (c_nodes c)))"

definition store_inv :: "('w::monoid_add, 'x) FullComponentStore \<Rightarrow> 'w ghost list \<Rightarrow> bool" where
  "store_inv s G =
     (base_inv s \<and> length G = length (m_components s)
      \<and> (\<forall>i < length G. embedded s (G ! i) (m_components s ! i))
      \<and> (\<forall>i < length G. \<forall>j < length G. i \<noteq> j \<longrightarrow>
            priv (m_isTerminal s) (G ! i) \<inter> priv (m_isTerminal s) (G ! j) = {}
            \<and> own_edges (G ! i) \<inter> own_edges (G ! j) = {}))"

definition swap_remove :: "nat \<Rightarrow> 'a list \<Rightarrow> 'a list" where
  "swap_remove i xs = (if length xs = Suc i then butlast xs else (butlast xs)[i := last xs])"

inductive reach :: "('w::monoid_add, 'x::default) FullComponentStore \<Rightarrow> 'w EdgeWeightedGraphCopy list \<Rightarrow> bool" where
  reach_new: "(\<forall>x. isT x \<longleftrightarrow> x \<in> set ts) \<Longrightarrow> reach (new_store ts isT) []"
| reach_insert: "reach s cs \<Longrightarrow> insert_fc s c = Inr (r, s') \<Longrightarrow> reach s' (cs @ [c])"
| reach_remove: "reach s cs \<Longrightarrow> remove_fc s i = Inr s' \<Longrightarrow> reach s' (swap_remove (nat i) cs)"

section \<open>Full components, and the tree under a component\<close>

text \<open>
  The trees the store is made for. The degree of a node counts the edges of the tree at
  it; in a full component every terminal is a leaf and every other node has at least
  three edges. \<open>insert\<close> does not check this: it asserts only that its input is a
  non-empty tree.
\<close>

definition degree :: "'w EdgeWeightedGraphCopy \<Rightarrow> node \<Rightarrow> nat" where
  "degree c x = length (filter (\<lambda>e. fst e = x) (c_edges c))
              + length (filter (\<lambda>e. fst (snd e) = x) (c_edges c))"

definition full_component :: "(node \<Rightarrow> bool) \<Rightarrow> 'w EdgeWeightedGraphCopy \<Rightarrow> bool" where
  "full_component isT c =
     (\<forall>x \<in> set (c_nodes c). if isT x then degree c x = 1 else 3 \<le> degree c x)"

text \<open>
  A tree grown edge by edge: from the nodes \<open>V0\<close> and the edges with the indices \<open>K0\<close>,
  every step takes an unused edge with exactly one end among the nodes reached and adds
  its other end.
\<close>

inductive grows :: "(node \<times> node \<times> 'w) list \<Rightarrow> node set \<Rightarrow> nat set \<Rightarrow> node set \<Rightarrow> nat set \<Rightarrow> bool"
  for es V0 K0 where
  grows_refl: "grows es V0 K0 V0 K0"
| grows_step: "grows es V0 K0 V K \<Longrightarrow> k < length es \<Longrightarrow> k \<notin> K
     \<Longrightarrow> (a = fst (es ! k) \<and> b = fst (snd (es ! k))) \<or> (b = fst (es ! k) \<and> a = fst (snd (es ! k)))
     \<Longrightarrow> a \<in> V \<Longrightarrow> b \<notin> V \<Longrightarrow> grows es V0 K0 (insert b V) (insert k K)"

text \<open>
  The edges of a stored tree have the indices \<open>e0, e0 + 1, ...\<close> in the graph of the
  store, in the order of the tree's edge list. \<open>at_node\<close> is the node of the tree (an
  original node) at which an entry of such an edge sits, \<open>own\<close> says that an entry
  belongs to the tree.
\<close>

definition at_node :: "(node \<times> node \<times> 'w) list \<Rightarrow> edge \<Rightarrow> adjEntry \<Rightarrow> node" where
  "at_node es e0 a =
     (case a of AdjSource e \<Rightarrow> fst (es ! (e - e0)) | AdjTarget e \<Rightarrow> fst (snd (es ! (e - e0))))"

definition own :: "(node \<times> node \<times> 'w) list \<Rightarrow> edge \<Rightarrow> adjEntry \<Rightarrow> bool" where
  "own es e0 a = (e0 \<le> theEdge a \<and> theEdge a < e0 + length es)"

text \<open>
  An orientation of the tree away from the root \<open>r\<close>: every edge has a child end, no two
  edges have the same child, and the root is no child. An entry points down when its
  twin sits at the child end of its edge.
\<close>

definition oriented :: "(node \<times> node \<times> 'w) list \<Rightarrow> (nat \<Rightarrow> node) \<Rightarrow> node \<Rightarrow> bool" where
  "oriented es ch r =
     (inj_on ch {..<length es}
      \<and> (\<forall>k < length es. ch k \<noteq> r \<and> (ch k = fst (es ! k) \<or> ch k = fst (snd (es ! k)))
             \<and> fst (es ! k) \<noteq> fst (snd (es ! k))))"

definition down :: "(node \<times> node \<times> 'w) list \<Rightarrow> edge \<Rightarrow> (nat \<Rightarrow> node) \<Rightarrow> adjEntry \<Rightarrow> bool" where
  "down es e0 ch a = (at_node es e0 (twin a) = ch (theEdge a - e0))"

text \<open>
  What the traversals read of the graph: the node of an entry of the tree, its original,
  and the adjacency list of a nonterminal node, which holds the entries of the tree at
  that node and nothing else.
\<close>

definition placed :: "('w, 'x) FullComponentStore \<Rightarrow> (node \<times> node \<times> 'w) list \<Rightarrow> (node \<Rightarrow> node option) \<Rightarrow> edge \<Rightarrow> bool" where
  "placed s es nc e0 =
     (\<forall>a. own es e0 a \<longrightarrow>
        (\<exists>y. nc (at_node es e0 a) = Some y \<and> theNode (m_graph s) a = Some y
           \<and> m_nodeOrig s y = Some (at_node es e0 a)
           \<and> (\<not> m_isTerminal s (at_node es e0 a) \<longrightarrow> adjEntries (m_graph s) y = incident nc y e0 es)))"

text \<open>
  The invariant of the loop of \<open>foreachAdjEntry\<close>, with the stack and the entries visited
  so far: the entries on the stack point down, the visited ones sit at the child end,
  no edge occurs twice, every entry sits at the root or at a node already visited, all
  other entries at a visited nonterminal are on the stack or visited, and so is the
  start entry.
\<close>

definition dfs_inv :: "(node \<times> node \<times> 'w) list \<Rightarrow> edge \<Rightarrow> (node \<Rightarrow> bool) \<Rightarrow> (nat \<Rightarrow> node) \<Rightarrow> adjEntry
    \<Rightarrow> adjEntry list \<Rightarrow> adjEntry list \<Rightarrow> bool" where
  "dfs_inv es e0 isT ch a0 stack out =
     ((\<forall>a \<in> set stack. own es e0 a \<and> down es e0 ch a)
      \<and> (\<forall>b \<in> set out. own es e0 b \<and> down es e0 ch (twin b))
      \<and> distinct (map theEdge (stack @ out))
      \<and> (\<forall>a. a \<in> set stack \<or> twin a \<in> set out \<longrightarrow>
            at_node es e0 a = at_node es e0 a0 \<or> (\<exists>b \<in> set out. at_node es e0 a = at_node es e0 b))
      \<and> (\<forall>b \<in> set out. \<not> isT (at_node es e0 b) \<longrightarrow>
            (\<forall>a'. own es e0 a' \<and> at_node es e0 a' = at_node es e0 b \<and> a' \<noteq> b
                 \<longrightarrow> a' \<in> set stack \<or> twin a' \<in> set out))
      \<and> (a0 \<in> set stack \<or> twin a0 \<in> set out))"

text \<open>
  A path from terminal 1 over the nonterminal 0 to terminal 2: a tree, and so accepted
  by \<open>insert\<close>, but no full component.
\<close>

definition ex_path :: "int EdgeWeightedGraphCopy" where
  "ex_path = \<lparr> c_nodes = [1, 0, 2], c_edges = [(1, 0, 2), (0, 2, 3)] \<rparr>"

definition ex_store3 :: "(int, unit) FullComponentStore" where
  "ex_store3 = after (insert_fc ex_store0 ex_path) ex_store0"

text \<open>
  The walk of \<open>remove\<close> pushes nodes where \<open>foreachAdjEntry\<close> pushes entries: the node of
  an entry, and the store after the edges of the entries on the stack and of the
  processed ones, and the processed nonterminal nodes, have been deleted.
\<close>

definition node_of :: "(node \<Rightarrow> node option) \<Rightarrow> (node \<times> node \<times> 'w) list \<Rightarrow> edge \<Rightarrow> adjEntry \<Rightarrow> node" where
  "node_of nc es e0 a = the (nc (at_node es e0 a))"

definition walk_store :: "('w, 'x) FullComponentStore \<Rightarrow> (node \<Rightarrow> node option) \<Rightarrow> (node \<times> node \<times> 'w) list \<Rightarrow> edge
    \<Rightarrow> adjEntry list \<Rightarrow> adjEntry list \<Rightarrow> ('w, 'x) FullComponentStore" where
  "walk_store s nc es e0 stack out =
     s\<lparr> m_graph := rg (m_graph s) (theEdge ` set (stack @ out))
            (node_of nc es e0 ` {b \<in> set out. \<not> m_isTerminal s (at_node es e0 b)}) \<rparr>"

text \<open>
  A tree of one node, the terminal 1: accepted by \<open>insert\<close>, with no start entry.
\<close>

definition ex_single :: "int EdgeWeightedGraphCopy" where
  "ex_single = \<lparr> c_nodes = [1], c_edges = [] \<rparr>"

definition ex_store4 :: "(int, unit) FullComponentStore" where
  "ex_store4 = after (insert_fc ex_store0 ex_single) ex_store0"

text \<open>
  What the loss computation needs of the predecessor table of \<open>computeMinST\<close>: the
  predecessor edge of a node is an edge at that node, and its other end is nearer to the
  root (has a smaller rank). \<open>balanced\<close> is the equation of loss, bridges and cost for
  one record.
\<close>

definition pred_ok :: "'w EdgeWeightedGraph \<Rightarrow> (node \<Rightarrow> edge option) \<Rightarrow> bool" where
  "pred_ok g pred =
     (\<exists>rank :: node \<Rightarrow> nat. \<forall>u e. pred u = Some e \<longrightarrow>
        (\<exists>a b. ends g e = Some (a, b) \<and> (u = a \<and> rank b < rank u \<or> u = b \<and> rank a < rank u)))"

definition balanced :: "'w::comm_monoid_add EdgeWeightedGraph \<Rightarrow> ('w, 'w LossMetadata) Metadata \<Rightarrow> bool" where
  "balanced g md =
     (loss_of (md_extra md) + sum_list (map (weight g) (bridges_of (md_extra md))) = md_cost md)"

text \<open>
  A stand-in for \<open>computeMinST\<close> on the examples: no predecessors, and edge 0 as the only
  tree edge. The stores with loss have the same terminals 1, 2 and 3; \<open>losses_of\<close> is a
  store after \<open>computeAllLosses\<close>.
\<close>

definition ex_mst :: "node \<Rightarrow> int EdgeWeightedGraph \<Rightarrow> (node \<Rightarrow> edge option) \<times> (edge \<Rightarrow> bool)" where
  "ex_mst r g = (\<lambda>u. None, \<lambda>e. e = 0)"

definition ex_loss0 :: "(int, int LossMetadata) FullComponentStore" where
  "ex_loss0 = new_store [1, 2, 3] ex_isT"

definition ex_loss_star :: "int FullComponentWithLossStore" where
  "ex_loss_star = \<lparr> fcs = after (insert_fc ex_loss0 ex_star) ex_loss0, m_lossTerminal = (\<lambda>v. None) \<rparr>"

definition ex_loss_path :: "int FullComponentWithLossStore" where
  "ex_loss_path = \<lparr> fcs = after (insert_fc ex_loss0 ex_path) ex_loss0, m_lossTerminal = (\<lambda>v. None) \<rparr>"

definition losses_of :: "int FullComponentWithLossStore \<Rightarrow> int FullComponentWithLossStore" where
  "losses_of ls = (case computeAllLosses ex_mst ls of Some (Inr ls') \<Rightarrow> ls' | _ \<Rightarrow> ls)"

section \<open>The metadata table\<close>

lemma remove_loop_components:
  "remove_loop s cap stack = Inr s' \<Longrightarrow> m_components s' = m_components s"
  by (induction s cap stack rule: remove_loop.induct)
     (auto split: if_splits sum.splits option.splits)

lemma remove_in_graph_components:
  "remove_in_graph s md = Inr s' \<Longrightarrow> m_components s' = m_components s"
  by (auto simp: remove_in_graph_def dest: remove_loop_components
           split: option.splits if_splits sum.splits)

section \<open>Graph operations and insertion\<close>

lemma wf_graph_empty: "wf_graph emptyGraph"
  by (simp add: wf_graph_def emptyGraph_def)

lemma theNode_simps:
  "theNode g (AdjSource e) = map_option fst (ends g e)"
  "theNode g (AdjTarget e) = map_option snd (ends g e)"
  by (auto simp: theNode_def split: option.splits)

lemma wf_graph_newNode: "wf_graph g \<Longrightarrow> wf_graph (fst (newNode g))"
  unfolding wf_graph_def newNode_def
  by (auto simp: theNode_def less_Suc_eq split: option.splits)

lemma wf_graph_newEdge:
  assumes "wf_graph g" "u \<in> set (nodes g)" "v \<in> set (nodes g)"
  shows "wf_graph (fst (newEdge g u v w))"
proof -
  have fresh: "\<And>x a. a \<in> set (adjEntries g x) \<Longrightarrow> theEdge a \<noteq> edgeIdCount g"
  proof
    fix x a assume a: "a \<in> set (adjEntries g x)" and e: "theEdge a = edgeIdCount g"
    from assms(1) a have "theNode g a = Some x" by (auto simp: wf_graph_def)
    then obtain p q where "ends g (theEdge a) = Some (p, q)"
      by (auto simp: theNode_def split: option.splits)
    with assms(1) have "theEdge a < edgeIdCount g" by (auto simp: wf_graph_def)
    with e show False by simp
  qed
  then have fresh2: "\<And>x. AdjSource (edgeIdCount g) \<notin> set (adjEntries g x)"
       "\<And>x. AdjTarget (edgeIdCount g) \<notin> set (adjEntries g x)"
    by force+
  have dead: "ends g (edgeIdCount g) = None"
    using assms(1) by (cases "ends g (edgeIdCount g)") (auto simp: wf_graph_def)
  show ?thesis
    using assms fresh fresh2 dead unfolding wf_graph_def newEdge_def Let_def
    apply (intro conjI)
        apply simp
       apply simp
      apply (auto simp: less_Suc_eq)[1]
     apply (auto simp: theNode_def split: option.splits adjEntry.splits)[1]
    apply (auto)[1]
    done
qed

lemma rg_empty: "rg g {} {} = g"
  by (simp add: rg_def)

lemma rg_simps:
  "ends (rg g X N) e = (if e \<in> X then None else ends g e)"
  "adjEntries (rg g X N) z = filter (\<lambda>a. theEdge a \<notin> X) (adjEntries g z)"
  "nodes (rg g X N) = filter (\<lambda>v. v \<notin> N) (nodes g)"
  "weight (rg g X N) = weight g"
  "nodeIdCount (rg g X N) = nodeIdCount g"
  "edgeIdCount (rg g X N) = edgeIdCount g"
  by (simp_all add: rg_def)

lemma wf_entry_live:
  "wf_graph g \<Longrightarrow> a \<in> set (adjEntries g z) \<Longrightarrow> theNode g a = Some z"
  by (simp add: wf_graph_def)

lemma wf_entry_source:
  "wf_graph g \<Longrightarrow> AdjSource e \<in> set (adjEntries g z) \<Longrightarrow> \<exists>v. ends g e = Some (z, v)"
  by (drule (1) wf_entry_live) (auto simp: theNode_def split: option.splits)

lemma wf_entry_target:
  "wf_graph g \<Longrightarrow> AdjTarget e \<in> set (adjEntries g z) \<Longrightarrow> \<exists>u. ends g e = Some (u, z)"
  by (drule (1) wf_entry_live) (auto simp: theNode_def split: option.splits)

lemma wf_entry_edge:
  "wf_graph g \<Longrightarrow> a \<in> set (adjEntries g z) \<Longrightarrow> ends g (theEdge a) \<noteq> None"
  by (drule (1) wf_entry_live) (auto simp: theNode_def split: option.splits)

lemma delEdge_Some:
  assumes "ends g e = Some (u, v)"
  shows "ends (delEdge g e) = (ends g)(e := None)"
    and "adjEntries (delEdge g e) z =
           (if z = v then removeAll (AdjTarget e) else id)
             ((if z = u then removeAll (AdjSource e) else id) (adjEntries g z))"
    and "nodes (delEdge g e) = nodes g" and "weight (delEdge g e) = weight g"
    and "nodeIdCount (delEdge g e) = nodeIdCount g" and "edgeIdCount (delEdge g e) = edgeIdCount g"
  using assms by (auto simp: delEdge_def Let_def)

lemma delEdge_None: "ends g e = None \<Longrightarrow> delEdge g e = g"
  by (simp add: delEdge_def)

lemma delEdge_rg:
  assumes wf: "wf_graph g"
  shows "delEdge (rg g X N) e = rg g (insert e X) N"
proof (cases "ends (rg g X N) e")
  case None
  then have d: "e \<in> X \<or> ends g e = None" by (auto simp: rg_simps split: if_splits)
  have "\<And>z a. a \<in> set (adjEntries g z) \<Longrightarrow> theEdge a \<notin> X \<Longrightarrow> theEdge a \<noteq> e"
    using d wf_entry_edge [OF wf] by blast
  then have "\<And>z. filter (\<lambda>a. theEdge a \<notin> insert e X) (adjEntries g z)
               = filter (\<lambda>a. theEdge a \<notin> X) (adjEntries g z)"
    by (intro filter_cong) auto
  then have "(\<lambda>z. filter (\<lambda>a. theEdge a \<notin> insert e X) (adjEntries g z))
               = (\<lambda>z. filter (\<lambda>a. theEdge a \<notin> X) (adjEntries g z))" by (rule ext)
  moreover have "(\<lambda>k. if k \<in> insert e X then None else ends g k) = (\<lambda>k. if k \<in> X then None else ends g k)"
    using d by auto
  ultimately have "rg g (insert e X) N = rg g X N" unfolding rg_def by simp
  with None show ?thesis by (simp add: delEdge_None)
next
  case (Some p)
  obtain u v where p: "p = (u, v)" by (cases p)
  with Some have e: "e \<notin> X" "ends g e = Some (u, v)" by (auto simp: rg_simps split: if_splits)
  from Some p have S: "ends (rg g X N) e = Some (u, v)" by simp
  have src: "\<And>z. AdjSource e \<in> set (adjEntries g z) \<Longrightarrow> z = u"
    using wf_entry_source [OF wf] e by fastforce
  have tgt: "\<And>z. AdjTarget e \<in> set (adjEntries g z) \<Longrightarrow> z = v"
    using wf_entry_target [OF wf] e by fastforce
  have adj: "adjEntries (delEdge (rg g X N) e) z = adjEntries (rg g (insert e X) N) z" for z
  proof -
    have "\<And>a. a \<in> set (adjEntries g z) \<Longrightarrow>
        (theEdge a \<notin> insert e X) = ((z = v \<longrightarrow> a \<noteq> AdjTarget e) \<and> (z = u \<longrightarrow> a \<noteq> AdjSource e) \<and> theEdge a \<notin> X)"
      subgoal for a using src [of z] tgt [of z] e by (cases a) auto
      done
    then have "filter (\<lambda>a. theEdge a \<notin> insert e X) (adjEntries g z)
        = filter (\<lambda>a. (z = v \<longrightarrow> a \<noteq> AdjTarget e) \<and> (z = u \<longrightarrow> a \<noteq> AdjSource e) \<and> theEdge a \<notin> X) (adjEntries g z)"
      by (intro filter_cong) auto
    also have "\<dots> = (if z = v then removeAll (AdjTarget e) else id)
          ((if z = u then removeAll (AdjSource e) else id) (filter (\<lambda>a. theEdge a \<notin> X) (adjEntries g z)))"
      by (auto simp: removeAll_filter_not_eq intro!: filter_cong)
    finally show ?thesis
      unfolding delEdge_Some(2) [OF S] rg_simps by simp
  qed
  have en: "ends (delEdge (rg g X N) e) = ends (rg g (insert e X) N)"
    unfolding delEdge_Some(1) [OF S] by (auto simp: rg_simps fun_eq_iff)
  show ?thesis
  proof (rule EdgeWeightedGraph.equality)
    show "ends (delEdge (rg g X N) e) = ends (rg g (insert e X) N)" by (rule en)
    show "adjEntries (delEdge (rg g X N) e) = adjEntries (rg g (insert e X) N)"
      by (rule ext) (rule adj)
    show "EdgeWeightedGraph.more (delEdge (rg g X N) e) = EdgeWeightedGraph.more (rg g (insert e X) N)"
      by (simp add: rg_def delEdge_def S Let_def)
  qed (simp_all only: delEdge_Some [OF S] rg_simps)
qed

lemma fold_delEdge_rg:
  assumes wf: "wf_graph g"
  shows "fold (\<lambda>a h. delEdge h (theEdge a)) as (rg g X N) = rg g (X \<union> theEdge ` set as) N"
  by (induction as arbitrary: X) (simp_all add: delEdge_rg [OF wf])

lemma delNode_rg:
  assumes wf: "wf_graph g"
  shows "delNode (rg g X N) v = rg g (X \<union> theEdge ` set (adjEntries g v)) (insert v N)"
proof -
  have "X \<union> theEdge ` set (filter (\<lambda>a. theEdge a \<notin> X) (adjEntries g v)) = X \<union> theEdge ` set (adjEntries g v)"
    by auto
  then have "delNode (rg g X N) v = (rg g (X \<union> theEdge ` set (adjEntries g v)) N)
      \<lparr> nodes := removeAll v (nodes (rg g (X \<union> theEdge ` set (adjEntries g v)) N)) \<rparr>"
    by (simp add: delNode_def Let_def fold_delEdge_rg [OF wf] rg_simps)
  also have "\<dots> = rg g (X \<union> theEdge ` set (adjEntries g v)) (insert v N)"
  proof -
    have n: "removeAll v (filter (\<lambda>x. x \<notin> N) xs) = filter (\<lambda>x. x \<noteq> v \<and> x \<notin> N) xs" for xs
      by (induction xs) auto
    show ?thesis unfolding rg_def by (simp add: n)
  qed
  finally show ?thesis .
qed

lemma wf_graph_rg:
  assumes wf: "wf_graph g"
    and closed: "\<And>e u v. ends g e = Some (u, v) \<Longrightarrow> e \<notin> X \<Longrightarrow> u \<notin> N \<and> v \<notin> N"
  shows "wf_graph (rg g X N)"
  using wf closed unfolding wf_graph_def rg_simps
  apply (intro conjI)
      apply simp
     apply simp
    apply (auto)[1]
   apply (auto simp: theNode_def rg_simps split: option.splits)[1]
  apply simp
  done

lemma insert_nodes_fields:
  "insert_nodes s tmp ts vs = (s', tmp', ts') \<Longrightarrow>
     m_components s' = m_components s \<and> m_terminals s' = m_terminals s
     \<and> m_isTerminal s' = m_isTerminal s
     \<and> edgeIdCount (m_graph s') = edgeIdCount (m_graph s)
     \<and> ends (m_graph s') = ends (m_graph s) \<and> weight (m_graph s') = weight (m_graph s)"
  by (induction vs arbitrary: s tmp ts) (auto simp: newNode_def split: option.splits)

lemma insert_nodes_lists:
  "insert_nodes s tmp ts vs = (s', tmp', ts') \<Longrightarrow> distinct vs \<Longrightarrow>
     tmp' = tmp @ filter (\<lambda>v. m_nodeCopy s v = None) vs
     \<and> ts' = ts @ filter (\<lambda>v. m_nodeCopy s v \<noteq> None) vs"
proof (induction vs arbitrary: s tmp ts)
  case Nil
  then show ?case by simp
next
  case (Cons v vs)
  show ?case
  proof (cases "m_nodeCopy s v")
    case None
    let ?s1 = "s\<lparr> m_graph := fst (newNode (m_graph s)),
                   m_nodeCopy := (m_nodeCopy s)(v := Some (snd (newNode (m_graph s)))),
                   m_nodeOrig := (m_nodeOrig s)(snd (newNode (m_graph s)) := Some v) \<rparr>"
    from Cons.prems None have "insert_nodes ?s1 (tmp @ [v]) ts vs = (s', tmp', ts')"
      by (simp add: case_prod_beta)
    from Cons.IH [OF this] Cons.prems(2) None show ?thesis
      by (auto intro!: filter_cong)
  next
    case (Some y)
    from Cons.prems Some have "insert_nodes s tmp (ts @ [v]) vs = (s', tmp', ts')" by simp
    from Cons.IH [OF this] Cons.prems(2) Some show ?thesis by auto
  qed
qed

lemma insert_nodes_wf:
  "insert_nodes s tmp ts vs = (s', tmp', ts') \<Longrightarrow> wf_graph (m_graph s) \<Longrightarrow> wf_graph (m_graph s')"
proof (induction vs arbitrary: s tmp ts)
  case Nil
  then show ?case by simp
next
  case (Cons v vs)
  show ?case
  proof (cases "m_nodeCopy s v")
    case None
    let ?s1 = "s\<lparr> m_graph := fst (newNode (m_graph s)),
                   m_nodeCopy := (m_nodeCopy s)(v := Some (snd (newNode (m_graph s)))),
                   m_nodeOrig := (m_nodeOrig s)(snd (newNode (m_graph s)) := Some v) \<rparr>"
    from Cons.prems None have "insert_nodes ?s1 (tmp @ [v]) ts vs = (s', tmp', ts')"
      by (simp add: case_prod_beta)
    from Cons.IH [OF this] Cons.prems(2) show ?thesis
      by (simp add: wf_graph_newNode)
  next
    case (Some y)
    with Cons show ?thesis by simp
  qed
qed

lemma insert_nodes_graph:
  "insert_nodes s tmp ts vs = (s', tmp', ts') \<Longrightarrow>
     nodeIdCount (m_graph s) \<le> nodeIdCount (m_graph s')
     \<and> set (nodes (m_graph s')) = set (nodes (m_graph s)) \<union> {nodeIdCount (m_graph s) ..< nodeIdCount (m_graph s')}
     \<and> (\<forall>y. y < nodeIdCount (m_graph s) \<longrightarrow>
           adjEntries (m_graph s') y = adjEntries (m_graph s) y \<and> m_nodeOrig s' y = m_nodeOrig s y)
     \<and> (\<forall>y. nodeIdCount (m_graph s) \<le> y \<and> y < nodeIdCount (m_graph s') \<longrightarrow> adjEntries (m_graph s') y = [])"
proof (induction vs arbitrary: s tmp ts)
  case Nil
  then show ?case by auto
next
  case (Cons v vs)
  show ?case
  proof (cases "m_nodeCopy s v")
    case None
    let ?s1 = "s\<lparr> m_graph := fst (newNode (m_graph s)),
                   m_nodeCopy := (m_nodeCopy s)(v := Some (snd (newNode (m_graph s)))),
                   m_nodeOrig := (m_nodeOrig s)(snd (newNode (m_graph s)) := Some v) \<rparr>"
    from Cons.prems None have "insert_nodes ?s1 (tmp @ [v]) ts vs = (s', tmp', ts')"
      by (simp add: case_prod_beta)
    from Cons.IH [OF this] have
      i1: "Suc (nodeIdCount (m_graph s)) \<le> nodeIdCount (m_graph s')" and
      i2: "set (nodes (m_graph s')) = insert (nodeIdCount (m_graph s)) (set (nodes (m_graph s)))
             \<union> {Suc (nodeIdCount (m_graph s))..<nodeIdCount (m_graph s')}" and
      i3: "\<And>y. y < Suc (nodeIdCount (m_graph s)) \<Longrightarrow>
             adjEntries (m_graph s') y = (if y = nodeIdCount (m_graph s) then [] else adjEntries (m_graph s) y)
             \<and> m_nodeOrig s' y = (if y = nodeIdCount (m_graph s) then Some v else m_nodeOrig s y)" and
      i4: "\<And>y. Suc (nodeIdCount (m_graph s)) \<le> y \<Longrightarrow> y < nodeIdCount (m_graph s') \<Longrightarrow>
             adjEntries (m_graph s') y = []"
      by (simp_all add: newNode_def)
    show ?thesis
    proof (intro conjI allI impI)
      show "nodeIdCount (m_graph s) \<le> nodeIdCount (m_graph s')" using i1 by simp
      show "set (nodes (m_graph s')) = set (nodes (m_graph s))
              \<union> {nodeIdCount (m_graph s)..<nodeIdCount (m_graph s')}"
        using i1 unfolding i2 by auto
    next
      fix y assume "y < nodeIdCount (m_graph s)"
      then show "adjEntries (m_graph s') y = adjEntries (m_graph s) y"
        and "m_nodeOrig s' y = m_nodeOrig s y"
        using i3 [of y] by auto
    next
      fix y assume "nodeIdCount (m_graph s) \<le> y \<and> y < nodeIdCount (m_graph s')"
      then show "adjEntries (m_graph s') y = []"
        using i3 [of y] i4 [of y] by (cases "y = nodeIdCount (m_graph s)") auto
    qed
  next
    case (Some y)
    with Cons show ?thesis by simp
  qed
qed

lemma insert_nodes_copy:
  "insert_nodes s tmp ts vs = (s', tmp', ts') \<Longrightarrow>
     (\<forall>x y. m_nodeCopy s x = Some y \<longrightarrow> m_nodeCopy s' x = Some y)
     \<and> (\<forall>x. x \<notin> set vs \<longrightarrow> m_nodeCopy s' x = m_nodeCopy s x)
     \<and> (\<forall>x \<in> set vs. m_nodeCopy s x = None \<longrightarrow>
           (\<exists>y. m_nodeCopy s' x = Some y \<and> nodeIdCount (m_graph s) \<le> y
                \<and> y < nodeIdCount (m_graph s') \<and> m_nodeOrig s' y = Some x))"
proof (induction vs arbitrary: s tmp ts)
  case Nil
  then show ?case by simp
next
  case (Cons v vs)
  show ?case
  proof (cases "m_nodeCopy s v")
    case None
    let ?s1 = "s\<lparr> m_graph := fst (newNode (m_graph s)),
                   m_nodeCopy := (m_nodeCopy s)(v := Some (snd (newNode (m_graph s)))),
                   m_nodeOrig := (m_nodeOrig s)(snd (newNode (m_graph s)) := Some v) \<rparr>"
    from Cons.prems None have step: "insert_nodes ?s1 (tmp @ [v]) ts vs = (s', tmp', ts')"
      by (simp add: case_prod_beta)
    note IH = Cons.IH [OF step]
    note G = insert_nodes_graph [OF step]
    have n1: "nodeIdCount (m_graph ?s1) = Suc (nodeIdCount (m_graph s))" by (simp add: newNode_def)
    have c1: "m_nodeCopy ?s1 = (m_nodeCopy s)(v := Some (nodeIdCount (m_graph s)))" by (simp add: newNode_def)
    have o1: "m_nodeOrig ?s1 (nodeIdCount (m_graph s)) = Some v" by (simp add: newNode_def)
    have a: "\<forall>x y. m_nodeCopy s x = Some y \<longrightarrow> m_nodeCopy s' x = Some y"
    proof (intro allI impI)
      fix x y assume xy: "m_nodeCopy s x = Some y"
      with None have "x \<noteq> v" by auto
      with xy have "m_nodeCopy ?s1 x = Some y" by (simp add: c1)
      with IH show "m_nodeCopy s' x = Some y" by blast
    qed
    have b: "\<forall>x. x \<notin> set (v # vs) \<longrightarrow> m_nodeCopy s' x = m_nodeCopy s x"
      using IH by (auto simp: c1)
    have v: "m_nodeCopy s' v = Some (nodeIdCount (m_graph s))"
      using IH by (auto simp: c1)
    have vo: "m_nodeOrig s' (nodeIdCount (m_graph s)) = Some v"
      using G o1 n1 by auto
    have c: "\<forall>x \<in> set (v # vs). m_nodeCopy s x = None \<longrightarrow>
           (\<exists>y. m_nodeCopy s' x = Some y \<and> nodeIdCount (m_graph s) \<le> y
                \<and> y < nodeIdCount (m_graph s') \<and> m_nodeOrig s' y = Some x)"
    proof (intro ballI impI)
      fix x assume x: "x \<in> set (v # vs)" and xn: "m_nodeCopy s x = None"
      show "\<exists>y. m_nodeCopy s' x = Some y \<and> nodeIdCount (m_graph s) \<le> y
                \<and> y < nodeIdCount (m_graph s') \<and> m_nodeOrig s' y = Some x"
      proof (cases "x = v")
        case True
        then show ?thesis using v vo G n1 by auto
      next
        case False
        with x xn have "x \<in> set vs" "m_nodeCopy ?s1 x = None" by (auto simp: c1)
        with IH obtain y where "m_nodeCopy s' x = Some y" "nodeIdCount (m_graph ?s1) \<le> y"
          "y < nodeIdCount (m_graph s')" "m_nodeOrig s' y = Some x" by blast
        then show ?thesis using n1 by auto
      qed
    qed
    from a b c show ?thesis by blast
  next
    case (Some y)
    from Cons.prems Some have step: "insert_nodes s tmp (ts @ [v]) vs = (s', tmp', ts')" by simp
    from Cons.IH [OF step] Some show ?thesis by auto
  qed
qed

lemma insert_edges_fields:
  "insert_edges s d es = Inr (s', d') \<Longrightarrow>
     m_nodeCopy s' = m_nodeCopy s \<and> m_nodeOrig s' = m_nodeOrig s
     \<and> m_components s' = m_components s \<and> m_terminals s' = m_terminals s
     \<and> m_isTerminal s' = m_isTerminal s
     \<and> nodes (m_graph s') = nodes (m_graph s)
     \<and> nodeIdCount (m_graph s') = nodeIdCount (m_graph s)
     \<and> edgeIdCount (m_graph s') = edgeIdCount (m_graph s) + length es
     \<and> md_terminals d' = md_terminals d \<and> md_extra d' = md_extra d"
  by (induction es arbitrary: s d)
     (auto simp: newEdge_def Let_def split: option.splits if_splits)

lemma insert_edges_cost:
  fixes d :: "('w::monoid_add, 'x) Metadata"
  shows "insert_edges s d es = Inr (s', d') \<Longrightarrow>
     md_cost d' = md_cost d + sum_list (map (\<lambda>e. snd (snd e)) es)"
  by (induction es arbitrary: s d)
     (auto simp: newEdge_def Let_def add.assoc split: option.splits if_splits)

lemma insert_edges_start:
  "insert_edges s d es = Inr (s', d') \<Longrightarrow>
     md_start d' = (case find_start (m_isTerminal s) (edgeIdCount (m_graph s)) es of
                      None \<Rightarrow> md_start d | Some a \<Rightarrow> Some a)"
  by (induction es arbitrary: s d)
     (auto simp: newEdge_def Let_def split: option.splits if_splits)

lemma insert_edges_Cons:
  assumes "insert_edges s d ((uO, vO, w) # es) = Inr (s', d')"
  obtains uC vC d1 where "m_nodeCopy s uO = Some uC" "m_nodeCopy s vO = Some vC"
    "uC \<in> set (nodes (m_graph s))" "vC \<in> set (nodes (m_graph s))"
    "insert_edges (s\<lparr> m_graph := fst (newEdge (m_graph s) uC vC w) \<rparr>) d1 es = Inr (s', d')"
  using assms by (auto simp: Let_def case_prod_beta split: option.splits if_splits)

lemma newEdge_simps:
  "ends (fst (newEdge g u v w)) = (ends g)(edgeIdCount g := Some (u, v))"
  "weight (fst (newEdge g u v w)) = (weight g)(edgeIdCount g := w)"
  "nodes (fst (newEdge g u v w)) = nodes g"
  "edgeIdCount (fst (newEdge g u v w)) = Suc (edgeIdCount g)"
  "nodeIdCount (fst (newEdge g u v w)) = nodeIdCount g"
  "adjEntries (fst (newEdge g u v w)) y =
     adjEntries g y @ (if u = y then [AdjSource (edgeIdCount g)] else [])
       @ (if v = y then [AdjTarget (edgeIdCount g)] else [])"
  by (auto simp: newEdge_def Let_def)

lemma insert_edges_wf:
  "insert_edges s d es = Inr (s', d') \<Longrightarrow> wf_graph (m_graph s) \<Longrightarrow> wf_graph (m_graph s')"
proof (induction es arbitrary: s d)
  case Nil
  then show ?case by simp
next
  case (Cons e es)
  obtain uO vO w where e: "e = (uO, vO, w)" by (cases e)
  from Cons.prems(1) [unfolded e] show ?case
  proof (rule insert_edges_Cons)
    fix uC vC d1
    assume "uC \<in> set (nodes (m_graph s))" "vC \<in> set (nodes (m_graph s))"
      and step: "insert_edges (s\<lparr> m_graph := fst (newEdge (m_graph s) uC vC w) \<rparr>) d1 es = Inr (s', d')"
    then show ?thesis using Cons.IH [OF step] Cons.prems(2) by (simp add: wf_graph_newEdge)
  qed
qed

lemma insert_edges_ends:
  "insert_edges s d es = Inr (s', d') \<Longrightarrow>
     (\<forall>e. e < edgeIdCount (m_graph s) \<longrightarrow>
        ends (m_graph s') e = ends (m_graph s) e \<and> weight (m_graph s') e = weight (m_graph s) e)
     \<and> (\<forall>k < length es. \<exists>uC vC.
           m_nodeCopy s (fst (es ! k)) = Some uC \<and> m_nodeCopy s (fst (snd (es ! k))) = Some vC
           \<and> uC \<in> set (nodes (m_graph s)) \<and> vC \<in> set (nodes (m_graph s))
           \<and> ends (m_graph s') (edgeIdCount (m_graph s) + k) = Some (uC, vC)
           \<and> weight (m_graph s') (edgeIdCount (m_graph s) + k) = snd (snd (es ! k)))"
proof (induction es arbitrary: s d)
  case Nil
  then show ?case by simp
next
  case (Cons e es)
  obtain uO vO w where e: "e = (uO, vO, w)" by (cases e)
  from Cons.prems(1) [unfolded e] show ?case
  proof (rule insert_edges_Cons)
    fix uC vC d1
    let ?s1 = "s\<lparr> m_graph := fst (newEdge (m_graph s) uC vC w) \<rparr>"
    assume c: "m_nodeCopy s uO = Some uC" "m_nodeCopy s vO = Some vC"
      "uC \<in> set (nodes (m_graph s))" "vC \<in> set (nodes (m_graph s))"
      and step: "insert_edges ?s1 d1 es = Inr (s', d')"
    have old: "\<And>k. k < Suc (edgeIdCount (m_graph s)) \<Longrightarrow>
        ends (m_graph s') k = ((ends (m_graph s))(edgeIdCount (m_graph s) := Some (uC, vC))) k
        \<and> weight (m_graph s') k = ((weight (m_graph s))(edgeIdCount (m_graph s) := w)) k"
      using Cons.IH [OF step] by (simp add: newEdge_simps)
    have new: "\<And>k. k < length es \<Longrightarrow> \<exists>uC vC.
           m_nodeCopy s (fst (es ! k)) = Some uC \<and> m_nodeCopy s (fst (snd (es ! k))) = Some vC
           \<and> uC \<in> set (nodes (m_graph s)) \<and> vC \<in> set (nodes (m_graph s))
           \<and> ends (m_graph s') (Suc (edgeIdCount (m_graph s)) + k) = Some (uC, vC)
           \<and> weight (m_graph s') (Suc (edgeIdCount (m_graph s)) + k) = snd (snd (es ! k))"
      using Cons.IH [OF step] by (simp add: newEdge_simps)
    show ?thesis
    proof (intro conjI allI impI)
      fix k assume "k < edgeIdCount (m_graph s)"
      then show "ends (m_graph s') k = ends (m_graph s) k" "weight (m_graph s') k = weight (m_graph s) k"
        using old [of k] by auto
    next
      fix k assume k: "k < length (e # es)"
      show "\<exists>uC vC.
           m_nodeCopy s (fst ((e # es) ! k)) = Some uC \<and> m_nodeCopy s (fst (snd ((e # es) ! k))) = Some vC
           \<and> uC \<in> set (nodes (m_graph s)) \<and> vC \<in> set (nodes (m_graph s))
           \<and> ends (m_graph s') (edgeIdCount (m_graph s) + k) = Some (uC, vC)
           \<and> weight (m_graph s') (edgeIdCount (m_graph s) + k) = snd (snd ((e # es) ! k))"
      proof (cases k)
        case 0
        then show ?thesis using old [of "edgeIdCount (m_graph s)"] c e by simp
      next
        case (Suc k')
        with k have "k' < length es" by simp
        from new [OF this] show ?thesis using Suc by simp
      qed
    qed
  qed
qed

lemma insert_edges_adj:
  "insert_edges s d es = Inr (s', d') \<Longrightarrow>
     adjEntries (m_graph s') y
       = adjEntries (m_graph s) y @ incident (m_nodeCopy s) y (edgeIdCount (m_graph s)) es"
proof (induction es arbitrary: s d)
  case Nil
  then show ?case by simp
next
  case (Cons e es)
  obtain uO vO w where e: "e = (uO, vO, w)" by (cases e)
  from Cons.prems(1) [unfolded e] show ?case
  proof (rule insert_edges_Cons)
    fix uC vC d1
    let ?s1 = "s\<lparr> m_graph := fst (newEdge (m_graph s) uC vC w) \<rparr>"
    assume c: "m_nodeCopy s uO = Some uC" "m_nodeCopy s vO = Some vC"
      and step: "insert_edges ?s1 d1 es = Inr (s', d')"
    from Cons.IH [OF step] show ?thesis
      by (simp add: newEdge_simps e c eq_commute)
  qed
qed

lemma insert_edges_step:
  fixes d :: "('w::plus, 'x) Metadata"
  assumes "m_nodeCopy s uO = Some uC" "m_nodeCopy s vO = Some vC"
    "uC \<in> set (nodes (m_graph s))" "vC \<in> set (nodes (m_graph s))"
  shows "\<exists>d1. insert_edges s d ((uO, vO, w) # es)
           = insert_edges (s\<lparr> m_graph := fst (newEdge (m_graph s) uC vC w) \<rparr>) d1 es"
  using assms by (auto simp: Let_def case_prod_beta intro!: exI)

lemma insert_edges_total:
  fixes d :: "('w::plus, 'x) Metadata"
  assumes "\<forall>e \<in> set es. \<exists>uC vC. m_nodeCopy s (fst e) = Some uC \<and> m_nodeCopy s (fst (snd e)) = Some vC
              \<and> uC \<in> set (nodes (m_graph s)) \<and> vC \<in> set (nodes (m_graph s))"
  shows "\<exists>r. insert_edges s d es = Inr r"
  using assms
proof (induction es arbitrary: s d)
  case Nil
  then show ?case by simp
next
  case (Cons e es)
  obtain uO vO w where e: "e = (uO, vO, w)" by (cases e)
  from Cons.prems obtain uC vC where c: "m_nodeCopy s uO = Some uC" "m_nodeCopy s vO = Some vC"
      "uC \<in> set (nodes (m_graph s))" "vC \<in> set (nodes (m_graph s))"
    by (auto simp: e)
  let ?s1 = "s\<lparr> m_graph := fst (newEdge (m_graph s) uC vC w) \<rparr>"
  from insert_edges_step [OF c] obtain d1 where
    st: "insert_edges s d ((uO, vO, w) # es) = insert_edges ?s1 d1 es" by blast
  have "\<forall>e \<in> set es. \<exists>uC vC. m_nodeCopy ?s1 (fst e) = Some uC \<and> m_nodeCopy ?s1 (fst (snd e)) = Some vC
              \<and> uC \<in> set (nodes (m_graph ?s1)) \<and> vC \<in> set (nodes (m_graph ?s1))"
    using Cons.prems by (simp add: newEdge_simps)
  from Cons.IH [OF this, of d1] show ?case unfolding e st .
qed

lemma fold_clear:
  "fold (\<lambda>vO m. m(vO := None)) tmp m = (\<lambda>x. if x \<in> set tmp then None else m x)"
  by (induction tmp arbitrary: m) (auto simp: fun_eq_iff)

lemma fold_new_terminal:
  "wf_graph (m_graph s) \<Longrightarrow>
   (\<forall>x y. m_nodeCopy s x = Some y \<longrightarrow> y \<in> set (nodes (m_graph s)) \<and> m_nodeOrig s y = Some x) \<Longrightarrow>
   wf_graph (m_graph (fold new_terminal ts s))
   \<and> (\<forall>x y. m_nodeCopy (fold new_terminal ts s) x = Some y \<longrightarrow>
         y \<in> set (nodes (m_graph (fold new_terminal ts s))) \<and> m_nodeOrig (fold new_terminal ts s) y = Some x)
   \<and> (\<forall>x. m_nodeCopy (fold new_terminal ts s) x \<noteq> None \<longleftrightarrow> x \<in> set ts \<or> m_nodeCopy s x \<noteq> None)
   \<and> m_terminals (fold new_terminal ts s) = m_terminals s
   \<and> m_isTerminal (fold new_terminal ts s) = m_isTerminal s
   \<and> m_components (fold new_terminal ts s) = m_components s"
proof (induction ts arbitrary: s)
  case Nil
  then show ?case by simp
next
  case (Cons t ts)
  have fresh: "nodeIdCount (m_graph s) \<notin> set (nodes (m_graph s))"
    using Cons.prems(1) by (auto simp: wf_graph_def)
  have 1: "wf_graph (m_graph (new_terminal t s))"
    using wf_graph_newNode [OF Cons.prems(1)] by (simp add: new_terminal_def case_prod_beta)
  have 2: "\<forall>x y. m_nodeCopy (new_terminal t s) x = Some y \<longrightarrow>
      y \<in> set (nodes (m_graph (new_terminal t s))) \<and> m_nodeOrig (new_terminal t s) y = Some x"
    using Cons.prems(2) fresh by (auto simp: new_terminal_def newNode_def)
  from Cons.IH [OF 1 2] show ?case
    by (auto simp: new_terminal_def newNode_def)
qed

lemma base_inv_new_store:
  assumes "\<forall>x. isT x \<longleftrightarrow> x \<in> set ts"
  shows "base_inv (new_store ts isT :: ('w::zero, 'x) FullComponentStore)"
proof -
  let ?s0 = "\<lparr> m_terminals = ts, m_isTerminal = isT, m_graph = emptyGraph,
         m_nodeCopy = (\<lambda>v. None), m_nodeOrig = (\<lambda>v. None), m_components = [] \<rparr> :: ('w, 'x) FullComponentStore"
  have "wf_graph (m_graph ?s0)" by (simp add: wf_graph_empty)
  moreover have "\<forall>x y. m_nodeCopy ?s0 x = Some y \<longrightarrow> y \<in> set (nodes (m_graph ?s0)) \<and> m_nodeOrig ?s0 y = Some x"
    by simp
  ultimately show ?thesis
    using fold_new_terminal [of ?s0 ts] assms
    unfolding base_inv_def new_store_def by simp
qed

lemma fold_new_terminal_fields:
  "m_components (fold new_terminal ts s) = m_components s
   \<and> m_terminals (fold new_terminal ts s) = m_terminals s
   \<and> m_isTerminal (fold new_terminal ts s) = m_isTerminal s"
  by (induction ts arbitrary: s) (auto simp: new_terminal_def case_prod_beta)

lemma new_store_fields:
  "m_components (new_store ts isT) = []" "m_terminals (new_store ts isT) = ts"
  "m_isTerminal (new_store ts isT) = isT"
  by (simp_all add: new_store_def fold_new_terminal_fields)

lemma incident_edges: "theEdge ` set (incident nc y e es) \<subseteq> {e ..< e + length es}"
  by (induction es arbitrary: e) (fastforce split: if_splits)+

lemma incident_empty:
  "\<forall>ed \<in> set es. nc (fst ed) \<noteq> Some y \<and> nc (fst (snd ed)) \<noteq> Some y \<Longrightarrow> incident nc y e es = []"
  by (induction es arbitrary: e) auto

lemma find_start_range:
  "find_start isT e es = Some a \<Longrightarrow> theEdge a \<in> {e ..< e + length es}"
  by (induction es arbitrary: e) (fastforce split: option.splits if_splits)+

lemma isTree_nodes:
  assumes "isTree c"
  shows "distinct (c_nodes c)"
    and "\<And>e. e \<in> set (c_edges c) \<Longrightarrow> fst e \<in> set (c_nodes c) \<and> fst (snd e) \<in> set (c_nodes c)"
  using assms by (auto simp: isTree_def)

lemma insert_fc_Inr:
  assumes "insert_fc s c = Inr (r, s')"
  obtains s1 tmp ts s2 d where "c_nodes c \<noteq> []" "isTree c"
    "insert_nodes s [] [] (c_nodes c) = (s1, tmp, ts)"
    "insert_edges s1 (Metadata0\<lparr> md_terminals := sort ts \<rparr>) (c_edges c) = Inr (s2, d)"
    "r = Void"
    "s' = s2\<lparr> m_nodeCopy := fold (\<lambda>vO m. m(vO := None)) tmp (m_nodeCopy s2),
              m_components := m_components s2 @ [d] \<rparr>"
  using assms
  by (auto simp: insert_fc_def Let_def split: if_splits prod.splits sum.splits)

lemma insert_nodes_copy_cases:
  assumes "insert_nodes s tmp ts vs = (s', tmp', ts')" "m_nodeCopy s' x = Some y"
  shows "m_nodeCopy s x = Some y \<or> (m_nodeCopy s x = None \<and> x \<in> set vs \<and> nodeIdCount (m_graph s) \<le> y)"
proof (cases "m_nodeCopy s x")
  case None
  show ?thesis
  proof (cases "x \<in> set vs")
    case True
    with insert_nodes_copy [OF assms(1)] None assms(2) show ?thesis by fastforce
  next
    case False
    with insert_nodes_copy [OF assms(1)] None assms(2) show ?thesis by simp
  qed
next
  case (Some z)
  with insert_nodes_copy [OF assms(1)] assms(2) show ?thesis by fastforce
qed

lemma embeddedI:
  assumes "c_nodes c \<noteq> []" "isTree c"
    and "\<And>x. x \<in> set (c_nodes c) \<Longrightarrow> \<exists>y. nc x = Some y \<and> y \<in> set (nodes (m_graph s))
               \<and> m_nodeOrig s y = Some x
               \<and> (if m_isTerminal s x then m_nodeCopy s x = Some y
                   else adjEntries (m_graph s) y = incident nc y e0 (c_edges c))"
    and "\<And>k. k < length (c_edges c) \<Longrightarrow> \<exists>u v.
               nc (fst (c_edges c ! k)) = Some u \<and> nc (fst (snd (c_edges c ! k))) = Some v
               \<and> ends (m_graph s) (e0 + k) = Some (u, v)
               \<and> weight (m_graph s) (e0 + k) = snd (snd (c_edges c ! k))"
    and "e0 + length (c_edges c) \<le> edgeIdCount (m_graph s)"
    and "md_start md = find_start (m_isTerminal s) e0 (c_edges c)"
    and "md_cost md = sum_list (map (\<lambda>e. snd (snd e)) (c_edges c))"
    and "md_terminals md = sort (filter (m_isTerminal s) (c_nodes c))"
  shows "embedded s (c, nc, e0) md"
  using assms unfolding embedded_def by simp

lemma embeddedD:
  assumes "embedded s (c, nc, e0) md"
  shows "c_nodes c \<noteq> []" "isTree c"
    and "\<And>x. x \<in> set (c_nodes c) \<Longrightarrow> \<exists>y. nc x = Some y \<and> y \<in> set (nodes (m_graph s))
               \<and> m_nodeOrig s y = Some x
               \<and> (if m_isTerminal s x then m_nodeCopy s x = Some y
                   else adjEntries (m_graph s) y = incident nc y e0 (c_edges c))"
    and "\<And>k. k < length (c_edges c) \<Longrightarrow> \<exists>u v.
               nc (fst (c_edges c ! k)) = Some u \<and> nc (fst (snd (c_edges c ! k))) = Some v
               \<and> ends (m_graph s) (e0 + k) = Some (u, v)
               \<and> weight (m_graph s) (e0 + k) = snd (snd (c_edges c ! k))"
    and "e0 + length (c_edges c) \<le> edgeIdCount (m_graph s)"
    and "md_start md = find_start (m_isTerminal s) e0 (c_edges c)"
    and "md_cost md = sum_list (map (\<lambda>e. snd (snd e)) (c_edges c))"
    and "md_terminals md = sort (filter (m_isTerminal s) (c_nodes c))"
  using assms unfolding embedded_def by simp_all

lemma priv_live:
  assumes "embedded s gh md" "y \<in> priv (m_isTerminal s) gh"
  shows "y \<in> set (nodes (m_graph s))"
    and "\<exists>x. m_nodeOrig s y = Some x \<and> \<not> m_isTerminal s x"
proof -
  obtain c nc e0 where gh: "gh = (c, nc, e0)" by (cases gh)
  from assms(2) obtain x where x: "x \<in> set (c_nodes c)" "\<not> m_isTerminal s x" "nc x = Some y"
    by (auto simp: priv_def gh)
  from embeddedD(3) [OF assms(1) [unfolded gh] x(1)] x
  show "y \<in> set (nodes (m_graph s))" "\<exists>x. m_nodeOrig s y = Some x \<and> \<not> m_isTerminal s x"
    by auto
qed

lemma own_edges_bound:
  assumes "embedded s gh md" "e \<in> own_edges gh"
  shows "e < edgeIdCount (m_graph s)"
proof -
  obtain c nc e0 where gh: "gh = (c, nc, e0)" by (cases gh)
  from embeddedD(5) [OF assms(1) [unfolded gh]] assms(2) show ?thesis
    by (auto simp: own_edges_def gh)
qed

lemma insert_store_inv:
  fixes s :: "('w::monoid_add, 'x::default) FullComponentStore"
  assumes inv: "store_inv s G" and ins: "insert_fc s c = Inr (r, s')"
  shows "store_inv s' (G @ [(c, m_nodeCopy (fst (insert_nodes s [] [] (c_nodes c))), edgeIdCount (m_graph s))])"
proof -
  from ins obtain s1 tmp ts s2 d where ne: "c_nodes c \<noteq> []" and tree: "isTree c"
    and nodes: "insert_nodes s [] [] (c_nodes c) = (s1, tmp, ts)"
    and edges: "insert_edges s1 (Metadata0\<lparr> md_terminals := sort ts \<rparr>) (c_edges c) = Inr (s2, d)"
    and s': "s' = s2\<lparr> m_nodeCopy := fold (\<lambda>vO m. m(vO := None)) tmp (m_nodeCopy s2),
              m_components := m_components s2 @ [d] \<rparr>"
    by (rule insert_fc_Inr)
  let ?g = "m_graph s" and ?nc = "m_nodeCopy s1" and ?es = "c_edges c"
  let ?n0 = "nodeIdCount ?g" and ?e0 = "edgeIdCount ?g"
  let ?gh = "(c, ?nc, ?e0)"
  have ghn: "(c, m_nodeCopy (fst (insert_nodes s [] [] (c_nodes c))), edgeIdCount (m_graph s)) = ?gh"
    by (simp add: nodes)
  note N1 = insert_nodes_fields [OF nodes]
  note N2 = insert_nodes_lists [OF nodes isTree_nodes(1) [OF tree]]
  note N4 = insert_nodes_graph [OF nodes]
  note N5 = insert_nodes_copy [OF nodes]
  note E1 = insert_edges_fields [OF edges]
  note E2 = insert_edges_ends [OF edges]
  from inv have B: "base_inv s" and len: "length G = length (m_components s)"
    and emb: "\<And>i. i < length G \<Longrightarrow> embedded s (G ! i) (m_components s ! i)"
    and sep: "\<And>i j. i < length G \<Longrightarrow> j < length G \<Longrightarrow> i \<noteq> j \<Longrightarrow>
            priv (m_isTerminal s) (G ! i) \<inter> priv (m_isTerminal s) (G ! j) = {}
            \<and> own_edges (G ! i) \<inter> own_edges (G ! j) = {}"
    by (auto simp: store_inv_def)
  from B have wf: "wf_graph ?g"
    and B2: "\<And>x. m_nodeCopy s x \<noteq> None \<longleftrightarrow> m_isTerminal s x"
    and B3: "\<And>x y. m_nodeCopy s x = Some y \<Longrightarrow> y \<in> set (nodes ?g) \<and> m_nodeOrig s y = Some x"
    by (auto simp: base_inv_def)
  have isT: "m_isTerminal s' = m_isTerminal s" and isT1: "m_isTerminal s1 = m_isTerminal s"
    and g': "m_graph s' = m_graph s2"
    and comps: "m_components s' = m_components s @ [d]"
    and trm: "m_terminals s' = m_terminals s"
    using N1 E1 by (simp_all add: s')
  have lt: "\<And>y. y \<in> set (nodes ?g) \<Longrightarrow> y < ?n0" using wf by (auto simp: wf_graph_def)
  have no': "\<And>y. y < ?n0 \<Longrightarrow> m_nodeOrig s' y = m_nodeOrig s y"
    using N4 E1 by (simp add: s')
  have nc': "m_nodeCopy s' = m_nodeCopy s"
  proof (rule ext)
    fix x
    show "m_nodeCopy s' x = m_nodeCopy s x"
    proof (cases "m_nodeCopy s x")
      case None
      then show ?thesis using N2 N5 E1 by (auto simp: s' fold_clear)
    next
      case (Some y)
      then show ?thesis using N2 N5 E1 by (auto simp: s' fold_clear)
    qed
  qed
  have live: "\<And>y. y \<in> set (nodes ?g) \<Longrightarrow> y \<in> set (nodes (m_graph s'))"
    using N4 E1 by (simp add: g')
  have wf': "wf_graph (m_graph s')"
    unfolding g' using insert_edges_wf [OF edges] insert_nodes_wf [OF nodes] wf by blast
  have ecount: "edgeIdCount (m_graph s') = ?e0 + length ?es"
    using N1 E1 by (simp add: g')
  have ends_old: "\<And>e. e < ?e0 \<Longrightarrow> ends (m_graph s') e = ends ?g e \<and> weight (m_graph s') e = weight ?g e"
    using E2 N1 by (simp add: g')
  have adj': "\<And>y. adjEntries (m_graph s') y = adjEntries (m_graph s1) y @ incident ?nc y ?e0 ?es"
    using insert_edges_adj [OF edges] N1 by (simp add: g')
  have endp: "\<And>ed. ed \<in> set ?es \<Longrightarrow> \<exists>u v. ?nc (fst ed) = Some u \<and> ?nc (fst (snd ed)) = Some v"
  proof -
    fix ed assume "ed \<in> set ?es"
    then obtain k where "k < length ?es" "ed = ?es ! k" by (auto simp: in_set_conv_nth)
    with E2 show "\<exists>u v. ?nc (fst ed) = Some u \<and> ?nc (fst (snd ed)) = Some v" by blast
  qed
  have adj_old: "adjEntries (m_graph s') y = adjEntries ?g y"
    if y: "y \<in> set (nodes ?g)" "m_nodeOrig s y = Some x" "\<not> m_isTerminal s x" for x y
  proof -
    have "\<And>u. ?nc u \<noteq> Some y"
    proof
      fix u assume u: "?nc u = Some y"
      from insert_nodes_copy_cases [OF nodes u] show False
      proof
        assume "m_nodeCopy s u = Some y"
        with B3 B2 [of u] y show False by auto
      next
        assume "m_nodeCopy s u = None \<and> u \<in> set (c_nodes c) \<and> ?n0 \<le> y"
        with lt [OF y(1)] show False by simp
      qed
    qed
    then have "incident ?nc y ?e0 ?es = []" by (intro incident_empty) simp
    with adj' [of y] N4 lt [OF y(1)] show ?thesis by simp
  qed
  have base': "base_inv s'"
    unfolding base_inv_def isT trm nc'
    using wf' B live no' lt by (auto simp: base_inv_def)
  have emb_old: "embedded s' (G ! i) (m_components s' ! i)" if i: "i < length G" for i
  proof -
    obtain ci nci ei where gi: "G ! i = (ci, nci, ei)" by (cases "G ! i")
    note D = embeddedD [OF emb [OF i, unfolded gi]]
    have mi: "m_components s' ! i = m_components s ! i"
      using i len by (simp add: comps nth_append)
    show ?thesis unfolding gi mi
    proof (rule embeddedI)
      fix x assume "x \<in> set (c_nodes ci)"
      from D(3) [OF this] obtain y where y: "nci x = Some y" "y \<in> set (nodes ?g)"
        "m_nodeOrig s y = Some x"
        "if m_isTerminal s x then m_nodeCopy s x = Some y
         else adjEntries ?g y = incident nci y ei (c_edges ci)" by blast
      show "\<exists>y. nci x = Some y \<and> y \<in> set (nodes (m_graph s')) \<and> m_nodeOrig s' y = Some x
          \<and> (if m_isTerminal s' x then m_nodeCopy s' x = Some y
              else adjEntries (m_graph s') y = incident nci y ei (c_edges ci))"
        using y live [OF y(2)] no' [OF lt [OF y(2)]] adj_old [OF y(2) y(3)]
        by (auto simp: isT nc')
    next
      fix k assume k: "k < length (c_edges ci)"
      with D(5) have "ei + k < ?e0" by simp
      from ends_old [OF this] D(4) [OF k]
      show "\<exists>u v. nci (fst (c_edges ci ! k)) = Some u \<and> nci (fst (snd (c_edges ci ! k))) = Some v
          \<and> ends (m_graph s') (ei + k) = Some (u, v)
          \<and> weight (m_graph s') (ei + k) = snd (snd (c_edges ci ! k))" by simp
    qed (use D in \<open>simp_all add: isT ecount\<close>)
  qed
  have emb_new: "embedded s' ?gh d"
  proof (rule embeddedI)
    show "c_nodes c \<noteq> []" "isTree c" by fact+
  next
    fix x assume x: "x \<in> set (c_nodes c)"
    show "\<exists>y. ?nc x = Some y \<and> y \<in> set (nodes (m_graph s')) \<and> m_nodeOrig s' y = Some x
          \<and> (if m_isTerminal s' x then m_nodeCopy s' x = Some y
              else adjEntries (m_graph s') y = incident ?nc y ?e0 ?es)"
    proof (cases "m_nodeCopy s x")
      case None
      with N5 x obtain y where y: "?nc x = Some y" "?n0 \<le> y" "y < nodeIdCount (m_graph s1)"
        "m_nodeOrig s1 y = Some x" by blast
      have "y \<in> set (nodes (m_graph s'))" using N4 y E1 by (simp add: g')
      moreover have "m_nodeOrig s' y = Some x" using y E1 by (simp add: s')
      moreover have "\<not> m_isTerminal s' x" using None B2 [of x] by (simp add: isT)
      moreover have "adjEntries (m_graph s') y = incident ?nc y ?e0 ?es"
        using adj' [of y] N4 y by simp
      ultimately show ?thesis using y by auto
    next
      case (Some y)
      with N5 have "?nc x = Some y" by blast
      moreover have "y \<in> set (nodes (m_graph s'))" "m_nodeOrig s' y = Some x"
        using B3 [OF Some] live no' lt by auto
      moreover have "m_isTerminal s' x" using Some B2 [of x] by (simp add: isT)
      ultimately show ?thesis using Some by (auto simp: nc')
    qed
  next
    fix k assume "k < length ?es"
    with E2 obtain uC vC where "?nc (fst (?es ! k)) = Some uC" "?nc (fst (snd (?es ! k))) = Some vC"
      "ends (m_graph s2) (edgeIdCount (m_graph s1) + k) = Some (uC, vC)"
      "weight (m_graph s2) (edgeIdCount (m_graph s1) + k) = snd (snd (?es ! k))" by blast
    then show "\<exists>u v. ?nc (fst (?es ! k)) = Some u \<and> ?nc (fst (snd (?es ! k))) = Some v
          \<and> ends (m_graph s') (?e0 + k) = Some (u, v)
          \<and> weight (m_graph s') (?e0 + k) = snd (snd (?es ! k))"
      using N1 by (simp add: g')
  next
    show "?e0 + length ?es \<le> edgeIdCount (m_graph s')" by (simp add: ecount)
    show "md_start d = find_start (m_isTerminal s') ?e0 ?es"
      using insert_edges_start [OF edges] N1
      by (simp add: isT Metadata0_def split: option.splits)
    show "md_cost d = sum_list (map (\<lambda>e. snd (snd e)) ?es)"
      using insert_edges_cost [OF edges] by (simp add: Metadata0_def)
    have "filter (\<lambda>v. m_nodeCopy s v \<noteq> None) (c_nodes c) = filter (m_isTerminal s) (c_nodes c)"
      using B2 by (intro filter_cong) auto
    then show "md_terminals d = sort (filter (m_isTerminal s') (c_nodes c))"
      using E1 N2 by (simp add: isT)
  qed
  have priv_new: "?n0 \<le> y" if "y \<in> priv (m_isTerminal s) ?gh" for y
  proof -
    from that obtain x where x: "x \<in> set (c_nodes c)" "\<not> m_isTerminal s x" "?nc x = Some y"
      by (auto simp: priv_def)
    then have "m_nodeCopy s x = None" using B2 [of x] by auto
    with N5 x show ?thesis by fastforce
  qed
  have priv_old: "y < ?n0" if "i < length G" "y \<in> priv (m_isTerminal s) (G ! i)" for i y
    using priv_live(1) [OF emb [OF that(1)] that(2)] lt by auto
  have own_old: "e < ?e0" if "i < length G" "e \<in> own_edges (G ! i)" for i e
    using own_edges_bound [OF emb [OF that(1)] that(2)] by auto
  have own_new: "own_edges ?gh = {?e0 ..< ?e0 + length ?es}" by (simp add: own_edges_def)
  show ?thesis
    unfolding store_inv_def ghn
  proof (intro conjI allI impI)
    show "base_inv s'" by fact
    show "length (G @ [?gh]) = length (m_components s')" by (simp add: comps len)
  next
    fix i assume "i < length (G @ [?gh])"
    then consider "i < length G" | "i = length G" by force
    then show "embedded s' ((G @ [?gh]) ! i) (m_components s' ! i)"
    proof cases
      case 1
      then show ?thesis using emb_old [OF 1] by (simp add: nth_append)
    next
      case 2
      then show ?thesis using emb_new by (simp add: nth_append comps len)
    qed
  next
    fix i j assume ij: "i < length (G @ [?gh])" "j < length (G @ [?gh])" "i \<noteq> j"
    have "False" if "y \<in> priv (m_isTerminal s) ((G @ [?gh]) ! i)"
      "y \<in> priv (m_isTerminal s) ((G @ [?gh]) ! j)" for y
    proof (cases "i < length G"; cases "j < length G")
      assume "i < length G" "j < length G"
      with that sep [of i j] ij show False by (auto simp: nth_append)
    next
      assume "i < length G" "\<not> j < length G"
      with that ij priv_old [of i y] priv_new [of y] show False by (auto simp: nth_append)
    next
      assume "\<not> i < length G" "j < length G"
      with that ij priv_old [of j y] priv_new [of y] show False by (auto simp: nth_append)
    next
      assume "\<not> i < length G" "\<not> j < length G"
      with ij show False by simp
    qed
    then show "priv (m_isTerminal s') ((G @ [?gh]) ! i) \<inter> priv (m_isTerminal s') ((G @ [?gh]) ! j) = {}"
      unfolding isT by blast
    have "False" if "e \<in> own_edges ((G @ [?gh]) ! i)" "e \<in> own_edges ((G @ [?gh]) ! j)" for e
    proof (cases "i < length G"; cases "j < length G")
      assume "i < length G" "j < length G"
      with that sep [of i j] ij show False by (auto simp: nth_append)
    next
      assume "i < length G" "\<not> j < length G"
      with that ij own_old [of i e] own_new show False by (auto simp: nth_append)
    next
      assume "\<not> i < length G" "j < length G"
      with that ij own_old [of j e] own_new show False by (auto simp: nth_append)
    next
      assume "\<not> i < length G" "\<not> j < length G"
      with ij show False by simp
    qed
    then show "own_edges ((G @ [?gh]) ! i) \<inter> own_edges ((G @ [?gh]) ! j) = {}" by blast
  qed
qed

section \<open>Removal and the invariant of reachable stores\<close>

lemma wf_graph_delEdge: "wf_graph g \<Longrightarrow> wf_graph (delEdge g e)"
  using delEdge_rg [of g "{}" "{}" e] wf_graph_rg [of g "{e}" "{}"] by (simp add: rg_empty)

lemma wf_graph_delNode:
  assumes "wf_graph g"
  shows "wf_graph (delNode g v)"
proof -
  have "delNode g v = rg g (theEdge ` set (adjEntries g v)) {v}"
    using delNode_rg [OF assms, of "{}" "{}" v] by (simp add: rg_empty)
  moreover have "wf_graph (rg g (theEdge ` set (adjEntries g v)) {v})"
  proof (rule wf_graph_rg [OF assms])
    fix e u w assume e: "ends g e = Some (u, w)" "e \<notin> theEdge ` set (adjEntries g v)"
    from assms e(1) have "AdjSource e \<in> set (adjEntries g u)" "AdjTarget e \<in> set (adjEntries g w)"
      by (auto simp: wf_graph_def)
    with e(2) show "u \<notin> {v} \<and> w \<notin> {v}" by force
  qed
  ultimately show ?thesis by simp
qed

lemma push_all_rev: "push_all cap st xs = Inr st' \<Longrightarrow> st' = rev xs @ st"
  by (induction xs arbitrary: st) (auto split: if_splits)

lemma push_all_bound:
  "push_all cap st xs = Inr st' \<Longrightarrow> xs \<noteq> [] \<Longrightarrow> int (length st + length xs) \<le> cap"
proof (induction xs arbitrary: st)
  case Nil
  then show ?case by simp
next
  case (Cons x xs)
  from Cons.prems(1) have c: "\<not> cap \<le> int (length st)" and r: "push_all cap (x # st) xs = Inr st'"
    by (auto split: if_splits)
  show ?case
  proof (cases "xs = []")
    case True
    with c show ?thesis by simp
  next
    case False
    from Cons.IH [OF r False] show ?thesis by simp
  qed
qed

lemma push_all_Inr:
  "push_all cap st xs = Inr st' \<Longrightarrow> st' = rev xs @ st \<and> (xs \<noteq> [] \<longrightarrow> int (length st') \<le> cap)"
  using push_all_rev [of cap st xs st'] push_all_bound [of cap st xs st'] by auto

lemma push_all_ok:
  "int (length st + length xs) \<le> cap \<Longrightarrow> push_all cap st xs = Inr (rev xs @ st)"
  by (induction xs arbitrary: st) auto

lemma twinNodes_Some:
  "twinNodes g as = Some ns \<Longrightarrow> ns = map (\<lambda>a. the (twinNode g a)) as \<and> (\<forall>a \<in> set as. twinNode g a \<noteq> None)"
  by (induction as arbitrary: ns) (auto split: option.splits)

lemma twinNodes_total:
  "\<forall>a \<in> set as. twinNode g a \<noteq> None \<Longrightarrow> twinNodes g as = Some (map (\<lambda>a. the (twinNode g a)) as)"
  by (induction as) auto

lemma twinNode_ends:
  "twinNode g a = Some n \<Longrightarrow> \<exists>u v. ends g (theEdge a) = Some (u, v) \<and> (n = u \<or> n = v)"
  by (cases a) (auto simp: twinNode_def theNode_def split: option.splits)

lemma isTerminal_node_graph [simp]:
  "isTerminal_node (s\<lparr> m_graph := h \<rparr>) v = isTerminal_node s v"
  by (cases "m_nodeOrig s v") (simp_all add: isTerminal_node_def)

lemma remove_loop_frame:
  assumes wf: "wf_graph g"
    and A1: "\<And>y. y \<in> P \<Longrightarrow> theEdge ` set (adjEntries g y) \<subseteq> E"
    and A2: "\<And>e u v. e \<in> E \<Longrightarrow> ends g e = Some (u, v) \<Longrightarrow>
               (u \<in> P \<or> isTerminal_node s0 u = Inr True) \<and> (v \<in> P \<or> isTerminal_node s0 v = Inr True)"
  shows "remove_loop s cap stack = Inr s' \<Longrightarrow> s = s0\<lparr> m_graph := rg g X N \<rparr> \<Longrightarrow> X \<subseteq> E \<Longrightarrow> N \<subseteq> P
    \<Longrightarrow> (\<forall>v \<in> set stack. v \<in> P \<or> isTerminal_node s0 v = Inr True)
    \<Longrightarrow> \<exists>X' N'. X' \<subseteq> E \<and> N' \<subseteq> P \<and> s' = s0\<lparr> m_graph := rg g X' N' \<rparr>"
proof (induction s cap stack arbitrary: X N rule: remove_loop.induct)
  case (1 s cap)
  then show ?case by auto
next
  case (2 s cap v stack)
  from "2.prems"(1) have live: "v \<in> set (nodes (m_graph s))" by (auto split: if_splits)
  from "2.prems"(1) live obtain t where t: "isTerminal_node s v = Inr t"
    by (auto split: sum.splits)
  have t0: "isTerminal_node s0 v = Inr t" using t "2.prems"(2) by simp
  show ?case
  proof (cases t)
    case True
    with "2.prems"(1) live t have "remove_loop s cap stack = Inr s'" by simp
    from "2.IH"(1) [OF _ t True this "2.prems"(2,3,4)] live "2.prems"(5) show ?thesis by auto
  next
    case False
    with t0 "2.prems"(5) have vP: "v \<in> P" by auto
    from "2.prems"(1) live t False obtain ns stack' where
      ns: "twinNodes (m_graph s) (adjEntries (m_graph s) v) = Some ns"
      and st: "push_all cap stack ns = Inr stack'"
      and rec: "remove_loop (s\<lparr> m_graph := delNode (m_graph s) v \<rparr>) cap stack' = Inr s'"
      by (auto split: option.splits sum.splits)
    have g1: "s\<lparr> m_graph := delNode (m_graph s) v \<rparr>
        = s0\<lparr> m_graph := rg g (X \<union> theEdge ` set (adjEntries g v)) (insert v N) \<rparr>"
      using "2.prems"(2) by (simp add: delNode_rg [OF wf])
    have X': "X \<union> theEdge ` set (adjEntries g v) \<subseteq> E" using "2.prems"(3) A1 [OF vP] by auto
    have N': "insert v N \<subseteq> P" using "2.prems"(4) vP by auto
    have "\<forall>n \<in> set ns. n \<in> P \<or> isTerminal_node s0 n = Inr True"
    proof
      fix n assume "n \<in> set ns"
      with twinNodes_Some [OF ns] obtain a where a: "a \<in> set (adjEntries (m_graph s) v)"
        "twinNode (m_graph s) a = Some n" by force
      from a(1) have ag: "a \<in> set (adjEntries g v)" "theEdge a \<notin> X"
        using "2.prems"(2) by (auto simp: rg_simps)
      from twinNode_ends [OF a(2)] obtain u w where
        "ends (m_graph s) (theEdge a) = Some (u, w)" "n = u \<or> n = w" by blast
      then have "ends g (theEdge a) = Some (u, w)" using "2.prems"(2) ag by (simp add: rg_simps)
      moreover have "theEdge a \<in> E" using A1 [OF vP] ag by auto
      ultimately show "n \<in> P \<or> isTerminal_node s0 n = Inr True"
        using A2 \<open>n = u \<or> n = w\<close> by blast
    qed
    then have stk: "\<forall>n \<in> set stack'. n \<in> P \<or> isTerminal_node s0 n = Inr True"
      using push_all_Inr [OF st] "2.prems"(5) by auto
    from "2.IH"(2) [OF _ t False ns st rec g1 X' N' stk] live show ?thesis by auto
  qed
qed


lemma remove_loop_wf:
  "remove_loop s cap stack = Inr s' \<Longrightarrow> wf_graph (m_graph s) \<Longrightarrow> wf_graph (m_graph s')"
proof (induction s cap stack rule: remove_loop.induct)
  case (1 s cap)
  then show ?case by simp
next
  case (2 s cap v stack)
  from "2.prems"(1) have live: "v \<in> set (nodes (m_graph s))" by (auto split: if_splits)
  from "2.prems"(1) live obtain t where t: "isTerminal_node s v = Inr t"
    by (auto split: sum.splits)
  show ?case
  proof (cases t)
    case True
    with "2.prems"(1) live t have "remove_loop s cap stack = Inr s'" by simp
    from "2.IH"(1) [OF _ t True this "2.prems"(2)] live show ?thesis by auto
  next
    case False
    from "2.prems"(1) live t False obtain ns stack' where
      ns: "twinNodes (m_graph s) (adjEntries (m_graph s) v) = Some ns"
      and st: "push_all cap stack ns = Inr stack'"
      and rec: "remove_loop (s\<lparr> m_graph := delNode (m_graph s) v \<rparr>) cap stack' = Inr s'"
      by (auto split: option.splits sum.splits)
    from "2.IH"(2) [OF _ t False ns st rec] live wf_graph_delNode [OF "2.prems"(2)]
    show ?thesis by auto
  qed
qed

lemma remove_in_graph_wf:
  assumes rem: "remove_in_graph s md = Inr s'" and wf: "wf_graph (m_graph s)"
  shows "wf_graph (m_graph s')"
proof -
  from rem obtain a where a: "md_start md = Some a" and lv: "ends (m_graph s) (theEdge a) \<noteq> None"
    by (auto simp: remove_in_graph_def split: option.splits if_splits)
  note w1 = wf_graph_delEdge [OF wf, of "theEdge a"]
  show ?thesis
  proof (cases "int (length (md_terminals md)) = 2")
    case True
    with rem a lv have "s' = s\<lparr> m_graph := delEdge (m_graph s) (theEdge a) \<rparr>"
      by (auto simp: remove_in_graph_def)
    with w1 show ?thesis by simp
  next
    case False
    with rem a lv obtain stack where
      loop: "remove_loop (s\<lparr> m_graph := delEdge (m_graph s) (theEdge a) \<rparr>)
                   (2 * int (length (md_terminals md)) - 3) stack = Inr s'"
      by (auto simp: remove_in_graph_def split: option.splits sum.splits)
    from remove_loop_wf [OF loop] w1 show ?thesis by simp
  qed
qed

lemma embedded_A1:
  assumes "embedded s gh md" "y \<in> priv (m_isTerminal s) gh"
  shows "theEdge ` set (adjEntries (m_graph s) y) \<subseteq> own_edges gh"
proof -
  obtain c nc e0 where gh: "gh = (c, nc, e0)" by (cases gh)
  from assms(2) obtain x where x: "x \<in> set (c_nodes c)" "\<not> m_isTerminal s x" "nc x = Some y"
    by (auto simp: priv_def gh)
  from embeddedD(3) [OF assms(1) [unfolded gh] x(1)] x
  have "adjEntries (m_graph s) y = incident nc y e0 (c_edges c)" by auto
  then show ?thesis using incident_edges [of nc y e0 "c_edges c"] by (simp add: own_edges_def gh)
qed

lemma embedded_node_kind:
  assumes "embedded s (c, nc, e0) md" "x \<in> set (c_nodes c)" "nc x = Some y"
  shows "y \<in> priv (m_isTerminal s) (c, nc, e0) \<or> isTerminal_node s y = Inr True"
proof -
  from embeddedD(3) [OF assms(1,2)] assms(3) have o: "m_nodeOrig s y = Some x" by auto
  show ?thesis
  proof (cases "m_isTerminal s x")
    case True
    with o show ?thesis by (simp add: isTerminal_node_def)
  next
    case False
    with assms(2,3) show ?thesis by (auto simp: priv_def)
  qed
qed

lemma embedded_A2:
  assumes "embedded s gh md" "e \<in> own_edges gh" "ends (m_graph s) e = Some (u, v)"
  shows "(u \<in> priv (m_isTerminal s) gh \<or> isTerminal_node s u = Inr True)
       \<and> (v \<in> priv (m_isTerminal s) gh \<or> isTerminal_node s v = Inr True)"
proof -
  obtain c nc e0 where gh: "gh = (c, nc, e0)" by (cases gh)
  note emb = assms(1) [unfolded gh]
  from assms(2) obtain k where k: "k < length (c_edges c)" "e = e0 + k"
    by (auto simp: own_edges_def gh intro: that [of "e - e0"])
  from embeddedD(4) [OF emb k(1)] assms(3) k(2)
  have uv: "nc (fst (c_edges c ! k)) = Some u" "nc (fst (snd (c_edges c ! k))) = Some v" by auto
  from isTree_nodes(2) [OF embeddedD(2) [OF emb], of "c_edges c ! k"] k(1)
  have "fst (c_edges c ! k) \<in> set (c_nodes c)" "fst (snd (c_edges c ! k)) \<in> set (c_nodes c)" by auto
  from embedded_node_kind [OF emb this(1) uv(1)] embedded_node_kind [OF emb this(2) uv(2)]
  show ?thesis by (simp add: gh)
qed

lemma remove_in_graph_frame:
  assumes wf: "wf_graph (m_graph s)" and emb: "embedded s gh md"
    and rem: "remove_in_graph s md = Inr s1"
  shows "\<exists>X N. X \<subseteq> own_edges gh \<and> N \<subseteq> priv (m_isTerminal s) gh
           \<and> s1 = s\<lparr> m_graph := rg (m_graph s) X N \<rparr>"
proof -
  obtain c nc e0 where gh: "gh = (c, nc, e0)" by (cases gh)
  from rem obtain a where a: "md_start md = Some a" and lv: "ends (m_graph s) (theEdge a) \<noteq> None"
    by (auto simp: remove_in_graph_def split: option.splits if_splits)
  from embeddedD(6) [OF emb [unfolded gh]] a have aE: "theEdge a \<in> own_edges gh"
    using find_start_range [of "m_isTerminal s" e0 "c_edges c" a] by (simp add: own_edges_def gh)
  have d1: "delEdge (m_graph s) (theEdge a) = rg (m_graph s) {theEdge a} {}"
    using delEdge_rg [OF wf, of "{}" "{}" "theEdge a"] by (simp add: rg_empty)
  show ?thesis
  proof (cases "int (length (md_terminals md)) = 2")
    case True
    with rem a lv have "s1 = s\<lparr> m_graph := delEdge (m_graph s) (theEdge a) \<rparr>"
      by (auto simp: remove_in_graph_def)
    with aE d1 show ?thesis by (intro exI [of _ "{theEdge a}"] exI [of _ "{}"]) simp
  next
    case False
    with rem a lv obtain v stack where v: "twinNode (m_graph s) a = Some v"
      and st: "push_all (2 * int (length (md_terminals md)) - 3) [] [v] = Inr stack"
      and loop: "remove_loop (s\<lparr> m_graph := delEdge (m_graph s) (theEdge a) \<rparr>)
                   (2 * int (length (md_terminals md)) - 3) stack = Inr s1"
      by (auto simp: remove_in_graph_def split: option.splits sum.splits)
    from twinNode_ends [OF v] obtain u w where uw: "ends (m_graph s) (theEdge a) = Some (u, w)"
      "v = u \<or> v = w" by blast
    from embedded_A2 [OF emb aE uw(1)] uw(2)
    have vk: "v \<in> priv (m_isTerminal s) gh \<or> isTerminal_node s v = Inr True" by auto
    have stack: "stack = [v]" using push_all_rev [OF st] by simp
    show ?thesis
    proof (rule remove_loop_frame [OF wf _ _ loop, of "priv (m_isTerminal s) gh" "own_edges gh" s "{theEdge a}" "{}"])
      show "theEdge ` set (adjEntries (m_graph s) y) \<subseteq> own_edges gh"
        if "y \<in> priv (m_isTerminal s) gh" for y
        using embedded_A1 [OF emb that] .
      show "(u \<in> priv (m_isTerminal s) gh \<or> isTerminal_node s u = Inr True)
          \<and> (v \<in> priv (m_isTerminal s) gh \<or> isTerminal_node s v = Inr True)"
        if "e \<in> own_edges gh" "ends (m_graph s) e = Some (u, v)" for e u v
        using embedded_A2 [OF emb that] .
      show "s\<lparr> m_graph := delEdge (m_graph s) (theEdge a) \<rparr> = s\<lparr> m_graph := rg (m_graph s) {theEdge a} {} \<rparr>"
        by (simp add: d1)
      show "{theEdge a} \<subseteq> own_edges gh" using aE by simp
      show "{} \<subseteq> priv (m_isTerminal s) gh" by simp
      show "\<forall>v \<in> set stack. v \<in> priv (m_isTerminal s) gh \<or> isTerminal_node s v = Inr True"
        using vk stack by simp
    qed
  qed
qed

lemma swap_remove_length: "length (swap_remove i xs) = length xs - 1"
  by (simp add: swap_remove_def)

lemma swap_remove_nth:
  assumes "i < length xs" "k < length xs - 1"
  shows "swap_remove i xs ! k = xs ! (if k = i then length xs - 1 else k)"
proof -
  from assms have "xs \<noteq> []" by auto
  with assms show ?thesis
    by (auto simp: swap_remove_def nth_butlast last_conv_nth nth_list_update)
qed

lemma swap_remove_map: "map f (swap_remove i xs) = swap_remove i (map f xs)"
  by (cases "xs = []") (auto simp: swap_remove_def map_butlast map_update last_map)


lemma frame_embedded:
  assumes emb: "embedded s gh md" and X: "X \<inter> own_edges gh = {}"
    and N: "N \<inter> priv (m_isTerminal s) gh = {}"
    and NT: "\<And>y. y \<in> N \<Longrightarrow> \<exists>x. m_nodeOrig s y = Some x \<and> \<not> m_isTerminal s x"
  shows "embedded (s\<lparr> m_graph := rg (m_graph s) X N \<rparr>) gh md"
proof -
  obtain c nc e0 where gh: "gh = (c, nc, e0)" by (cases gh)
  note D = embeddedD [OF emb [unfolded gh]]
  show ?thesis unfolding gh
  proof (rule embeddedI)
    fix x assume x: "x \<in> set (c_nodes c)"
    from D(3) [OF x] obtain y where y: "nc x = Some y" "y \<in> set (nodes (m_graph s))"
      "m_nodeOrig s y = Some x"
      "if m_isTerminal s x then m_nodeCopy s x = Some y
       else adjEntries (m_graph s) y = incident nc y e0 (c_edges c)" by blast
    have yN: "y \<notin> N"
    proof
      assume "y \<in> N"
      from NT [OF this] y(3) have "\<not> m_isTerminal s x" by simp
      with x y(1) have "y \<in> priv (m_isTerminal s) gh" by (auto simp: priv_def gh)
      with N \<open>y \<in> N\<close> show False by auto
    qed
    have adj: "filter (\<lambda>a. theEdge a \<notin> X) (incident nc y e0 (c_edges c)) = incident nc y e0 (c_edges c)"
      using incident_edges [of nc y e0 "c_edges c"] X
      by (intro filter_True) (auto simp: own_edges_def gh)
    show "\<exists>y. nc x = Some y \<and> y \<in> set (nodes (m_graph (s\<lparr> m_graph := rg (m_graph s) X N \<rparr>)))
        \<and> m_nodeOrig (s\<lparr> m_graph := rg (m_graph s) X N \<rparr>) y = Some x
        \<and> (if m_isTerminal (s\<lparr> m_graph := rg (m_graph s) X N \<rparr>) x
            then m_nodeCopy (s\<lparr> m_graph := rg (m_graph s) X N \<rparr>) x = Some y
            else adjEntries (m_graph (s\<lparr> m_graph := rg (m_graph s) X N \<rparr>)) y = incident nc y e0 (c_edges c))"
      using y yN adj by (auto simp: rg_simps)
  next
    fix k assume k: "k < length (c_edges c)"
    then have "e0 + k \<notin> X" using X by (auto simp: own_edges_def gh)
    with D(4) [OF k]
    show "\<exists>u v. nc (fst (c_edges c ! k)) = Some u \<and> nc (fst (snd (c_edges c ! k))) = Some v
        \<and> ends (m_graph (s\<lparr> m_graph := rg (m_graph s) X N \<rparr>)) (e0 + k) = Some (u, v)
        \<and> weight (m_graph (s\<lparr> m_graph := rg (m_graph s) X N \<rparr>)) (e0 + k) = snd (snd (c_edges c ! k))"
      by (simp add: rg_simps)
  qed (use D in \<open>simp_all add: rg_simps\<close>)
qed

lemma embedded_components [simp]:
  "embedded (s\<lparr> m_components := cs \<rparr>) gh md = embedded s gh md"
  by (simp add: embedded_def)

lemma base_inv_components [simp]:
  "base_inv (s\<lparr> m_components := cs \<rparr>) = base_inv s"
  by (simp add: base_inv_def)

lemma remove_fc_Inr:
  assumes "remove_fc s i = Inr s'"
  obtains s1 where "0 \<le> i" "nat i < length (m_components s)"
    "remove_in_graph s (m_components s ! nat i) = Inr s1"
    "s' = s1\<lparr> m_components := swap_remove (nat i) (m_components s) \<rparr>"
proof -
  from assms obtain md s1 where md: "component_at s i = Inr md" and s1: "remove_in_graph s md = Inr s1"
    and s': "s' = s1\<lparr> m_components :=
                      (if int (length (m_components s1)) = i + 1 then butlast (m_components s1)
                       else (butlast (m_components s1))[nat i := last (m_components s1)]) \<rparr>"
    by (auto simp: remove_fc_def split: sum.splits)
  from md have i: "0 \<le> i" "i < int (length (m_components s))" "md = m_components s ! nat i"
    by (auto simp: component_at_def split: if_splits)
  have c: "m_components s1 = m_components s" using s1 by (rule remove_in_graph_components)
  have "(int (length (m_components s)) = i + 1) = (length (m_components s) = Suc (nat i))"
    using i by auto
  then have "s' = s1\<lparr> m_components := swap_remove (nat i) (m_components s) \<rparr>"
    by (simp add: s' c swap_remove_def)
  with i s1 that show ?thesis by auto
qed

lemma remove_store_inv:
  fixes s :: "('w::monoid_add, 'x) FullComponentStore"
  assumes inv: "store_inv s G" and rem: "remove_fc s i = Inr s'"
  shows "store_inv s' (swap_remove (nat i) G)"
proof -
  from rem obtain s1 where i: "0 \<le> i" "nat i < length (m_components s)"
    and rg1: "remove_in_graph s (m_components s ! nat i) = Inr s1"
    and s': "s' = s1\<lparr> m_components := swap_remove (nat i) (m_components s) \<rparr>"
    by (rule remove_fc_Inr)
  let ?j = "nat i" and ?g = "m_graph s" and ?n = "length G"
  from inv have B: "base_inv s" and len: "length G = length (m_components s)"
    and emb: "\<And>i. i < length G \<Longrightarrow> embedded s (G ! i) (m_components s ! i)"
    and sep: "\<And>i j. i < length G \<Longrightarrow> j < length G \<Longrightarrow> i \<noteq> j \<Longrightarrow>
            priv (m_isTerminal s) (G ! i) \<inter> priv (m_isTerminal s) (G ! j) = {}
            \<and> own_edges (G ! i) \<inter> own_edges (G ! j) = {}"
    by (auto simp: store_inv_def)
  from B have wf: "wf_graph ?g"
    and B2: "\<And>x. m_nodeCopy s x \<noteq> None \<longleftrightarrow> m_isTerminal s x"
    and B3: "\<And>x y. m_nodeCopy s x = Some y \<Longrightarrow> y \<in> set (nodes ?g) \<and> m_nodeOrig s y = Some x"
    by (auto simp: base_inv_def)
  have j: "?j < length G" using i len by simp
  from remove_in_graph_frame [OF wf emb [OF j] rg1] obtain X N where
    X: "X \<subseteq> own_edges (G ! ?j)" and N: "N \<subseteq> priv (m_isTerminal s) (G ! ?j)"
    and s1: "s1 = s\<lparr> m_graph := rg ?g X N \<rparr>" by blast
  have NT: "\<exists>x. m_nodeOrig s y = Some x \<and> \<not> m_isTerminal s x" if "y \<in> N" for y
    using priv_live(2) [OF emb [OF j]] N that by blast
  have wf1: "wf_graph (m_graph s1)" using remove_in_graph_wf [OF rg1 wf] .
  have base1: "base_inv s1"
    unfolding base_inv_def
  proof (intro conjI allI impI)
    show "wf_graph (m_graph s1)" by fact
    show "\<And>x. m_isTerminal s1 x = (x \<in> set (m_terminals s1))" using B by (simp add: s1 base_inv_def)
    show "\<And>x. (m_nodeCopy s1 x \<noteq> None) = m_isTerminal s1 x" using B2 by (simp add: s1)
  next
    fix x y assume "m_nodeCopy s1 x = Some y"
    then have c: "m_nodeCopy s x = Some y" by (simp add: s1)
    with B3 have y: "y \<in> set (nodes ?g)" "m_nodeOrig s y = Some x" by auto
    have "m_isTerminal s x" using B2 [of x] c by simp
    with NT [of y] y have "y \<notin> N" by auto
    with y show "y \<in> set (nodes (m_graph s1))" "m_nodeOrig s1 y = Some x" by (simp_all add: s1 rg_simps)
  qed
  have emb1: "embedded s1 (G ! k) (m_components s ! k)" if k: "k < length G" "k \<noteq> ?j" for k
    unfolding s1
  proof (rule frame_embedded [OF emb [OF k(1)]])
    show "X \<inter> own_edges (G ! k) = {}" using sep [OF j k(1)] k(2) X by auto
    show "N \<inter> priv (m_isTerminal s) (G ! k) = {}" using sep [OF j k(1)] k(2) N by auto
    show "\<And>y. y \<in> N \<Longrightarrow> \<exists>x. m_nodeOrig s y = Some x \<and> \<not> m_isTerminal s x" by (rule NT)
  qed
  have isT1: "m_isTerminal s' = m_isTerminal s" by (simp add: s' s1)
  define f where "f k = (if k = ?j then ?n - 1 else k)" for k
  have f: "f k < ?n \<and> f k \<noteq> ?j" if "k < ?n - 1" for k
    using that by (auto simp: f_def)
  have finj: "f k \<noteq> f l" if "k < ?n - 1" "l < ?n - 1" "k \<noteq> l" for k l
    using that by (auto simp: f_def)
  have Gk: "swap_remove ?j G ! k = G ! f k" if "k < ?n - 1" for k
    using swap_remove_nth [OF j that] by (simp add: f_def)
  have Ck: "swap_remove ?j (m_components s) ! k = m_components s ! f k" if "k < ?n - 1" for k
    using swap_remove_nth [of ?j "m_components s" k] i that len by (simp add: f_def)
  show ?thesis
    unfolding store_inv_def
  proof (intro conjI allI impI)
    show "base_inv s'" using base1 by (simp add: s')
    show "length (swap_remove ?j G) = length (m_components s')"
      by (simp add: s' swap_remove_length len)
  next
    fix k assume "k < length (swap_remove ?j G)"
    then have k: "k < ?n - 1" by (simp add: swap_remove_length)
    show "embedded s' (swap_remove ?j G ! k) (m_components s' ! k)"
      using emb1 [of "f k"] f [OF k] by (simp add: s' Gk [OF k] Ck [OF k])
  next
    fix k l assume "k < length (swap_remove ?j G)" "l < length (swap_remove ?j G)" and kl: "k \<noteq> l"
    then have k: "k < ?n - 1" and l: "l < ?n - 1" by (simp_all add: swap_remove_length)
    from sep [of "f k" "f l"] f [OF k] f [OF l] finj [OF k l kl]
    show "priv (m_isTerminal s') (swap_remove ?j G ! k) \<inter> priv (m_isTerminal s') (swap_remove ?j G ! l) = {}"
      and "own_edges (swap_remove ?j G ! k) \<inter> own_edges (swap_remove ?j G ! l) = {}"
      by (simp_all add: isT1 Gk [OF k] Gk [OF l])
  qed
qed

lemma reach_store_inv:
  "reach s cs \<Longrightarrow> \<exists>G. map fst G = cs \<and> store_inv s G"
proof (induction rule: reach.induct)
  case (reach_new isT ts)
  then show ?case
    using base_inv_new_store [of isT ts]
    by (auto simp: store_inv_def new_store_fields)
next
  case (reach_insert s cs c r s')
  then obtain G where G: "map fst G = cs" "store_inv s G" by blast
  from insert_store_inv [OF G(2) reach_insert(2)] G(1) show ?case
    by (intro exI [of _ "G @ [(c, m_nodeCopy (fst (insert_nodes s [] [] (c_nodes c))), edgeIdCount (m_graph s))]"]) simp
next
  case (reach_remove s cs i s')
  then obtain G where G: "map fst G = cs" "store_inv s G" by blast
  from remove_store_inv [OF G(2) reach_remove(2)] G(1) show ?case
    by (intro exI [of _ "swap_remove (nat i) G"]) (simp add: swap_remove_map)
qed

section \<open>Consequences of the invariant\<close>

lemma reach_fields:
  "reach s cs \<Longrightarrow> length cs = length (m_components s)"
  using reach_store_inv [of s cs] by (auto simp: store_inv_def dest: arg_cong [where f = length])

lemma insert_fc_keeps:
  assumes "insert_fc s c = Inr (r, s')"
  shows "m_terminals s' = m_terminals s" "m_isTerminal s' = m_isTerminal s"
  using assms
  by (auto elim!: insert_fc_Inr dest!: insert_nodes_fields insert_edges_fields)

lemma remove_loop_keeps:
  "remove_loop s cap stack = Inr s' \<Longrightarrow>
     m_terminals s' = m_terminals s \<and> m_isTerminal s' = m_isTerminal s
     \<and> m_nodeCopy s' = m_nodeCopy s \<and> m_nodeOrig s' = m_nodeOrig s"
  by (induction s cap stack rule: remove_loop.induct)
     (auto split: if_splits sum.splits option.splits)

lemma remove_fc_keeps:
  assumes "remove_fc s i = Inr s'"
  shows "m_terminals s' = m_terminals s" "m_isTerminal s' = m_isTerminal s"
    "m_nodeCopy s' = m_nodeCopy s" "m_nodeOrig s' = m_nodeOrig s"
  using assms
  by (auto simp: remove_fc_def remove_in_graph_def dest!: remove_loop_keeps
           split: sum.splits option.splits if_splits)

lemma insert_fc_nodeCopy:
  fixes s :: "('w::monoid_add, 'x::default) FullComponentStore"
  assumes "base_inv s" "insert_fc s c = Inr (r, s')"
  shows "m_nodeCopy s' = m_nodeCopy s"
proof -
  from assms(2) obtain s1 tmp ts s2 d where tree: "isTree c"
    and nodes: "insert_nodes s [] [] (c_nodes c) = (s1, tmp, ts)"
    and edges: "insert_edges s1 (Metadata0\<lparr> md_terminals := sort ts \<rparr>) (c_edges c) = Inr (s2, d)"
    and s': "s' = s2\<lparr> m_nodeCopy := fold (\<lambda>vO m. m(vO := None)) tmp (m_nodeCopy s2),
              m_components := m_components s2 @ [d] \<rparr>"
    by (rule insert_fc_Inr)
  note N2 = insert_nodes_lists [OF nodes isTree_nodes(1) [OF tree]]
  note N5 = insert_nodes_copy [OF nodes]
  note E1 = insert_edges_fields [OF edges]
  show ?thesis
  proof (rule ext)
    fix x
    show "m_nodeCopy s' x = m_nodeCopy s x"
      using N2 N5 E1 by (cases "m_nodeCopy s x") (auto simp: s' fold_clear)
  qed
qed

lemma reach_nodeCopy:
  "reach s cs \<Longrightarrow>
     m_nodeCopy s = m_nodeCopy (new_store (m_terminals s) (m_isTerminal s) :: ('w::monoid_add, 'x::default) FullComponentStore)"
  for s :: "('w::monoid_add, 'x::default) FullComponentStore"
proof (induction rule: reach.induct)
  case (reach_new isT ts)
  show ?case by (simp add: new_store_fields)
next
  case (reach_insert s cs c r s')
  from reach_store_inv [OF reach_insert(1)] have "base_inv s" by (auto simp: store_inv_def)
  from insert_fc_nodeCopy [OF this reach_insert(2)] insert_fc_keeps [OF reach_insert(2)] reach_insert(3)
  show ?case by simp
next
  case (reach_remove s cs i s')
  from remove_fc_keeps [OF reach_remove(2)] reach_remove(3) show ?case by simp
qed

lemma find_start_None:
  "find_start isT e0 es = None \<longleftrightarrow> (\<forall>e \<in> set es. \<not> terminal_incident isT e)"
  by (induction es arbitrary: e0) (fastforce simp: terminal_incident_def split: option.splits if_splits)+

lemma find_start_Some:
  "find_start isT e0 es = Some a \<Longrightarrow>
     \<exists>k < length es. a = (if isT (fst (es ! k)) then AdjSource (e0 + k) else AdjTarget (e0 + k))
        \<and> terminal_incident isT (es ! k)
        \<and> (\<forall>j. k < j \<and> j < length es \<longrightarrow> \<not> terminal_incident isT (es ! j))"
proof (induction es arbitrary: e0)
  case Nil
  then show ?case by simp
next
  case (Cons e es)
  obtain u v w where e: "e = (u, v, w)" by (cases e)
  show ?case
  proof (cases "find_start isT (Suc e0) es")
    case None
    then have no: "\<forall>e \<in> set es. \<not> terminal_incident isT e" by (simp add: find_start_None)
    from Cons.prems None have a: "a = (if isT u then AdjSource e0 else AdjTarget e0)" "isT u \<or> isT v"
      by (auto simp: e split: if_splits)
    have "\<forall>j. 0 < j \<and> j < length (e # es) \<longrightarrow> \<not> terminal_incident isT ((e # es) ! j)"
      using no by (auto simp: nth_Cons split: nat.splits)
    with a show ?thesis
      by (intro exI [of _ 0]) (auto simp: e terminal_incident_def)
  next
    case (Some a')
    with Cons.prems have "a' = a" by (simp add: e)
    with Some have "find_start isT (Suc e0) es = Some a" by simp
    from Cons.IH [OF this] obtain k where k: "k < length es"
      "a = (if isT (fst (es ! k)) then AdjSource (Suc e0 + k) else AdjTarget (Suc e0 + k))"
      "terminal_incident isT (es ! k)"
      "\<forall>j. k < j \<and> j < length es \<longrightarrow> \<not> terminal_incident isT (es ! j)" by blast
    have "\<forall>j. Suc k < j \<and> j < length (e # es) \<longrightarrow> \<not> terminal_incident isT ((e # es) ! j)"
      using k(4) by (auto simp: nth_Cons split: nat.splits)
    with k show ?thesis by (intro exI [of _ "Suc k"]) simp
  qed
qed

lemma insert_fc_components:
  assumes "insert_fc s c = Inr (r, s')"
  shows "\<exists>d. m_components s' = m_components s @ [d]"
  using assms
  by (auto elim!: insert_fc_Inr dest!: insert_nodes_fields insert_edges_fields)

lemma insert_fc_total:
  fixes s :: "('w::monoid_add, 'x::default) FullComponentStore"
  assumes B: "base_inv s" and ne: "c_nodes c \<noteq> []" and tree: "isTree c"
  shows "\<exists>s'. insert_fc s c = Inr (Void, s')"
proof -
  obtain s1 tmp ts where nodes: "insert_nodes s [] [] (c_nodes c) = (s1, tmp, ts)"
    by (cases "insert_nodes s [] [] (c_nodes c)") auto
  note N4 = insert_nodes_graph [OF nodes]
  note N5 = insert_nodes_copy [OF nodes]
  have ok: "\<exists>y. m_nodeCopy s1 x = Some y \<and> y \<in> set (nodes (m_graph s1))" if "x \<in> set (c_nodes c)" for x
  proof (cases "m_nodeCopy s x")
    case None
    with N5 that obtain y where "m_nodeCopy s1 x = Some y" "nodeIdCount (m_graph s) \<le> y"
      "y < nodeIdCount (m_graph s1)" by blast
    with N4 show ?thesis by auto
  next
    case (Some y)
    with B have "y \<in> set (nodes (m_graph s))" by (auto simp: base_inv_def)
    with N4 N5 Some show ?thesis by auto
  qed
  have "\<forall>e \<in> set (c_edges c). \<exists>uC vC. m_nodeCopy s1 (fst e) = Some uC \<and> m_nodeCopy s1 (fst (snd e)) = Some vC
              \<and> uC \<in> set (nodes (m_graph s1)) \<and> vC \<in> set (nodes (m_graph s1))"
    using isTree_nodes(2) [OF tree] ok by blast
  from insert_edges_total [OF this, of "Metadata0\<lparr> md_terminals := sort ts \<rparr>"]
  obtain s2 d where "insert_edges s1 (Metadata0\<lparr> md_terminals := sort ts \<rparr>) (c_edges c) = Inr (s2, d)"
    by auto
  with nodes ne tree show ?thesis by (simp add: insert_fc_def)
qed

lemma ex_isT_terminals: "\<forall>x. ex_isT x \<longleftrightarrow> x \<in> set [1, 2, 3]"
  by (auto simp: ex_isT_def)

lemma ex_insert1: "insert_fc ex_store0 ex_star = Inr (Void, ex_store1)"
proof -
  have "\<not> isl (insert_fc ex_store0 ex_star)" by code_simp
  then obtain r s' where r: "insert_fc ex_store0 ex_star = Inr (r, s')"
    by (cases "insert_fc ex_store0 ex_star") auto
  then have "r = Void" by (auto elim: insert_fc_Inr)
  with r show ?thesis by (simp add: ex_store1_def after_def)
qed

lemma ex_insert2: "insert_fc ex_store1 ex_edge = Inr (Void, ex_store2)"
proof -
  have "\<not> isl (insert_fc ex_store1 ex_edge)" by code_simp
  then obtain r s' where r: "insert_fc ex_store1 ex_edge = Inr (r, s')"
    by (cases "insert_fc ex_store1 ex_edge") auto
  then have "r = Void" by (auto elim: insert_fc_Inr)
  with r show ?thesis by (simp add: ex_store2_def after_def)
qed

lemma ex_reach0: "reach ex_store0 []"
  unfolding ex_store0_def by (rule reach_new) (rule ex_isT_terminals)

lemma ex_reach1: "reach ex_store1 [ex_star]"
  using reach_insert [OF ex_reach0 ex_insert1] by simp

lemma ex_reach2: "reach ex_store2 [ex_star, ex_edge]"
  using reach_insert [OF ex_reach1 ex_insert2] by simp

lemma store_inv_nth:
  assumes "store_inv s G" "map fst G = cs" "i < length cs"
  obtains nc e0 where "G ! i = (cs ! i, nc, e0)" "embedded s (cs ! i, nc, e0) (m_components s ! i)"
    "i < length (m_components s)"
proof -
  from assms(2,3) have i: "i < length G" by auto
  then have "map fst G ! i = fst (G ! i)" by (rule nth_map)
  with assms(2) have f: "fst (G ! i) = cs ! i" by simp
  obtain c nc e0 where g: "G ! i = (c, nc, e0)" by (cases "G ! i")
  with f have c: "c = cs ! i" by simp
  from assms(1) i have "embedded s (G ! i) (m_components s ! i)" "length G = length (m_components s)"
    by (auto simp: store_inv_def)
  with g c i that show ?thesis by auto
qed

lemma isTree_single_edge:
  assumes "a \<noteq> b" "c_nodes c = [a, b] \<or> c_nodes c = [b, a]" "c_edges c = [(a, b, w)]"
  shows "isTree c"
  using assms by (auto simp: isTree_def isConnected_def)

section \<open>The traversal of a full component\<close>

lemma attachable_Some:
  "attachable vis used es k0 = Some (k, b) \<Longrightarrow>
     k0 \<le> k \<and> k - k0 < length es \<and> k \<notin> set used
     \<and> (if b then fst (es ! (k - k0)) \<in> set vis \<and> fst (snd (es ! (k - k0))) \<notin> set vis
         else fst (snd (es ! (k - k0))) \<in> set vis \<and> fst (es ! (k - k0)) \<notin> set vis)"
proof (induction es arbitrary: k0)
  case Nil
  then show ?case by simp
next
  case (Cons e es)
  obtain u v w where e: "e = (u, v, w)" by (cases e)
  show ?case
  proof (cases "attachable vis used (e # es) k0 = attachable vis used es (Suc k0)")
    case True
    with Cons.prems have "attachable vis used es (Suc k0) = Some (k, b)" by simp
    from Cons.IH [OF this] show ?thesis by (auto simp: Suc_diff_le)
  next
    case False
    with Cons.prems show ?thesis by (auto simp: e split: if_splits)
  qed
qed

lemma grow_grows:
  "grows es V0 K0 (set vis) (set (map fst ds)) \<Longrightarrow> grow n es vis ds = (vis', ds')
     \<Longrightarrow> grows es V0 K0 (set vis') (set (map fst ds'))"
proof (induction n arbitrary: vis ds)
  case 0
  then show ?case by simp
next
  case (Suc n)
  show ?case
  proof (cases "attachable vis (map fst ds) es 0")
    case None
    with Suc.prems show ?thesis by simp
  next
    case (Some kb)
    obtain k b where kb: "kb = (k, b)" by (cases kb)
    let ?x = "if b then fst (snd (es ! k)) else fst (es ! k)"
    from attachable_Some [OF Some [unfolded kb]]
    have k: "k < length es" "k \<notin> set (map fst ds)"
      and x: "if b then fst (es ! k) \<in> set vis \<and> fst (snd (es ! k)) \<notin> set vis
              else fst (snd (es ! k)) \<in> set vis \<and> fst (es ! k) \<notin> set vis" by auto
    have "grows es V0 K0 (insert ?x (set vis)) (insert k (set (map fst ds)))"
      by (rule grows_step [OF Suc.prems(1) k, where a = "if b then fst (es ! k) else fst (snd (es ! k))"])
         (use x in \<open>auto split: if_splits\<close>)
    then have g: "grows es V0 K0 (set (vis @ [?x])) (set (map fst (ds @ [(k, b)])))" by simp
    from Suc.prems(2) Some kb have "grow n es (vis @ [?x]) (ds @ [(k, b)]) = (vis', ds')" by simp
    from Suc.IH [OF g this] show ?thesis .
  qed
qed

lemma grows_card:
  "grows es {r} {} V K \<Longrightarrow> finite V \<and> finite K \<and> card V = Suc (card K) \<and> K \<subseteq> {..<length es} \<and> r \<in> V"
  by (induction rule: grows.induct) auto

lemma grows_nodes:
  "grows es {r} {} V K \<Longrightarrow> r \<in> S \<Longrightarrow> \<forall>e \<in> set es. fst e \<in> S \<and> fst (snd e) \<in> S \<Longrightarrow> V \<subseteq> S"
  by (induction rule: grows.induct) auto

lemma isTree_grows:
  assumes "isTree c" "c_nodes c = r # ns"
  shows "grows (c_edges c) {r} {} (set (c_nodes c)) {..<length (c_edges c)}"
proof -
  let ?es = "c_edges c"
  obtain vis ds where g: "grow (length (c_nodes c)) ?es [r] [] = (vis, ds)" by force
  have "grows ?es {r} {} (set [r]) (set (map fst []))" by (simp add: grows_refl)
  from grow_grows [OF this g] have gr: "grows ?es {r} {} (set vis) (set (map fst ds))" .
  from assms have sub: "set (c_nodes c) \<subseteq> set vis" and len: "Suc (length ?es) = length (c_nodes c)"
    and d: "distinct (c_nodes c)"
    and en: "\<forall>e \<in> set ?es. fst e \<in> set (c_nodes c) \<and> fst (snd e) \<in> set (c_nodes c)"
    using g by (auto simp: isTree_def isConnected_def)
  from grows_nodes [OF gr _ en] assms(2) have "set vis \<subseteq> set (c_nodes c)" by simp
  with sub have V: "set vis = set (c_nodes c)" by auto
  from grows_card [OF gr] have c: "card (set vis) = Suc (card (set (map fst ds)))"
    and K: "set (map fst ds) \<subseteq> {..<length ?es}" by auto
  from c V d len have "card (set (map fst ds)) = length ?es" by (simp add: distinct_card)
  with K have "set (map fst ds) = {..<length ?es}" by (intro card_subset_eq) auto
  with gr V show ?thesis by simp
qed

lemma grows_trans:
  "grows es V1 K1 V K \<Longrightarrow> grows es V0 K0 V1 K1 \<Longrightarrow> grows es V0 K0 V K"
  by (induction rule: grows.induct) (auto intro: grows.intros)

lemma grows_insert:
  "grows es V0 K0 V K \<Longrightarrow> b \<notin> V \<Longrightarrow> k \<notin> K
     \<Longrightarrow> grows es (insert b V0) (insert k K0) (insert b V) (insert k K)"
proof (induction rule: grows.induct)
  case grows_refl
  show ?case by (rule grows.grows_refl)
next
  case (grows_step V K k' a' b')
  from grows_step.prems have b: "b \<notin> V" "b \<noteq> b'" and k: "k \<notin> K" "k \<noteq> k'" by auto
  from grows_step.IH [OF b(1) k(1)]
  have "grows es (insert b V0) (insert k K0) (insert b' (insert b V)) (insert k' (insert k K))"
    by (rule grows.grows_step) (use grows_step.hyps k b in auto)
  then show ?case by (simp add: insert_commute)
qed

lemma grows_reroot:
  "grows es {r} {} V K \<Longrightarrow> r' \<in> V \<Longrightarrow> grows es {r'} {} V K"
proof (induction arbitrary: r' rule: grows.induct)
  case grows_refl
  then show ?case by (simp add: grows.grows_refl)
next
  case (grows_step V K k a b)
  show ?case
  proof (cases "r' \<in> V")
    case True
    from grows_step.IH [OF True] show ?thesis
      by (rule grows.grows_step) (use grows_step.hyps in auto)
  next
    case False
    with grows_step.prems have r': "r' = b" by simp
    from grows_step.hyps have ab: "a \<noteq> b" by auto
    have "grows es {b} {} (insert a {b}) (insert k {})"
      by (rule grows.grows_step [OF grows.grows_refl, where a = b]) (use grows_step.hyps ab in auto)
    then have 1: "grows es {b} {} (insert b {a}) (insert k {})" by (simp add: insert_commute)
    from grows_insert [OF grows_step.IH [OF grows_step.hyps(5)] grows_step.hyps(6,3)]
    have 2: "grows es (insert b {a}) (insert k {}) (insert b V) (insert k K)" .
    from grows_trans [OF 2 1] show ?thesis by (simp add: r')
  qed
qed

lemma grows_orient:
  "grows es {r} {} V K \<Longrightarrow>
     \<exists>ch. inj_on ch K \<and> (\<forall>k \<in> K. ch k \<in> V \<and> ch k \<noteq> r
        \<and> (ch k = fst (es ! k) \<or> ch k = fst (snd (es ! k)))
        \<and> fst (es ! k) \<noteq> fst (snd (es ! k)) \<and> fst (es ! k) \<in> V \<and> fst (snd (es ! k)) \<in> V)"
proof (induction rule: grows.induct)
  case grows_refl
  then show ?case by simp
next
  case (grows_step V K k a b)
  then obtain ch where inj: "inj_on ch K"
    and ch: "\<forall>k \<in> K. ch k \<in> V \<and> ch k \<noteq> r
        \<and> (ch k = fst (es ! k) \<or> ch k = fst (snd (es ! k)))
        \<and> fst (es ! k) \<noteq> fst (snd (es ! k)) \<and> fst (es ! k) \<in> V \<and> fst (snd (es ! k)) \<in> V" by blast
  from grows_card [OF grows_step.hyps(1)] have r: "r \<in> V" by simp
  let ?ch = "ch(k := b)"
  from ch grows_step.hyps(6) have "b \<notin> ch ` K" by auto
  with inj grows_step.hyps(3) have "inj_on ?ch (insert k K)" by (auto simp: inj_on_def)
  moreover have "\<forall>j \<in> insert k K. ?ch j \<in> insert b V \<and> ?ch j \<noteq> r
        \<and> (?ch j = fst (es ! j) \<or> ?ch j = fst (snd (es ! j)))
        \<and> fst (es ! j) \<noteq> fst (snd (es ! j)) \<and> fst (es ! j) \<in> insert b V \<and> fst (snd (es ! j)) \<in> insert b V"
    using ch grows_step.hyps r by auto
  ultimately show ?case by blast
qed

lemma twin_simps [simp]: "twin (twin a) = a" "theEdge (twin a) = theEdge a" "twin a \<noteq> a" "a \<noteq> twin a"
  by (cases a; simp)+

lemma twin_eq_iff: "twin a = twin b \<longleftrightarrow> a = b"
  by (cases a; cases b; simp)

lemma own_twin [simp]: "own es e0 (twin a) = own es e0 a"
  by (simp add: own_def)

lemma same_edge: "theEdge a = theEdge b \<Longrightarrow> b = a \<or> b = twin a"
  by (cases a; cases b; simp)

lemma own_index: "own es e0 a \<Longrightarrow> theEdge a - e0 < length es"
  by (auto simp: own_def)

lemma oriented_at:
  assumes "oriented es ch r" "own es e0 a"
  shows "at_node es e0 (twin a) \<noteq> at_node es e0 a"
    and "ch (theEdge a - e0) = at_node es e0 a \<or> ch (theEdge a - e0) = at_node es e0 (twin a)"
    and "ch (theEdge a - e0) \<noteq> r"
proof -
  let ?k = "theEdge a - e0"
  from assms(1) own_index [OF assms(2)]
  have k: "ch ?k \<noteq> r" "ch ?k = fst (es ! ?k) \<or> ch ?k = fst (snd (es ! ?k))"
    "fst (es ! ?k) \<noteq> fst (snd (es ! ?k))" by (simp_all add: oriented_def)
  from k(3) show "at_node es e0 (twin a) \<noteq> at_node es e0 a" by (cases a) (auto simp: at_node_def)
  from k(2) show "ch ?k = at_node es e0 a \<or> ch ?k = at_node es e0 (twin a)"
    by (cases a) (auto simp: at_node_def)
  from k(1) show "ch ?k \<noteq> r" .
qed

lemma down_unique:
  assumes "oriented es ch r" "own es e0 a" "down es e0 ch a" "down es e0 ch a'" "theEdge a = theEdge a'"
  shows "a' = a"
proof (rule ccontr)
  assume "a' \<noteq> a"
  with same_edge [OF assms(5)] have a': "a' = twin a" by simp
  from assms(3) have 1: "at_node es e0 (twin a) = ch (theEdge a - e0)" by (simp only: down_def)
  from assms(4) have "at_node es e0 (twin (twin a)) = ch (theEdge (twin a) - e0)"
    unfolding a' by (simp only: down_def)
  then have 2: "at_node es e0 a = ch (theEdge a - e0)" by (simp only: twin_simps)
  from 1 2 oriented_at(1) [OF assms(1,2)] show False by simp
qed

lemma down_or:
  "oriented es ch r \<Longrightarrow> own es e0 a \<Longrightarrow> \<not> down es e0 ch a \<Longrightarrow> down es e0 ch (twin a)"
  using oriented_at(2) [of es ch r e0 a] by (auto simp: down_def)

lemma child_unique:
  assumes o: "oriented es ch r" and "own es e0 b" "own es e0 b'"
    "down es e0 ch (twin b)" "down es e0 ch (twin b')" "at_node es e0 b = at_node es e0 b'"
  shows "theEdge b = theEdge b'"
proof -
  from assms have "ch (theEdge b - e0) = ch (theEdge b' - e0)" by (simp add: down_def)
  moreover from assms(2,3) have "theEdge b - e0 \<in> {..<length es}" "theEdge b' - e0 \<in> {..<length es}"
    by (auto simp: own_def)
  ultimately have "theEdge b - e0 = theEdge b' - e0" using o by (auto simp: oriented_def inj_on_def)
  with assms(2,3) show ?thesis by (auto simp: own_def)
qed

lemma dfs_inv_length:
  assumes "dfs_inv es e0 isT ch a0 stack out"
  shows "length stack + length out \<le> length es"
proof -
  from assms have d: "distinct (map theEdge (stack @ out))"
    and o: "\<forall>a \<in> set (stack @ out). own es e0 a" by (auto simp: dfs_inv_def)
  from o have "set (map theEdge (stack @ out)) \<subseteq> {e0 ..< e0 + length es}" by (auto simp: own_def)
  then have "card (set (map theEdge (stack @ out))) \<le> card {e0 ..< e0 + length es}"
    by (intro card_mono) auto
  moreover from d have "card (set (map theEdge (stack @ out))) = length (map theEdge (stack @ out))"
    by (rule distinct_card)
  ultimately show ?thesis by simp
qed

lemma dfs_invD:
  assumes "dfs_inv es e0 isT ch a0 stack out"
  shows "\<And>a. a \<in> set stack \<Longrightarrow> own es e0 a \<and> down es e0 ch a"
    and "\<And>b. b \<in> set out \<Longrightarrow> own es e0 b \<and> down es e0 ch (twin b)"
    and "distinct (map theEdge (stack @ out))"
    and "\<And>a. a \<in> set stack \<or> twin a \<in> set out \<Longrightarrow>
           at_node es e0 a = at_node es e0 a0 \<or> (\<exists>b \<in> set out. at_node es e0 a = at_node es e0 b)"
    and "\<And>b a'. b \<in> set out \<Longrightarrow> \<not> isT (at_node es e0 b) \<Longrightarrow> own es e0 a'
           \<Longrightarrow> at_node es e0 a' = at_node es e0 b \<Longrightarrow> a' \<noteq> b
           \<Longrightarrow> a' \<in> set stack \<or> twin a' \<in> set out"
    and "a0 \<in> set stack \<or> twin a0 \<in> set out"
  using assms unfolding dfs_inv_def by blast+

lemma dfs_invI:
  assumes "\<And>a. a \<in> set stack \<Longrightarrow> own es e0 a \<and> down es e0 ch a"
    and "\<And>b. b \<in> set out \<Longrightarrow> own es e0 b \<and> down es e0 ch (twin b)"
    and "distinct (map theEdge (stack @ out))"
    and "\<And>a. a \<in> set stack \<or> twin a \<in> set out \<Longrightarrow>
           at_node es e0 a = at_node es e0 a0 \<or> (\<exists>b \<in> set out. at_node es e0 a = at_node es e0 b)"
    and "\<And>b a'. b \<in> set out \<Longrightarrow> \<not> isT (at_node es e0 b) \<Longrightarrow> own es e0 a'
           \<Longrightarrow> at_node es e0 a' = at_node es e0 b \<Longrightarrow> a' \<noteq> b
           \<Longrightarrow> a' \<in> set stack \<or> twin a' \<in> set out"
    and "a0 \<in> set stack \<or> twin a0 \<in> set out"
  shows "dfs_inv es e0 isT ch a0 stack out"
  unfolding dfs_inv_def using assms by blast

lemma dfs_inv_start:
  assumes "oriented es ch (at_node es e0 a0)" "own es e0 a0"
  shows "dfs_inv es e0 isT ch a0 [a0] []"
proof (rule dfs_invI)
  fix a assume "a \<in> set [a0]"
  then have a: "a = a0" by simp
  from oriented_at(2,3) [OF assms] have "down es e0 ch a0" by (auto simp: down_def)
  with assms(2) show "own es e0 a \<and> down es e0 ch a" by (simp add: a)
qed auto

lemma dfs_inv_terminal:
  assumes inv: "dfs_inv es e0 isT ch a0 (a # st) out" and t: "isT (at_node es e0 (twin a))"
  shows "dfs_inv es e0 isT ch a0 st (out @ [twin a])"
proof (rule dfs_invI)
  note D = dfs_invD [OF inv]
  show "own es e0 x \<and> down es e0 ch x" if "x \<in> set st" for x using D(1) [of x] that by simp
  show "own es e0 b \<and> down es e0 ch (twin b)" if "b \<in> set (out @ [twin a])" for b
    using D(1) [of a] D(2) [of b] that by auto
  show "distinct (map theEdge (st @ out @ [twin a]))" using D(3) by auto
  show "at_node es e0 x = at_node es e0 a0 \<or> (\<exists>b \<in> set (out @ [twin a]). at_node es e0 x = at_node es e0 b)"
    if "x \<in> set st \<or> twin x \<in> set (out @ [twin a])" for x
  proof -
    from that have "x \<in> set (a # st) \<or> twin x \<in> set out" by (auto simp: twin_eq_iff)
    from D(4) [OF this] show ?thesis by auto
  qed
  show "a' \<in> set st \<or> twin a' \<in> set (out @ [twin a])"
    if "b \<in> set (out @ [twin a])" "\<not> isT (at_node es e0 b)" "own es e0 a'"
      "at_node es e0 a' = at_node es e0 b" "a' \<noteq> b" for b a'
  proof -
    from that(1,2) t have "b \<in> set out" by auto
    from D(5) [OF this that(2-5)] show ?thesis by auto
  qed
  show "a0 \<in> set st \<or> twin a0 \<in> set (out @ [twin a])" using D(6) by auto
qed

lemma dfs_inv_expand:
  assumes o: "oriented es ch (at_node es e0 a0)" and t0: "isT (at_node es e0 a0)"
    and inv: "dfs_inv es e0 isT ch a0 (a # st) out" and nt: "\<not> isT (at_node es e0 (twin a))"
    and os: "set others = {a'. own es e0 a' \<and> at_node es e0 a' = at_node es e0 (twin a) \<and> a' \<noteq> twin a}"
    and d: "distinct others"
  shows "dfs_inv es e0 isT ch a0 (rev others @ st) (out @ [twin a])"
proof -
  note D = dfs_invD [OF inv]
  from D(1) [of a] have a: "own es e0 a" "down es e0 ch a" by simp_all
  have o': "own es e0 x" "at_node es e0 x = at_node es e0 (twin a)" "x \<noteq> twin a" if "x \<in> set others" for x
    using that os by auto
  have fresh: "\<not> (\<exists>b \<in> set out. at_node es e0 (twin a) = at_node es e0 b)"
  proof
    assume "\<exists>b \<in> set out. at_node es e0 (twin a) = at_node es e0 b"
    then obtain b where b: "b \<in> set out" "at_node es e0 (twin a) = at_node es e0 b" by blast
    from D(2) [OF b(1)] have ob: "own es e0 b" "down es e0 ch (twin b)" by simp_all
    have ta: "own es e0 (twin a)" "down es e0 ch (twin (twin a))" using a by simp_all
    from child_unique [OF o ta(1) ob(1) ta(2) ob(2) b(2)] have "theEdge (twin a) = theEdge b" .
    then have "theEdge a = theEdge b" by simp
    with D(3) b(1) show False by auto
  qed
  have root: "at_node es e0 (twin a) \<noteq> at_node es e0 a0" using nt t0 by auto
  have dn: "down es e0 ch x" if "x \<in> set others" for x
  proof (rule ccontr)
    assume "\<not> down es e0 ch x"
    from down_or [OF o o'(1) [OF that] this] have dx: "down es e0 ch (twin x)" .
    have ta: "own es e0 (twin a)" "down es e0 ch (twin (twin a))" using a by simp_all
    from child_unique [OF o o'(1) [OF that] ta(1) dx ta(2) o'(2) [OF that]]
    have "theEdge x = theEdge a" by simp
    from same_edge [OF this [symmetric]] o'(3) [OF that] have "x = a" by auto
    with o'(2) [OF that] oriented_at(1) [OF o a(1)] show False by simp
  qed
  have notst: "x \<notin> set st" "twin x \<notin> set out" "x \<noteq> a" if "x \<in> set others" for x
  proof -
    show "x \<notin> set st"
    proof
      assume "x \<in> set st"
      with D(4) [of x] have "at_node es e0 x = at_node es e0 a0 \<or> (\<exists>b \<in> set out. at_node es e0 x = at_node es e0 b)"
        by simp
      with o'(2) [OF that] root fresh show False by metis
    qed
    show "twin x \<notin> set out"
    proof
      assume "twin x \<in> set out"
      with D(4) [of x] have "at_node es e0 x = at_node es e0 a0 \<or> (\<exists>b \<in> set out. at_node es e0 x = at_node es e0 b)"
        by simp
      with o'(2) [OF that] root fresh show False by metis
    qed
    show "x \<noteq> a" using o'(2) [OF that] oriented_at(1) [OF o a(1)] by metis
  qed
  have edge_fresh: "theEdge x \<noteq> theEdge c" if "x \<in> set others" "c \<in> set (st @ out @ [twin a])" for x c
  proof
    assume e: "theEdge x = theEdge c"
    from that(2) consider "c \<in> set st" | "c \<in> set out" | "c = twin a" by auto
    then show False
    proof cases
      case 1
      with D(1) [of c] have "down es e0 ch c" by simp
      from down_unique [OF o o'(1) [OF that(1)] dn [OF that(1)] this e] 1 notst(1) [OF that(1)]
      show False by simp
    next
      case 2
      with D(2) [of c] have "down es e0 ch (twin c)" by simp
      from down_unique [OF o o'(1) [OF that(1)] dn [OF that(1)] this] e have "twin c = x" by simp
      then have "twin x = c" by auto
      with 2 notst(2) [OF that(1)] show False by simp
    next
      case 3
      with e have "theEdge x = theEdge a" by simp
      from down_unique [OF o o'(1) [OF that(1)] dn [OF that(1)] a(2) this] notst(3) [OF that(1)]
      show False by simp
    qed
  qed
  have inj: "inj_on theEdge (set others)"
  proof (rule inj_onI)
    fix x y assume "x \<in> set others" "y \<in> set others" "theEdge x = theEdge y"
    from down_unique [OF o o'(1) [OF this(1)] dn [OF this(1)] dn [OF this(2)] this(3)]
    show "x = y" by simp
  qed
  show ?thesis
  proof (rule dfs_invI)
    show "own es e0 x \<and> down es e0 ch x" if "x \<in> set (rev others @ st)" for x
      using that o'(1) dn D(1) [of x] by auto
    show "own es e0 b \<and> down es e0 ch (twin b)" if "b \<in> set (out @ [twin a])" for b
      using a D(2) [of b] that by auto
    have "distinct (map theEdge (rev others))" using d inj by (simp add: distinct_map)
    moreover have "distinct (map theEdge (st @ out @ [twin a]))" using D(3) by auto
    moreover have "theEdge ` set others \<inter> theEdge ` set (st @ out @ [twin a]) = {}"
      using edge_fresh by blast
    ultimately show "distinct (map theEdge ((rev others @ st) @ out @ [twin a]))"
      by (simp add: image_Un Int_Un_distrib)
    show "at_node es e0 x = at_node es e0 a0 \<or> (\<exists>b \<in> set (out @ [twin a]). at_node es e0 x = at_node es e0 b)"
      if "x \<in> set (rev others @ st) \<or> twin x \<in> set (out @ [twin a])" for x
    proof (cases "x \<in> set others")
      case True
      from o'(2) [OF True] show ?thesis by auto
    next
      case False
      with that have "x \<in> set (a # st) \<or> twin x \<in> set out" by (auto simp: twin_eq_iff)
      from D(4) [OF this] show ?thesis by auto
    qed
    show "a' \<in> set (rev others @ st) \<or> twin a' \<in> set (out @ [twin a])"
      if "b \<in> set (out @ [twin a])" "\<not> isT (at_node es e0 b)" "own es e0 a'"
        "at_node es e0 a' = at_node es e0 b" "a' \<noteq> b" for b a'
    proof (cases "b = twin a")
      case True
      with that os have "a' \<in> set others" by simp
      then show ?thesis by simp
    next
      case False
      with that(1) have "b \<in> set out" by simp
      from D(5) [OF this that(2-5)] show ?thesis by auto
    qed
    show "a0 \<in> set (rev others @ st) \<or> twin a0 \<in> set (out @ [twin a])" using D(6) by auto
  qed
qed

lemma at_node_Cons:
  "e0 < theEdge a \<Longrightarrow> at_node (e # es) e0 a = at_node es (Suc e0) a"
  by (cases a) (auto simp: at_node_def nth_Cons')

lemma incident_iff:
  "a \<in> set (incident nc y e0 es) \<longleftrightarrow> own es e0 a \<and> nc (at_node es e0 a) = Some y"
proof (induction es arbitrary: e0)
  case Nil
  then show ?case by (simp add: own_def)
next
  case (Cons e es)
  obtain u v w where e: "e = (u, v, w)" by (cases e)
  show ?case
  proof (cases "theEdge a = e0")
    case True
    have "a \<notin> set (incident nc y (Suc e0) es)" using incident_edges [of nc y "Suc e0" es] True by auto
    with True show ?thesis by (cases a) (auto simp: e own_def at_node_def)
  next
    case False
    have "a \<in> set (incident nc y e0 (e # es)) \<longleftrightarrow> a \<in> set (incident nc y (Suc e0) es)"
      using False by (cases a) (auto simp: e)
    also have "\<dots> \<longleftrightarrow> own es (Suc e0) a \<and> nc (at_node es (Suc e0) a) = Some y" by (rule Cons.IH)
    also have "\<dots> \<longleftrightarrow> own (e # es) e0 a \<and> nc (at_node (e # es) e0 a) = Some y"
      using False by (cases "e0 < theEdge a") (auto simp: own_def at_node_Cons)
    finally show ?thesis .
  qed
qed

lemma incident_distinct: "distinct (incident nc y e0 es)"
proof (induction es arbitrary: e0)
  case Nil
  then show ?case by simp
next
  case (Cons e es)
  obtain u v w where e: "e = (u, v, w)" by (cases e)
  have "AdjSource e0 \<notin> set (incident nc y (Suc e0) es)" "AdjTarget e0 \<notin> set (incident nc y (Suc e0) es)"
    using incident_edges [of nc y "Suc e0" es] by force+
  with Cons.IH [of "Suc e0"] show ?case by (simp add: e)
qed

lemma cyclicOthers_Some:
  assumes "distinct xs" "back \<in> set xs"
  shows "\<exists>os. cyclicOthers back xs = Some os \<and> set os = set xs - {back} \<and> distinct os"
proof -
  let ?P = "\<lambda>a. a \<noteq> back"
  let ?as = "takeWhile ?P xs" and ?bs = "dropWhile ?P xs"
  from assms(2) have ne: "?bs \<noteq> []" by (auto simp: dropWhile_eq_Nil_conv)
  then have hd: "hd ?bs = back" using hd_dropWhile [of ?P xs] by auto
  with ne have bs: "?bs = back # tl ?bs" by (cases ?bs) auto
  have xs: "xs = ?as @ back # tl ?bs" using bs takeWhile_dropWhile_id [of ?P xs] by simp
  from assms(1) xs have d: "distinct (?as @ back # tl ?bs)" by simp
  have s: "set xs = set (?as @ back # tl ?bs)" using xs by simp
  have "set (tl ?bs @ ?as) = set xs - {back}" using d unfolding s by auto
  moreover have "distinct (tl ?bs @ ?as)" using d by auto
  ultimately show ?thesis using assms(2) by (simp add: cyclicOthers_def)
qed

lemma placedD:
  assumes "placed s es nc e0" "own es e0 a"
  obtains y where "nc (at_node es e0 a) = Some y" "theNode (m_graph s) a = Some y"
    "m_nodeOrig s y = Some (at_node es e0 a)"
    "\<not> m_isTerminal s (at_node es e0 a) \<Longrightarrow> adjEntries (m_graph s) y = incident nc y e0 es"
  using assms unfolding placed_def by blast

lemma placed_inj:
  assumes "placed s es nc e0" "own es e0 a" "own es e0 b" "nc (at_node es e0 a) = nc (at_node es e0 b)"
  shows "at_node es e0 a = at_node es e0 b"
proof -
  from placedD [OF assms(1,2)] obtain y where y: "nc (at_node es e0 a) = Some y"
    "m_nodeOrig s y = Some (at_node es e0 a)" by metis
  from placedD [OF assms(1,3)] obtain z where z: "nc (at_node es e0 b) = Some z"
    "m_nodeOrig s z = Some (at_node es e0 b)" by metis
  from y z assms(4) show ?thesis by simp
qed

lemma dfs_step:
  assumes o: "oriented es ch (at_node es e0 a0)" and t0: "m_isTerminal s (at_node es e0 a0)"
    and p: "placed s es nc e0" and cap: "int (length es) \<le> cap"
    and inv: "dfs_inv es e0 (m_isTerminal s) ch a0 (a # st) out"
  shows "\<exists>st'. dfs_loop s cap (a # st) out = dfs_loop s cap st' (out @ [twin a])
            \<and> dfs_inv es e0 (m_isTerminal s) ch a0 st' (out @ [twin a])"
proof -
  from dfs_invD(1) [OF inv, of a] have a: "own es e0 (twin a)" by simp
  from placedD [OF p a] obtain y where y: "nc (at_node es e0 (twin a)) = Some y"
    "theNode (m_graph s) (twin a) = Some y" "m_nodeOrig s y = Some (at_node es e0 (twin a))"
    "\<not> m_isTerminal s (at_node es e0 (twin a)) \<Longrightarrow> adjEntries (m_graph s) y = incident nc y e0 es"
    by metis
  from y(3) have it: "isTerminal_node s y = Inr (m_isTerminal s (at_node es e0 (twin a)))"
    by (simp add: isTerminal_node_def)
  show ?thesis
  proof (cases "m_isTerminal s (at_node es e0 (twin a))")
    case True
    from dfs_inv_terminal [OF inv True]
    have "dfs_inv es e0 (m_isTerminal s) ch a0 st (out @ [twin a])" .
    moreover have "dfs_loop s cap (a # st) out = dfs_loop s cap st (out @ [twin a])"
      by (subst dfs_loop.simps) (simp add: y(2) it True)
    ultimately show ?thesis by blast
  next
    case False
    from y(4) [OF False] have adj: "adjEntries (m_graph s) y = incident nc y e0 es" .
    have bk: "twin a \<in> set (incident nc y e0 es)" using a y(1) by (simp add: incident_iff)
    from cyclicOthers_Some [OF incident_distinct bk]
    obtain os where os: "cyclicOthers (twin a) (incident nc y e0 es) = Some os"
      "set os = set (incident nc y e0 es) - {twin a}" "distinct os" by blast
    have "set os = {a'. own es e0 a' \<and> at_node es e0 a' = at_node es e0 (twin a) \<and> a' \<noteq> twin a}"
    proof (rule set_eqI)
      fix x
      have "x \<in> set os \<longleftrightarrow> own es e0 x \<and> nc (at_node es e0 x) = Some y \<and> x \<noteq> twin a"
        by (simp add: os(2) incident_iff)
      also have "\<dots> \<longleftrightarrow> own es e0 x \<and> at_node es e0 x = at_node es e0 (twin a) \<and> x \<noteq> twin a"
        using placed_inj [OF p _ a, of x] y(1) by metis
      finally show "x \<in> set os \<longleftrightarrow> x \<in> {a'. own es e0 a' \<and> at_node es e0 a' = at_node es e0 (twin a) \<and> a' \<noteq> twin a}"
        by simp
    qed
    from dfs_inv_expand [OF o t0 inv False this os(3)]
    have inv': "dfs_inv es e0 (m_isTerminal s) ch a0 (rev os @ st) (out @ [twin a])" .
    from dfs_inv_length [OF inv'] cap have "int (length st + length os) \<le> cap" by simp
    from push_all_ok [OF this] have "push_all cap st os = Inr (rev os @ st)" .
    then have "dfs_loop s cap (a # st) out = dfs_loop s cap (rev os @ st) (out @ [twin a])"
      by (subst dfs_loop.simps) (simp add: y(2) it False adj os(1))
    with inv' show ?thesis by blast
  qed
qed

lemma dfs_loop_total:
  assumes o: "oriented es ch (at_node es e0 a0)" and t0: "m_isTerminal s (at_node es e0 a0)"
    and p: "placed s es nc e0" and cap: "int (length es) \<le> cap"
  shows "dfs_inv es e0 (m_isTerminal s) ch a0 stack out \<Longrightarrow>
     \<exists>out'. dfs_loop s cap stack out = Some (Inr out') \<and> dfs_inv es e0 (m_isTerminal s) ch a0 [] out'"
proof (induction "length es - length out" arbitrary: stack out rule: less_induct)
  case less
  show ?case
  proof (cases stack)
    case Nil
    with less.prems show ?thesis by (subst dfs_loop.simps) simp
  next
    case (Cons a st)
    from dfs_step [OF o t0 p cap less.prems [unfolded Cons]]
    obtain st' where st': "dfs_loop s cap (a # st) out = dfs_loop s cap st' (out @ [twin a])"
      "dfs_inv es e0 (m_isTerminal s) ch a0 st' (out @ [twin a])" by blast
    from dfs_inv_length [OF less.prems] Cons have "length out < length es" by simp
    then have "length es - length (out @ [twin a]) < length es - length out" by simp
    from less.hyps [OF this st'(2)] st'(1) Cons show ?thesis by simp
  qed
qed

lemma own_cases:
  assumes "own es e0 a"
  obtains k where "k < length es" "a = AdjSource (e0 + k)" "at_node es e0 a = fst (es ! k)"
    | k where "k < length es" "a = AdjTarget (e0 + k)" "at_node es e0 a = fst (snd (es ! k))"
proof (cases a)
  case (AdjSource e)
  with assms have "e - e0 < length es" "a = AdjSource (e0 + (e - e0))" by (auto simp: own_def)
  moreover have "at_node es e0 a = fst (es ! (e - e0))" by (simp add: AdjSource at_node_def)
  ultimately show ?thesis by (rule that(1))
next
  case (AdjTarget e)
  with assms have "e - e0 < length es" "a = AdjTarget (e0 + (e - e0))" by (auto simp: own_def)
  moreover have "at_node es e0 a = fst (snd (es ! (e - e0)))" by (simp add: AdjTarget at_node_def)
  ultimately show ?thesis by (rule that(2))
qed

lemma embedded_placed:
  assumes emb: "embedded s (c, nc, e0) md"
  shows "placed s (c_edges c) nc e0"
  unfolding placed_def
proof (intro allI impI)
  fix a assume a: "own (c_edges c) e0 a"
  let ?es = "c_edges c"
  have ends: "fst (?es ! k) \<in> set (c_nodes c)" "fst (snd (?es ! k)) \<in> set (c_nodes c)" if "k < length ?es" for k
    using isTree_nodes(2) [OF embeddedD(2) [OF emb], of "?es ! k"] that by simp_all
  from a show "\<exists>y. nc (at_node ?es e0 a) = Some y \<and> theNode (m_graph s) a = Some y
           \<and> m_nodeOrig s y = Some (at_node ?es e0 a)
           \<and> (\<not> m_isTerminal s (at_node ?es e0 a) \<longrightarrow> adjEntries (m_graph s) y = incident nc y e0 ?es)"
  proof (cases rule: own_cases)
    case (1 k)
    from embeddedD(4) [OF emb 1(1)] obtain u v where uv: "nc (fst (?es ! k)) = Some u"
      "ends (m_graph s) (e0 + k) = Some (u, v)" by blast
    from embeddedD(3) [OF emb ends(1) [OF 1(1)]] uv(1)
    have "m_nodeOrig s u = Some (fst (?es ! k))"
      "\<not> m_isTerminal s (fst (?es ! k)) \<longrightarrow> adjEntries (m_graph s) u = incident nc u e0 ?es" by auto
    moreover from 1 have "at_node ?es e0 (AdjSource (e0 + k)) = fst (?es ! k)" by simp
    ultimately show ?thesis using uv by (simp add: 1(2) theNode_simps)
  next
    case (2 k)
    from embeddedD(4) [OF emb 2(1)] obtain u v where uv: "nc (fst (snd (?es ! k))) = Some v"
      "ends (m_graph s) (e0 + k) = Some (u, v)" by blast
    from embeddedD(3) [OF emb ends(2) [OF 2(1)]] uv(1)
    have "m_nodeOrig s v = Some (fst (snd (?es ! k)))"
      "\<not> m_isTerminal s (fst (snd (?es ! k))) \<longrightarrow> adjEntries (m_graph s) v = incident nc v e0 ?es" by auto
    moreover from 2 have "at_node ?es e0 (AdjTarget (e0 + k)) = fst (snd (?es ! k))" by simp
    ultimately show ?thesis using uv by (simp add: 2(2) theNode_simps)
  qed
qed

lemma isTree_oriented:
  assumes "isTree c" "r \<in> set (c_nodes c)"
  shows "\<exists>ch. oriented (c_edges c) ch r"
proof -
  from assms(2) obtain r0 ns where "c_nodes c = r0 # ns" by (cases "c_nodes c") auto
  from grows_reroot [OF isTree_grows [OF assms(1) this] assms(2)]
  have "grows (c_edges c) {r} {} (set (c_nodes c)) {..<length (c_edges c)}" .
  from grows_orient [OF this] show ?thesis unfolding oriented_def by (auto simp: lessThan_iff)
qed

lemma incident_length:
  "length (incident nc y e0 es)
     = length (filter (\<lambda>ed. nc (fst ed) = Some y) es) + length (filter (\<lambda>ed. nc (fst (snd ed)) = Some y) es)"
  by (induction es arbitrary: e0) auto

lemma leaf_unique:
  assumes "degree c x = 1" "own (c_edges c) e0 a" "own (c_edges c) e0 a'"
    "at_node (c_edges c) e0 a = x" "at_node (c_edges c) e0 a' = x"
  shows "a = a'"
proof -
  let ?xs = "incident Some x e0 (c_edges c)"
  have "length ?xs = 1" using assms(1) by (simp add: incident_length degree_def)
  then obtain z where "?xs = [z]" by (cases ?xs) auto
  moreover have "a \<in> set ?xs" "a' \<in> set ?xs" using assms(2-5) by (simp_all add: incident_iff)
  ultimately show ?thesis by simp
qed

lemma dfs_complete:
  assumes inv: "dfs_inv es e0 isT ch a0 [] out"
    and leaf: "\<And>a a'. own es e0 a \<Longrightarrow> own es e0 a' \<Longrightarrow> at_node es e0 a = at_node es e0 a'
                 \<Longrightarrow> isT (at_node es e0 a) \<Longrightarrow> a = a'"
    and t0: "isT (at_node es e0 a0)" and a0: "own es e0 a0"
  shows "grows es {at_node es e0 a0} {} V K \<Longrightarrow>
     (\<forall>k \<in> K. \<exists>b \<in> set out. theEdge b = e0 + k)
     \<and> (\<forall>x \<in> V. x = at_node es e0 a0 \<or> (\<exists>b \<in> set out. x = at_node es e0 b \<or> x = at_node es e0 (twin b)))"
proof (induction rule: grows.induct)
  case grows_refl
  show ?case by simp
next
  case (grows_step V K k a b)
  note D = dfs_invD [OF inv]
  have N: "e \<in> set out \<or> twin e \<in> set out"
    if x: "at_node es e0 e = at_node es e0 a0 \<or> (\<exists>b \<in> set out. at_node es e0 e = at_node es e0 b)"
      and e: "own es e0 e" for e
    using x
  proof
    assume "at_node es e0 e = at_node es e0 a0"
    from leaf [OF a0 e this [symmetric] t0] D(6) show ?thesis by auto
  next
    assume "\<exists>b \<in> set out. at_node es e0 e = at_node es e0 b"
    then obtain b where b: "b \<in> set out" "at_node es e0 e = at_node es e0 b" by blast
    show ?thesis
    proof (cases "isT (at_node es e0 b)")
      case True
      from D(2) [OF b(1)] have "own es e0 b" by simp
      from leaf [OF this e b(2) [symmetric] True] b(1) show ?thesis by simp
    next
      case False
      from D(5) [OF b(1) False e b(2)] b(1) show ?thesis by auto
    qed
  qed
  define ak where "ak = (if a = fst (es ! k) then AdjSource (e0 + k) else AdjTarget (e0 + k))"
  from grows_step.hyps have ak: "own es e0 ak" "at_node es e0 ak = a" "at_node es e0 (twin ak) = b"
    "theEdge ak = e0 + k" by (auto simp: ak_def own_def at_node_def)
  from grows_step.IH grows_step.hyps(5)
  have "a = at_node es e0 a0 \<or> (\<exists>b \<in> set out. a = at_node es e0 b \<or> a = at_node es e0 (twin b))" by blast
  then have "at_node es e0 ak = at_node es e0 a0 \<or> (\<exists>b \<in> set out. at_node es e0 ak = at_node es e0 b)"
  proof (elim disjE bexE)
    fix c assume c: "c \<in> set out" "a = at_node es e0 (twin c)"
    from D(4) [of "twin c"] c(1)
    have "at_node es e0 (twin c) = at_node es e0 a0 \<or> (\<exists>b \<in> set out. at_node es e0 (twin c) = at_node es e0 b)"
      by simp
    with c(2) ak(2) show ?thesis by simp
  qed (use ak(2) in auto)
  from N [OF this ak(1)] have vis: "ak \<in> set out \<or> twin ak \<in> set out" .
  then have 1: "\<exists>b \<in> set out. theEdge b = e0 + k" using ak(4) by (auto intro: bexI [where x = ak] bexI [where x = "twin ak"])
  from vis ak(3) have 2: "\<exists>c \<in> set out. b = at_node es e0 c \<or> b = at_node es e0 (twin c)"
    by (auto intro: bexI [where x = ak] bexI [where x = "twin ak"])
  from 1 2 grows_step.IH show ?case by auto
qed

lemma filter_disjoint_length:
  "\<forall>e \<in> set es. \<not> (P e \<and> Q e) \<Longrightarrow>
     length (filter P es) + length (filter Q es) = length (filter (\<lambda>e. P e \<or> Q e) es)"
  by (induction es) auto

lemma count_by_end:
  "distinct xs \<Longrightarrow>
     sum_list (map (\<lambda>x. length (filter (\<lambda>e. f e = x) es)) xs) = length (filter (\<lambda>e. f e \<in> set xs) es)"
proof (induction xs)
  case Nil
  then show ?case by simp
next
  case (Cons x xs)
  then have "\<forall>e \<in> set es. \<not> (f e = x \<and> f e \<in> set xs)" by auto
  from filter_disjoint_length [OF this] Cons show ?case by simp
qed

lemma degree_sum:
  assumes "isTree c"
  shows "sum_list (map (degree c) (c_nodes c)) = 2 * length (c_edges c)"
proof -
  note n = isTree_nodes [OF assms]
  have 1: "filter (\<lambda>e. fst e \<in> set (c_nodes c)) (c_edges c) = c_edges c"
    and 2: "filter (\<lambda>e. fst (snd e) \<in> set (c_nodes c)) (c_edges c) = c_edges c"
    using n(2) by (auto intro: filter_True)
  have "sum_list (map (degree c) (c_nodes c))
      = sum_list (map (\<lambda>x. length (filter (\<lambda>e. fst e = x) (c_edges c))) (c_nodes c))
        + sum_list (map (\<lambda>x. length (filter (\<lambda>e. fst (snd e) = x) (c_edges c))) (c_nodes c))"
    unfolding degree_def by (rule sum_list_addf)
  also have "\<dots> = length (c_edges c) + length (c_edges c)"
    by (simp only: count_by_end [OF n(1)] 1 2)
  finally show ?thesis by simp
qed

lemma full_sum:
  "\<forall>x \<in> set xs. if isT x then d x = 1 else 3 \<le> d x \<Longrightarrow>
     length (filter isT xs) + 3 * length (filter (\<lambda>x. \<not> isT x) xs) \<le> sum_list (map d xs)"
proof (induction xs)
  case Nil
  then show ?case by simp
next
  case (Cons x xs)
  then have IH: "length (filter isT xs) + 3 * length (filter (\<lambda>x. \<not> isT x) xs) \<le> sum_list (map d xs)"
    by simp
  from Cons.prems have "if isT x then d x = 1 else 3 \<le> d x" by simp
  with IH show ?case by (cases "isT x") auto
qed

lemma full_component_bound:
  assumes "isTree c" "c_nodes c \<noteq> []" "full_component isT c"
  shows "length (c_edges c) + 3 \<le> 2 * length (filter isT (c_nodes c))"
proof -
  let ?k = "length (filter isT (c_nodes c))" and ?k' = "length (filter (\<lambda>x. \<not> isT x) (c_nodes c))"
  from assms(3) have "?k + 3 * ?k' \<le> sum_list (map (degree c) (c_nodes c))"
    unfolding full_component_def by (rule full_sum)
  with degree_sum [OF assms(1)] have 1: "?k + 3 * ?k' \<le> 2 * length (c_edges c)" by simp
  from assms(1,2) have 2: "Suc (length (c_edges c)) = length (c_nodes c)" by (simp add: isTree_def)
  have 3: "length (c_nodes c) = ?k + ?k'" using sum_length_filter_compl [of isT "c_nodes c"] by simp
  from 1 2 3 show ?thesis by arith
qed

lemma sum_list_weights:
  fixes f :: "nat \<Rightarrow> 'w::comm_monoid_add"
  assumes "distinct xs" "set xs = {e0 ..< e0 + length es}" "\<forall>k < length es. f (e0 + k) = h (es ! k)"
  shows "sum_list (map f xs) = sum_list (map h es)"
proof -
  from assms(1,2) have "mset xs = mset [e0 ..< e0 + length es]"
    by (intro iffD1 [OF set_eq_iff_mset_eq_distinct]) auto
  then have "mset (map f xs) = mset (map f [e0 ..< e0 + length es])" by simp
  then have "sum_list (map f xs) = sum_list (map f [e0 ..< e0 + length es])"
    by (metis sum_mset_sum_list)
  also have "map f [e0 ..< e0 + length es] = map h es"
    using assms(3) by (intro nth_equalityI) auto
  finally show ?thesis .
qed

lemma degree_one_edge:
  assumes "degree c x = 1"
  shows "\<exists>e \<in> set (c_edges c). fst e = x \<or> fst (snd e) = x"
proof (rule ccontr)
  assume "\<not> ?thesis"
  then have "filter (\<lambda>e. fst e = x) (c_edges c) = []" "filter (\<lambda>e. fst (snd e) = x) (c_edges c) = []"
    by (auto simp: filter_empty_conv)
  with assms show False by (simp add: degree_def)
qed

lemma full_component_start:
  assumes "isTree c" "c_nodes c \<noteq> []" "full_component isT c"
  shows "\<exists>a0. find_start isT e0 (c_edges c) = Some a0 \<and> own (c_edges c) e0 a0
           \<and> isT (at_node (c_edges c) e0 a0) \<and> at_node (c_edges c) e0 a0 \<in> set (c_nodes c)"
proof -
  from full_component_bound [OF assms] have "filter isT (c_nodes c) \<noteq> []" by auto
  then obtain x where "x \<in> set (filter isT (c_nodes c))" by (meson last_in_set)
  then have x: "x \<in> set (c_nodes c)" "isT x" by simp_all
  with assms(3) have "degree c x = 1" by (auto simp: full_component_def)
  from degree_one_edge [OF this] x(2) have "\<exists>e \<in> set (c_edges c). terminal_incident isT e"
    by (auto simp: terminal_incident_def)
  then obtain a0 where a0: "find_start isT e0 (c_edges c) = Some a0"
    using find_start_None [of isT e0 "c_edges c"] by (cases "find_start isT e0 (c_edges c)") auto
  from find_start_Some [OF a0] obtain k where k: "k < length (c_edges c)"
    "a0 = (if isT (fst (c_edges c ! k)) then AdjSource (e0 + k) else AdjTarget (e0 + k))"
    "terminal_incident isT (c_edges c ! k)" by blast
  from isTree_nodes(2) [OF assms(1), of "c_edges c ! k"] k(1)
  have "fst (c_edges c ! k) \<in> set (c_nodes c)" "fst (snd (c_edges c ! k)) \<in> set (c_nodes c)" by simp_all
  with k a0 show ?thesis by (auto simp: own_def at_node_def terminal_incident_def)
qed

lemma at_node_in_nodes:
  assumes "isTree c" "own (c_edges c) e0 a"
  shows "at_node (c_edges c) e0 a \<in> set (c_nodes c)"
  using assms(2)
proof (cases rule: own_cases)
  case (1 k)
  with isTree_nodes(2) [OF assms(1), of "c_edges c ! k"] show ?thesis by simp
next
  case (2 k)
  with isTree_nodes(2) [OF assms(1), of "c_edges c ! k"] show ?thesis by simp
qed

lemma foreach_embedded:
  assumes emb: "embedded s (c, nc, e0) md" and full: "full_component (m_isTerminal s) c"
  shows "\<exists>a0 out. md_start md = Some a0 \<and> ends (m_graph s) (theEdge a0) \<noteq> None
     \<and> (if length (md_terminals md) = 2 then out = [twin a0]
         else dfs_loop s (2 * int (length (md_terminals md)) - 2) [a0] [] = Some (Inr out))
     \<and> distinct (map theEdge out) \<and> theEdge ` set out = {e0 ..< e0 + length (c_edges c)}"
proof -
  let ?es = "c_edges c" and ?isT = "m_isTerminal s"
  note E = embeddedD [OF emb]
  from full_component_start [OF E(2,1) full, of e0] obtain a0
    where a0: "find_start ?isT e0 ?es = Some a0" "own ?es e0 a0" "?isT (at_node ?es e0 a0)"
      "at_node ?es e0 a0 \<in> set (c_nodes c)" by blast
  from a0(1) E(6) have st: "md_start md = Some a0" by simp
  from a0(2) have "theEdge a0 - e0 < length ?es" "e0 + (theEdge a0 - e0) = theEdge a0"
    by (auto simp: own_def)
  with E(4) [of "theEdge a0 - e0"] have live: "ends (m_graph s) (theEdge a0) \<noteq> None"
    by auto
  have k: "length (md_terminals md) = length (filter ?isT (c_nodes c))" by (simp add: E(8))
  from full_component_bound [OF E(2,1) full] k
  have bound: "length ?es + 3 \<le> 2 * length (md_terminals md)" by simp
  from a0(2) have m: "0 < length ?es" by (auto simp: own_def)
  show ?thesis
  proof (cases "length (md_terminals md) = 2")
    case True
    from bound m True have "length ?es = 1" by arith
    with a0(2) have 1: "theEdge a0 = e0" "{e0 ..< e0 + length ?es} = {e0}" by (auto simp: own_def)
    have "md_start md = Some a0 \<and> ends (m_graph s) (theEdge a0) \<noteq> None
     \<and> (if length (md_terminals md) = 2 then [twin a0] = [twin a0]
         else dfs_loop s (2 * int (length (md_terminals md)) - 2) [a0] [] = Some (Inr [twin a0]))
     \<and> distinct (map theEdge [twin a0]) \<and> theEdge ` set [twin a0] = {e0 ..< e0 + length (c_edges c)}"
      using st live True 1 by simp
    then show ?thesis by blast
  next
    case False
    from isTree_oriented [OF E(2) a0(4)] obtain ch where o: "oriented ?es ch (at_node ?es e0 a0)" ..
    from bound have cap: "int (length ?es) \<le> 2 * int (length (md_terminals md)) - 2" by simp
    from dfs_loop_total [OF o a0(3) embedded_placed [OF emb] cap dfs_inv_start [OF o a0(2)]]
    obtain out where out: "dfs_loop s (2 * int (length (md_terminals md)) - 2) [a0] [] = Some (Inr out)"
      "dfs_inv ?es e0 ?isT ch a0 [] out" by blast
    have leaf: "a = a'" if "own ?es e0 a" "own ?es e0 a'" "at_node ?es e0 a = at_node ?es e0 a'"
      "?isT (at_node ?es e0 a)" for a a'
    proof -
      from full at_node_in_nodes [OF E(2) that(1)] that(4) have "degree c (at_node ?es e0 a) = 1"
        by (auto simp: full_component_def)
      from leaf_unique [OF this that(1,2) refl that(3) [symmetric]] show ?thesis .
    qed
    from E(1) obtain r0 ns where "c_nodes c = r0 # ns" by (cases "c_nodes c") auto
    from grows_reroot [OF isTree_grows [OF E(2) this] a0(4)]
    have gr: "grows ?es {at_node ?es e0 a0} {} (set (c_nodes c)) {..<length ?es}" .
    have "(\<forall>k \<in> {..<length ?es}. \<exists>b \<in> set out. theEdge b = e0 + k)
     \<and> (\<forall>x \<in> set (c_nodes c). x = at_node ?es e0 a0
            \<or> (\<exists>b \<in> set out. x = at_node ?es e0 b \<or> x = at_node ?es e0 (twin b)))"
      by (rule dfs_complete [OF out(2) _ a0(3,2) gr]) (rule leaf)
    then have "\<forall>k \<in> {..<length ?es}. \<exists>b \<in> set out. theEdge b = e0 + k" by (rule conjunct1)
    then have all: "\<forall>k < length ?es. \<exists>b \<in> set out. theEdge b = e0 + k"
      by (simp only: Ball_def lessThan_iff)
    from dfs_invD(2) [OF out(2)] have "theEdge ` set out \<subseteq> {e0 ..< e0 + length ?es}"
      by (auto simp: own_def)
    moreover have "{e0 ..< e0 + length ?es} \<subseteq> theEdge ` set out"
    proof
      fix e assume "e \<in> {e0 ..< e0 + length ?es}"
      then have e: "e - e0 < length ?es" "e0 + (e - e0) = e" by auto
      from all e(1) obtain b where "b \<in> set out" "theEdge b = e0 + (e - e0)" by blast
      with e(2) show "e \<in> theEdge ` set out" by (intro image_eqI [where x = b]) simp_all
    qed
    ultimately have eq: "theEdge ` set out = {e0 ..< e0 + length ?es}" by (rule equalityI)
    from dfs_invD(3) [OF out(2)] have d: "distinct (map theEdge out)" by simp
    have "md_start md = Some a0 \<and> ends (m_graph s) (theEdge a0) \<noteq> None
     \<and> (if length (md_terminals md) = 2 then out = [twin a0]
         else dfs_loop s (2 * int (length (md_terminals md)) - 2) [a0] [] = Some (Inr out))
     \<and> distinct (map theEdge out) \<and> theEdge ` set out = {e0 ..< e0 + length (c_edges c)}"
      using st live out(1) False d eq by simp
    then show ?thesis by blast
  qed
qed

lemma ex_insert3: "insert_fc ex_store0 ex_path = Inr (Void, ex_store3)"
proof -
  have "\<not> isl (insert_fc ex_store0 ex_path)" by code_simp
  then obtain r s' where r: "insert_fc ex_store0 ex_path = Inr (r, s')"
    by (cases "insert_fc ex_store0 ex_path") auto
  then have "r = Void" by (auto elim: insert_fc_Inr)
  with r show ?thesis by (simp add: ex_store3_def after_def)
qed

lemma foreach_reach:
  assumes "reach s cs" "i < length cs" "full_component (m_isTerminal s) (cs ! i)"
  obtains e0 out where "foreachAdjEntry s (int i) = Some (Inr out)" "distinct (map theEdge out)"
    "theEdge ` set out = {e0 ..< e0 + length (c_edges (cs ! i))}"
    "\<forall>k < length (c_edges (cs ! i)). weight (m_graph s) (e0 + k) = snd (snd (c_edges (cs ! i) ! k))"
    "md_cost (m_components s ! i) = sum_list (map (\<lambda>e. snd (snd e)) (c_edges (cs ! i)))"
    "i < length (m_components s)"
proof -
  from reach_store_inv [OF assms(1)] obtain G where G: "map fst G = cs" "store_inv s G" by blast
  from store_inv_nth [OF G(2,1) assms(2)] obtain nc e0
    where emb: "embedded s (cs ! i, nc, e0) (m_components s ! i)" and i: "i < length (m_components s)"
    by metis
  let ?md = "m_components s ! i" and ?c = "cs ! i"
  note E = embeddedD [OF emb]
  from foreach_embedded [OF emb assms(3)] obtain a0 out
    where a0: "md_start ?md = Some a0" "ends (m_graph s) (theEdge a0) \<noteq> None"
      and lp: "if length (md_terminals ?md) = 2 then out = [twin a0]
         else dfs_loop s (2 * int (length (md_terminals ?md)) - 2) [a0] [] = Some (Inr out)"
      and out: "distinct (map theEdge out)" "theEdge ` set out = {e0 ..< e0 + length (c_edges ?c)}"
    by blast
  from full_component_bound [OF E(2,1) assms(3)] E(8)
  have k: "2 \<le> length (md_terminals ?md)" by simp
  have ca: "component_at s (int i) = Inr ?md" using i by (simp add: component_at_def)
  have f: "foreachAdjEntry s (int i) = Some (Inr out)"
  proof (cases "length (md_terminals ?md) = 2")
    case True
    with lp a0 ca show ?thesis by (simp add: foreachAdjEntry_def)
  next
    case False
    with k have "push_all (2 * int (length (md_terminals ?md)) - 2) [] [a0] = Inr [a0]" by simp
    with False lp a0 ca show ?thesis by (simp add: foreachAdjEntry_def Let_def)
  qed
  from E(4) have w: "\<forall>k < length (c_edges ?c). weight (m_graph s) (e0 + k) = snd (snd (c_edges ?c ! k))"
    by blast
  show ?thesis by (rule that [OF f out w E(7) i])
qed

section \<open>The walk of remove on a full component\<close>

lemma dfs_inv_fresh:
  assumes o: "oriented es ch r" and inv: "dfs_inv es e0 isT ch a0 (a # st) out" and b: "b \<in> set out"
  shows "at_node es e0 (twin a) \<noteq> at_node es e0 b"
proof
  assume eq: "at_node es e0 (twin a) = at_node es e0 b"
  note D = dfs_invD [OF inv]
  from D(1) [of a] have ta: "own es e0 (twin a)" "down es e0 ch (twin (twin a))" by simp_all
  from D(2) [OF b] have ob: "own es e0 b" "down es e0 ch (twin b)" by simp_all
  from child_unique [OF o ta(1) ob(1) ta(2) ob(2) eq] have "theEdge a = theEdge b" by simp
  with D(3) b show False by auto
qed

lemma dfs_inv_edges:
  assumes "dfs_inv es e0 isT ch a0 (rev others @ st) (out @ [twin a])" "x \<in> set others"
  shows "theEdge x \<notin> theEdge ` set ((a # st) @ out)"
proof -
  from dfs_invD(3) [OF assms(1)]
  have "theEdge ` set others \<inter> theEdge ` set (st @ out @ [twin a]) = {}"
    by (simp add: image_Un Int_Un_distrib)
  with assms(2) have "theEdge x \<notin> theEdge ` set (st @ out @ [twin a])" by blast
  then show ?thesis by (auto simp: image_Un)
qed

lemma theNode_rg: "theEdge a \<notin> X \<Longrightarrow> theNode (rg g X N) a = theNode g a"
  by (simp add: theNode_def rg_simps)

lemma placed_node_of:
  assumes "placed s es nc e0" "own es e0 a"
  shows "nc (at_node es e0 a) = Some (node_of nc es e0 a)"
    and "theNode (m_graph s) a = Some (node_of nc es e0 a)"
    and "m_nodeOrig s (node_of nc es e0 a) = Some (at_node es e0 a)"
    and "\<not> m_isTerminal s (at_node es e0 a) \<Longrightarrow>
           adjEntries (m_graph s) (node_of nc es e0 a) = incident nc (node_of nc es e0 a) e0 es"
proof -
  from placedD [OF assms] obtain y where y: "nc (at_node es e0 a) = Some y"
    "theNode (m_graph s) a = Some y" "m_nodeOrig s y = Some (at_node es e0 a)"
    "\<not> m_isTerminal s (at_node es e0 a) \<Longrightarrow> adjEntries (m_graph s) y = incident nc y e0 es"
    by metis
  from y(1) have n: "node_of nc es e0 a = y" by (simp add: node_of_def)
  show "nc (at_node es e0 a) = Some (node_of nc es e0 a)" unfolding n by (rule y(1))
  show "theNode (m_graph s) a = Some (node_of nc es e0 a)" unfolding n by (rule y(2))
  show "m_nodeOrig s (node_of nc es e0 a) = Some (at_node es e0 a)" unfolding n by (rule y(3))
  show "adjEntries (m_graph s) (node_of nc es e0 a) = incident nc (node_of nc es e0 a) e0 es"
    if "\<not> m_isTerminal s (at_node es e0 a)" unfolding n using that by (rule y(4))
qed

lemma remove_step:
  assumes o: "oriented es ch (at_node es e0 a0)" and t0: "m_isTerminal s (at_node es e0 a0)"
    and p: "placed s es nc e0" and wf: "wf_graph (m_graph s)"
    and live: "\<And>a. own es e0 a \<Longrightarrow> node_of nc es e0 a \<in> set (nodes (m_graph s))"
    and cap: "int (length es) \<le> cap + 1"
    and inv: "dfs_inv es e0 (m_isTerminal s) ch a0 (a # st) out"
  shows "\<exists>st'. remove_loop (walk_store s nc es e0 (a # st) out) cap (map (\<lambda>a. node_of nc es e0 (twin a)) (a # st))
              = remove_loop (walk_store s nc es e0 st' (out @ [twin a])) cap (map (\<lambda>a. node_of nc es e0 (twin a)) st')
            \<and> dfs_inv es e0 (m_isTerminal s) ch a0 st' (out @ [twin a])"
proof -
  let ?f = "\<lambda>a. node_of nc es e0 (twin a)"
  let ?isT = "m_isTerminal s"
  let ?X = "theEdge ` set ((a # st) @ out)"
  let ?N = "node_of nc es e0 ` {b \<in> set out. \<not> ?isT (at_node es e0 b)}"
  let ?g = "rg (m_graph s) ?X ?N"
  let ?y = "node_of nc es e0 (twin a)"
  note D = dfs_invD [OF inv]
  from D(1) [of a] have a: "own es e0 (twin a)" by simp
  note Y = placed_node_of [OF p a]
  have ws: "walk_store s nc es e0 (a # st) out = s\<lparr> m_graph := ?g \<rparr>" by (simp add: walk_store_def)
  have yN: "?y \<notin> ?N"
  proof
    assume "?y \<in> ?N"
    then obtain b where b: "b \<in> set out" "?y = node_of nc es e0 b" by auto
    from D(2) [OF b(1)] have ob: "own es e0 b" by simp
    from placed_node_of(1) [OF p ob] Y(1) b(2)
    have "nc (at_node es e0 (twin a)) = nc (at_node es e0 b)" by simp
    from placed_inj [OF p a ob this] dfs_inv_fresh [OF o inv b(1)] show False by simp
  qed
  with live [OF a] have vlive: "?y \<in> set (nodes ?g)" by (simp add: rg_simps)
  have it: "isTerminal_node (s\<lparr> m_graph := ?g \<rparr>) ?y = Inr (?isT (at_node es e0 (twin a)))"
    using Y(3) by (simp add: isTerminal_node_def)
  show ?thesis
  proof (cases "?isT (at_node es e0 (twin a))")
    case True
    from dfs_inv_terminal [OF inv True]
    have inv': "dfs_inv es e0 ?isT ch a0 st (out @ [twin a])" .
    have X: "theEdge ` set (st @ out @ [twin a]) = ?X" by auto
    have N: "node_of nc es e0 ` {b \<in> set (out @ [twin a]). \<not> ?isT (at_node es e0 b)} = ?N"
      using True by auto
    have ws': "walk_store s nc es e0 st (out @ [twin a]) = s\<lparr> m_graph := ?g \<rparr>"
      unfolding walk_store_def X N ..
    have "remove_loop (walk_store s nc es e0 (a # st) out) cap (map ?f (a # st))
            = remove_loop (walk_store s nc es e0 st (out @ [twin a])) cap (map ?f st)"
      unfolding ws ws' using vlive it True by simp
    with inv' show ?thesis by blast
  next
    case False
    define others where "others = filter (\<lambda>x. x \<noteq> twin a) (incident nc ?y e0 es)"
    from Y(4) [OF False] have adj0: "adjEntries (m_graph s) ?y = incident nc ?y e0 es" .
    have os: "set others = {a'. own es e0 a' \<and> at_node es e0 a' = at_node es e0 (twin a) \<and> a' \<noteq> twin a}"
    proof (rule set_eqI)
      fix x
      have "x \<in> set others \<longleftrightarrow> own es e0 x \<and> nc (at_node es e0 x) = Some ?y \<and> x \<noteq> twin a"
        by (auto simp: others_def incident_iff)
      also have "\<dots> \<longleftrightarrow> own es e0 x \<and> at_node es e0 x = at_node es e0 (twin a) \<and> x \<noteq> twin a"
        using placed_inj [OF p _ a, of x] Y(1) by metis
      finally show "x \<in> set others \<longleftrightarrow> x \<in> {a'. own es e0 a' \<and> at_node es e0 a' = at_node es e0 (twin a) \<and> a' \<noteq> twin a}"
        by simp
    qed
    have d: "distinct others" by (simp add: others_def incident_distinct)
    from dfs_inv_expand [OF o t0 inv False os d]
    have inv': "dfs_inv es e0 ?isT ch a0 (rev others @ st) (out @ [twin a])" .
    have inc: "set (incident nc ?y e0 es) = insert (twin a) (set others)"
      using a Y(1) by (auto simp: others_def incident_iff)
    have adj: "adjEntries ?g ?y = others"
    proof -
      have "filter (\<lambda>x. theEdge x \<notin> ?X) (incident nc ?y e0 es) = others"
        unfolding others_def
      proof (rule filter_cong [OF refl])
        fix x assume "x \<in> set (incident nc ?y e0 es)"
        with inc have x: "x = twin a \<or> x \<in> set others" by simp
        show "(theEdge x \<notin> ?X) = (x \<noteq> twin a)"
        proof (cases "x = twin a")
          case True
          then show ?thesis by simp
        next
          case False
          with x have "x \<in> set others" by simp
          from dfs_inv_edges [OF inv' this] False show ?thesis by simp
        qed
      qed
      then show ?thesis by (simp add: rg_simps adj0)
    qed
    have tw: "twinNode ?g x = Some (?f x)" if "x \<in> set others" for x
    proof -
      from dfs_inv_edges [OF inv' that] have "theEdge (twin x) \<notin> ?X" by simp
      from theNode_rg [OF this] have "theNode ?g (twin x) = theNode (m_graph s) (twin x)" .
      moreover from that os have "own es e0 (twin x)" by simp
      from placed_node_of(2) [OF p this] have "theNode (m_graph s) (twin x) = Some (?f x)" .
      ultimately show ?thesis by (simp add: twinNode_def)
    qed
    have "\<forall>x \<in> set others. twinNode ?g x \<noteq> None"
    proof
      fix x assume "x \<in> set others"
      from tw [OF this] show "twinNode ?g x \<noteq> None" by (simp only: option.distinct not_False_eq_True)
    qed
    then have "twinNodes ?g others = Some (map (\<lambda>x. the (twinNode ?g x)) others)"
      by (rule twinNodes_total)
    also have "map (\<lambda>x. the (twinNode ?g x)) others = map ?f others"
    proof (rule map_cong [OF refl])
      fix x assume "x \<in> set others"
      from tw [OF this] show "the (twinNode ?g x) = ?f x" by (simp only: option.sel)
    qed
    finally have tn: "twinNodes ?g others = Some (map ?f others)" .
    from dfs_inv_length [OF inv'] cap have "int (length (map ?f st) + length (map ?f others)) \<le> cap" by simp
    from push_all_ok [OF this]
    have push: "push_all cap (map ?f st) (map ?f others) = Inr (map ?f (rev others @ st))"
      by (simp add: rev_map)
    have X: "?X \<union> theEdge ` set (adjEntries (m_graph s) ?y)
               = theEdge ` set ((rev others @ st) @ out @ [twin a])"
      unfolding adj0 inc by auto
    have N: "insert ?y ?N = node_of nc es e0 ` {b \<in> set (out @ [twin a]). \<not> ?isT (at_node es e0 b)}"
      using False by auto
    have del: "delNode ?g ?y = rg (m_graph s) (theEdge ` set ((rev others @ st) @ out @ [twin a]))
                 (node_of nc es e0 ` {b \<in> set (out @ [twin a]). \<not> ?isT (at_node es e0 b)})"
      unfolding delNode_rg [OF wf] X N ..
    have ws': "walk_store s nc es e0 (rev others @ st) (out @ [twin a])
                 = s\<lparr> m_graph := delNode ?g ?y \<rparr>"
      unfolding del by (simp add: walk_store_def)
    have "remove_loop (walk_store s nc es e0 (a # st) out) cap (map ?f (a # st))
            = remove_loop (walk_store s nc es e0 (rev others @ st) (out @ [twin a])) cap (map ?f (rev others @ st))"
      unfolding ws ws' using vlive it False adj tn push by simp
    with inv' show ?thesis by blast
  qed
qed

lemma remove_loop_total:
  assumes o: "oriented es ch (at_node es e0 a0)" and t0: "m_isTerminal s (at_node es e0 a0)"
    and p: "placed s es nc e0" and wf: "wf_graph (m_graph s)"
    and live: "\<And>a. own es e0 a \<Longrightarrow> node_of nc es e0 a \<in> set (nodes (m_graph s))"
    and cap: "int (length es) \<le> cap + 1"
  shows "dfs_inv es e0 (m_isTerminal s) ch a0 stack out \<Longrightarrow>
     \<exists>s'. remove_loop (walk_store s nc es e0 stack out) cap (map (\<lambda>a. node_of nc es e0 (twin a)) stack) = Inr s'"
proof (induction "length es - length out" arbitrary: stack out rule: less_induct)
  case less
  show ?case
  proof (cases stack)
    case Nil
    then show ?thesis by simp
  next
    case (Cons a st)
    from remove_step [OF o t0 p wf live cap less.prems [unfolded Cons]]
    obtain st' where st': "remove_loop (walk_store s nc es e0 (a # st) out) cap (map (\<lambda>a. node_of nc es e0 (twin a)) (a # st))
              = remove_loop (walk_store s nc es e0 st' (out @ [twin a])) cap (map (\<lambda>a. node_of nc es e0 (twin a)) st')"
      "dfs_inv es e0 (m_isTerminal s) ch a0 st' (out @ [twin a])" by blast
    from dfs_inv_length [OF less.prems] Cons have "length out < length es" by simp
    then have "length es - length (out @ [twin a]) < length es - length out" by simp
    from less.hyps [OF this st'(2)] st'(1) show ?thesis unfolding Cons by simp
  qed
qed

lemma ex_insert4: "insert_fc ex_store0 ex_single = Inr (Void, ex_store4)"
proof -
  have "\<not> isl (insert_fc ex_store0 ex_single)" by code_simp
  then obtain r s' where r: "insert_fc ex_store0 ex_single = Inr (r, s')"
    by (cases "insert_fc ex_store0 ex_single") auto
  then have "r = Void" by (auto elim: insert_fc_Inr)
  with r show ?thesis by (simp add: ex_store4_def after_def)
qed

lemma embedded_live:
  assumes emb: "embedded s (c, nc, e0) md" and a: "own (c_edges c) e0 a"
  shows "node_of nc (c_edges c) e0 a \<in> set (nodes (m_graph s))"
proof -
  from at_node_in_nodes [OF embeddedD(2) [OF emb] a]
  have "at_node (c_edges c) e0 a \<in> set (c_nodes c)" .
  from embeddedD(3) [OF emb this] show ?thesis by (auto simp: node_of_def)
qed

lemma remove_in_graph_total:
  assumes emb: "embedded s (c, nc, e0) md" and full: "full_component (m_isTerminal s) c"
    and wf: "wf_graph (m_graph s)"
  shows "\<exists>a v s1. md_start md = Some a \<and> twinNode (m_graph s) a = Some v
     \<and> (length (md_terminals md) \<noteq> 2 \<longrightarrow>
           remove_loop (s\<lparr> m_graph := delEdge (m_graph s) (theEdge a) \<rparr>)
             (2 * int (length (md_terminals md)) - 3) [v] = Inr s1)
     \<and> (\<exists>s2. remove_in_graph s md = Inr s2)"
proof -
  let ?es = "c_edges c" and ?isT = "m_isTerminal s"
  let ?cap = "2 * int (length (md_terminals md)) - 3"
  note E = embeddedD [OF emb]
  from full_component_start [OF E(2,1) full, of e0] obtain a0
    where a0: "find_start ?isT e0 ?es = Some a0" "own ?es e0 a0" "?isT (at_node ?es e0 a0)"
      "at_node ?es e0 a0 \<in> set (c_nodes c)" by blast
  from a0(1) E(6) have st: "md_start md = Some a0" by simp
  note p = embedded_placed [OF emb]
  from a0(2) have ta: "own ?es e0 (twin a0)" by simp
  from placed_node_of(2) [OF p ta]
  have tw: "twinNode (m_graph s) a0 = Some (node_of nc ?es e0 (twin a0))" by (simp add: twinNode_def)
  then have lv: "ends (m_graph s) (theEdge a0) \<noteq> None"
    by (auto simp: twinNode_def theNode_def split: option.splits)
  have k: "length (md_terminals md) = length (filter ?isT (c_nodes c))" by (simp add: E(8))
  from full_component_bound [OF E(2,1) full] k
  have bound: "length ?es + 3 \<le> 2 * length (md_terminals md)" by simp
  from isTree_oriented [OF E(2) a0(4)] obtain ch where o: "oriented ?es ch (at_node ?es e0 a0)" ..
  from bound have cap: "int (length ?es) \<le> ?cap + 1" by simp
  from remove_loop_total [OF o a0(3) p wf embedded_live [OF emb] cap dfs_inv_start [OF o a0(2)]]
  obtain s1 where "remove_loop (walk_store s nc ?es e0 [a0] []) ?cap
      (map (\<lambda>a. node_of nc ?es e0 (twin a)) [a0]) = Inr s1" by blast
  moreover have "walk_store s nc ?es e0 [a0] [] = s\<lparr> m_graph := delEdge (m_graph s) (theEdge a0) \<rparr>"
    using delEdge_rg [OF wf, of "{}" "{}" "theEdge a0"] by (simp add: walk_store_def rg_empty)
  ultimately have loop: "remove_loop (s\<lparr> m_graph := delEdge (m_graph s) (theEdge a0) \<rparr>) ?cap
      [node_of nc ?es e0 (twin a0)] = Inr s1" by simp
  have "\<exists>s2. remove_in_graph s md = Inr s2"
  proof (cases "length (md_terminals md) = 2")
    case True
    with st lv show ?thesis by (simp add: remove_in_graph_def)
  next
    case False
    with bound have "push_all ?cap [] [node_of nc ?es e0 (twin a0)] = Inr [node_of nc ?es e0 (twin a0)]"
      by simp
    with False st lv tw loop show ?thesis by (simp add: remove_in_graph_def)
  qed
  with st tw loop show ?thesis by blast
qed

lemma remove_fc_total:
  assumes "reach s cs" "i < length cs" "full_component (m_isTerminal s) (cs ! i)"
  shows "\<exists>ts a v s1 s'. terminals s (int i) = Inr ts \<and> start s (int i) = Inr (Some a)
     \<and> twinNode (m_graph s) a = Some v
     \<and> (length ts \<noteq> 2 \<longrightarrow>
           remove_loop (s\<lparr> m_graph := delEdge (m_graph s) (theEdge a) \<rparr>) (2 * int (length ts) - 3) [v] = Inr s1)
     \<and> remove_fc s (int i) = Inr s'"
proof -
  from reach_store_inv [OF assms(1)] obtain G where G: "map fst G = cs" "store_inv s G" by blast
  from store_inv_nth [OF G(2,1) assms(2)] obtain nc e0
    where emb: "embedded s (cs ! i, nc, e0) (m_components s ! i)" and i: "i < length (m_components s)"
    by metis
  from G(2) have wf: "wf_graph (m_graph s)" by (simp add: store_inv_def base_inv_def)
  let ?md = "m_components s ! i"
  from remove_in_graph_total [OF emb assms(3) wf] obtain a v s1 s2
    where r: "md_start ?md = Some a" "twinNode (m_graph s) a = Some v"
      "length (md_terminals ?md) \<noteq> 2 \<longrightarrow>
           remove_loop (s\<lparr> m_graph := delEdge (m_graph s) (theEdge a) \<rparr>)
             (2 * int (length (md_terminals ?md)) - 3) [v] = Inr s1"
      "remove_in_graph s ?md = Inr s2" by blast
  from i have "terminals s (int i) = Inr (md_terminals ?md)" by (simp add: terminals_def)
  moreover from i r(1) have "start s (int i) = Inr (Some a)" by (simp add: start_def)
  moreover from i r(4) have "\<exists>s'. remove_fc s (int i) = Inr s'"
    by (simp add: remove_fc_def component_at_def)
  ultimately show ?thesis using r(2,3) by blast
qed

lemma remove_fc_table:
  assumes "remove_fc s i = Inr s'"
  shows "0 \<le> i \<and> i < size_fc s \<and> size_fc s' = size_fc s - 1
    \<and> (\<forall>j. 0 \<le> j \<and> j < size_fc s' \<longrightarrow>
          component_at s' j = component_at s (if j = i then size_fc s - 1 else j))"
proof -
  from assms obtain md s1 where md: "component_at s i = Inr md" and s1: "remove_in_graph s md = Inr s1"
    and s': "s' = s1\<lparr> m_components :=
                      (if int (length (m_components s1)) = i + 1 then butlast (m_components s1)
                       else (butlast (m_components s1))[nat i := last (m_components s1)]) \<rparr>"
    by (auto simp: remove_fc_def split: sum.splits)
  have c: "m_components s1 = m_components s" using s1 by (rule remove_in_graph_components)
  from md have i: "0 \<le> i" "i < int (length (m_components s))"
    by (auto simp: component_at_def split: if_splits)
  then have ne: "m_components s \<noteq> []" by auto
  have len: "length (m_components s') = length (m_components s) - 1"
    by (simp add: s' c)
  show ?thesis
  proof (intro conjI allI impI)
    show "0 \<le> i" by fact
    show "i < size_fc s" using i by (simp add: size_fc_def)
    show "size_fc s' = size_fc s - 1"
      using ne by (cases "m_components s") (auto simp add: size_fc_def len)
    fix j assume j: "0 \<le> j \<and> j < size_fc s'"
    then have jl: "nat j < length (m_components s) - 1"
      by (auto simp: size_fc_def len nat_less_iff)
    show "component_at s' j = component_at s (if j = i then size_fc s - 1 else j)"
    proof (cases "j = i")
      case True
      then have "int (length (m_components s)) \<noteq> i + 1" using jl j by auto
      then show ?thesis using True jl j ne
        by (auto simp: component_at_def size_fc_def s' c last_conv_nth nat_diff_distrib)
    next
      case False
      then have "nat j \<noteq> nat i" using j i by auto
      then show ?thesis using False jl j ne
        by (auto simp: component_at_def size_fc_def s' c nth_butlast)
    qed
  qed
qed

section \<open>The losses of full components\<close>

lemma findLossTerminal_total:
  fixes rank :: "node \<Rightarrow> nat"
  assumes H: "\<And>u e. u \<notin> D \<Longrightarrow> pred u = Some e \<Longrightarrow> \<exists>v. opposite g e u = Some v \<and> rank v < rank u"
    and lt: "\<forall>u \<in> D. lt u \<noteq> None"
  shows "\<exists>t lt'. findLossTerminal g pred lt n = Some (Inr (t, lt')) \<and> (\<forall>u \<in> D. lt' u \<noteq> None)"
proof (induction "rank n" arbitrary: n rule: less_induct)
  case less
  show ?case
  proof (cases "lt n")
    case (Some t)
    with lt show ?thesis by (subst findLossTerminal.simps) simp
  next
    case None
    with lt have uD: "n \<notin> D" by auto
    show ?thesis
    proof (cases "pred n")
      case None
      with \<open>lt n = None\<close> lt show ?thesis by (subst findLossTerminal.simps) simp
    next
      case (Some e)
      from H [OF uD Some] obtain v where v: "opposite g e n = Some v" "rank v < rank n" by blast
      from less.hyps [OF v(2)] obtain t lt' where r: "findLossTerminal g pred lt v = Some (Inr (t, lt'))"
        "\<forall>u \<in> D. lt' u \<noteq> None" by blast
      from r(2) uD have "\<forall>x \<in> D. (lt'(n := t)) x \<noteq> None" by auto
      moreover have "findLossTerminal g pred lt n = Some (Inr (t, lt'(n := t)))"
        by (subst findLossTerminal.simps) (simp add: \<open>lt n = None\<close> Some v(1) r(1))
      ultimately show ?thesis by blast
    qed
  qed
qed

lemma loss_visit_total:
  fixes rank :: "node \<Rightarrow> nat" and x :: "'w::comm_monoid_add LossMetadata"
  assumes H: "\<And>u e. u \<notin> D \<Longrightarrow> pred u = Some e \<Longrightarrow> \<exists>v. opposite g e u = Some v \<and> rank v < rank u"
  shows "\<forall>u \<in> D. lt u \<noteq> None \<Longrightarrow> \<forall>a \<in> set as. ends g (theEdge a) \<noteq> None \<Longrightarrow>
     \<exists>x' lt'. loss_visit g pred isLossEdge x lt as = Some (Inr (x', lt')) \<and> (\<forall>u \<in> D. lt' u \<noteq> None)"
proof (induction as arbitrary: x lt)
  case Nil
  then show ?case by simp
next
  case (Cons a as)
  show ?case
  proof (cases "isLossEdge (theEdge a)")
    case True
    from Cons.IH [OF Cons.prems(1), of "LossMetadata (loss_of x + weight g (theEdge a)) (bridges_of x)"]
      Cons.prems(2) True show ?thesis by simp
  next
    case False
    from Cons.prems(2) obtain u v where uv: "ends g (theEdge a) = Some (u, v)" by fastforce
    from findLossTerminal_total [OF H Cons.prems(1), where n = u] obtain t1 lt1
      where 1: "findLossTerminal g pred lt u = Some (Inr (t1, lt1))" "\<forall>u \<in> D. lt1 u \<noteq> None" by blast
    from findLossTerminal_total [OF H 1(2), where n = v] obtain t2 lt2
      where 2: "findLossTerminal g pred lt1 v = Some (Inr (t2, lt2))" "\<forall>u \<in> D. lt2 u \<noteq> None" by blast
    from Cons.IH [OF 2(2), of "LossMetadata (loss_of x) (bridges_of x @ [theEdge a])"] Cons.prems(2)
    show ?thesis using False uv 1(1) 2(1) by simp
  qed
qed

lemma loss_visit_sum:
  fixes x :: "'w::comm_monoid_add LossMetadata"
  shows "loss_visit g pred isLossEdge x lt as = Some (Inr (x', lt')) \<Longrightarrow>
     loss_of x' + sum_list (map (weight g) (bridges_of x'))
       = loss_of x + sum_list (map (weight g) (bridges_of x)) + sum_list (map (\<lambda>a. weight g (theEdge a)) as)"
proof (induction as arbitrary: x lt)
  case Nil
  then show ?case by simp
next
  case (Cons a as)
  show ?case
  proof (cases "isLossEdge (theEdge a)")
    case True
    with Cons.prems have "loss_visit g pred isLossEdge
        (LossMetadata (loss_of x + weight g (theEdge a)) (bridges_of x)) lt as = Some (Inr (x', lt'))"
      by simp
    from Cons.IH [OF this] show ?thesis by (simp add: ac_simps)
  next
    case False
    with Cons.prems obtain lt2 where "loss_visit g pred isLossEdge
        (LossMetadata (loss_of x) (bridges_of x @ [theEdge a])) lt2 as = Some (Inr (x', lt'))"
      by (auto split: option.splits sum.splits prod.splits)
    from Cons.IH [OF this] show ?thesis by (simp add: ac_simps)
  qed
qed

lemma zero_edges_props:
  "zero_edges s sC vs lt zs = Inr (s1, lt1, zs1) \<Longrightarrow>
     s1 = s\<lparr> m_graph := m_graph s1 \<rparr>
     \<and> nodes (m_graph s1) = nodes (m_graph s)
     \<and> edgeIdCount (m_graph s) \<le> edgeIdCount (m_graph s1)
     \<and> (\<forall>e < edgeIdCount (m_graph s). weight (m_graph s1) e = weight (m_graph s) e)
     \<and> (\<forall>e. ends (m_graph s1) e = ends (m_graph s) e
            \<or> (edgeIdCount (m_graph s) \<le> e \<and> (\<exists>v \<in> set vs. ends (m_graph s1) e = Some (sC, the (m_nodeCopy s v)))))
     \<and> set zs1 \<subseteq> set zs \<union> {edgeIdCount (m_graph s) ..}
     \<and> (\<forall>y. y \<noteq> sC \<and> (\<forall>v \<in> set vs. m_nodeCopy s v \<noteq> Some y)
            \<longrightarrow> adjEntries (m_graph s1) y = adjEntries (m_graph s) y)
     \<and> (\<forall>u. lt u \<noteq> None \<or> (\<exists>v \<in> set vs. m_nodeCopy s v = Some u) \<longrightarrow> lt1 u \<noteq> None)
     \<and> (wf_graph (m_graph s) \<longrightarrow> wf_graph (m_graph s1))"
proof (induction vs arbitrary: s lt zs)
  case Nil
  then show ?case by auto
next
  case (Cons v vs)
  from Cons.prems obtain vC where vC: "m_nodeCopy s v = Some vC"
    and live: "sC \<in> set (nodes (m_graph s))" "vC \<in> set (nodes (m_graph s))"
    by (auto split: option.splits if_splits)
  let ?g = "fst (newEdge (m_graph s) sC vC 0)"
  let ?s = "s\<lparr> m_graph := ?g \<rparr>"
  have e: "snd (newEdge (m_graph s) sC vC 0) = edgeIdCount (m_graph s)" by (simp add: newEdge_def Let_def)
  from Cons.prems vC live
  have rec: "zero_edges ?s sC vs (lt(vC := Some v)) (zs @ [edgeIdCount (m_graph s)]) = Inr (s1, lt1, zs1)"
    by (simp add: case_prod_beta e)
  note IH = Cons.IH [OF rec]
  from IH have 1: "s1 = ?s\<lparr> m_graph := m_graph s1 \<rparr>" by blast
  then have a: "s1 = s\<lparr> m_graph := m_graph s1 \<rparr>" by simp
  from IH have b: "nodes (m_graph s1) = nodes (m_graph s)" by (simp add: newEdge_simps)
  from IH have c: "edgeIdCount (m_graph s) \<le> edgeIdCount (m_graph s1)" by (simp add: newEdge_simps)
  from IH have "\<forall>e < edgeIdCount ?g. weight (m_graph s1) e = weight ?g e" by simp
  then have d: "\<forall>e < edgeIdCount (m_graph s). weight (m_graph s1) e = weight (m_graph s) e"
    by (simp add: newEdge_simps)
  from IH have e1: "\<forall>e. ends (m_graph s1) e = ends ?g e
            \<or> (edgeIdCount ?g \<le> e \<and> (\<exists>v \<in> set vs. ends (m_graph s1) e = Some (sC, the (m_nodeCopy s v))))"
    by simp
  have ee: "\<forall>e. ends (m_graph s1) e = ends (m_graph s) e
            \<or> (edgeIdCount (m_graph s) \<le> e \<and> (\<exists>x \<in> set (v # vs). ends (m_graph s1) e = Some (sC, the (m_nodeCopy s x))))"
  proof
    fix e
    from e1 have "ends (m_graph s1) e = ends ?g e
            \<or> (edgeIdCount ?g \<le> e \<and> (\<exists>v \<in> set vs. ends (m_graph s1) e = Some (sC, the (m_nodeCopy s v))))" ..
    then show "ends (m_graph s1) e = ends (m_graph s) e
            \<or> (edgeIdCount (m_graph s) \<le> e \<and> (\<exists>x \<in> set (v # vs). ends (m_graph s1) e = Some (sC, the (m_nodeCopy s x))))"
    proof
      assume "ends (m_graph s1) e = ends ?g e"
      then show ?thesis using vC by (cases "e = edgeIdCount (m_graph s)") (simp_all add: newEdge_simps)
    next
      assume "edgeIdCount ?g \<le> e \<and> (\<exists>v \<in> set vs. ends (m_graph s1) e = Some (sC, the (m_nodeCopy s v)))"
      then show ?thesis by (auto simp: newEdge_simps)
    qed
  qed
  from IH have "set zs1 \<subseteq> set (zs @ [edgeIdCount (m_graph s)]) \<union> {edgeIdCount ?g ..}" by simp
  then have f: "set zs1 \<subseteq> set zs \<union> {edgeIdCount (m_graph s) ..}" by (auto simp: newEdge_simps)
  from IH have g1: "\<forall>y. y \<noteq> sC \<and> (\<forall>v \<in> set vs. m_nodeCopy s v \<noteq> Some y)
            \<longrightarrow> adjEntries (m_graph s1) y = adjEntries ?g y" by simp
  have g: "\<forall>y. y \<noteq> sC \<and> (\<forall>x \<in> set (v # vs). m_nodeCopy s x \<noteq> Some y)
            \<longrightarrow> adjEntries (m_graph s1) y = adjEntries (m_graph s) y"
    using g1 vC by (auto simp: newEdge_simps)
  from IH have h1: "\<forall>u. (lt(vC := Some v)) u \<noteq> None \<or> (\<exists>v \<in> set vs. m_nodeCopy s v = Some u) \<longrightarrow> lt1 u \<noteq> None"
    by simp
  have h: "\<forall>u. lt u \<noteq> None \<or> (\<exists>x \<in> set (v # vs). m_nodeCopy s x = Some u) \<longrightarrow> lt1 u \<noteq> None"
  proof (intro allI impI)
    fix u assume "lt u \<noteq> None \<or> (\<exists>x \<in> set (v # vs). m_nodeCopy s x = Some u)"
    then have "(lt(vC := Some v)) u \<noteq> None \<or> (\<exists>v \<in> set vs. m_nodeCopy s v = Some u)"
      using vC by auto
    with h1 show "lt1 u \<noteq> None" by blast
  qed
  from IH have "wf_graph ?g \<longrightarrow> wf_graph (m_graph s1)" by simp
  with wf_graph_newEdge [OF _ live] have i: "wf_graph (m_graph s) \<longrightarrow> wf_graph (m_graph s1)" by blast
  from a b c d ee f g h i show ?case by blast
qed

lemma zero_edges_total:
  "sC \<in> set (nodes (m_graph s)) \<Longrightarrow>
   \<forall>v \<in> set vs. \<exists>vC. m_nodeCopy s v = Some vC \<and> vC \<in> set (nodes (m_graph s)) \<Longrightarrow>
     \<exists>s1 lt1 zs1. zero_edges s sC vs lt zs = Inr (s1, lt1, zs1)"
proof (induction vs arbitrary: s lt zs)
  case Nil
  then show ?case by simp
next
  case (Cons v vs)
  from Cons.prems(2) obtain vC where vC: "m_nodeCopy s v = Some vC" "vC \<in> set (nodes (m_graph s))" by auto
  let ?s = "s\<lparr> m_graph := fst (newEdge (m_graph s) sC vC 0) \<rparr>"
  have "sC \<in> set (nodes (m_graph ?s))" using Cons.prems(1) by (simp add: newEdge_simps)
  moreover have "\<forall>v \<in> set vs. \<exists>vC. m_nodeCopy ?s v = Some vC \<and> vC \<in> set (nodes (m_graph ?s))"
    using Cons.prems(2) by (simp add: newEdge_simps)
  ultimately obtain s1 lt1 zs1
    where "zero_edges ?s sC vs (lt(vC := Some v)) (zs @ [snd (newEdge (m_graph s) sC vC 0)]) = Inr (s1, lt1, zs1)"
    using Cons.IH by blast
  with vC Cons.prems(1) show ?case by (simp add: case_prod_beta)
qed

lemma fold_delEdge_edges_rg:
  assumes wf: "wf_graph g"
  shows "fold (\<lambda>e h. delEdge h e) zs (rg g X N) = rg g (X \<union> set zs) N"
  by (induction zs arbitrary: X) (simp_all add: delEdge_rg [OF wf])

lemma embedded_graph_frame:
  assumes emb: "embedded s (c, nc, e0) md"
    and n: "nodes g' = nodes (m_graph s)"
    and c: "edgeIdCount (m_graph s) \<le> edgeIdCount g'"
    and e: "\<And>e. e < edgeIdCount (m_graph s) \<Longrightarrow> ends g' e = ends (m_graph s) e \<and> weight g' e = weight (m_graph s) e"
    and a: "\<And>y x. m_nodeOrig s y = Some x \<Longrightarrow> \<not> m_isTerminal s x \<Longrightarrow> adjEntries g' y = adjEntries (m_graph s) y"
  shows "embedded (s\<lparr> m_graph := g' \<rparr>) (c, nc, e0) md"
proof (rule embeddedI)
  note D = embeddedD [OF emb]
  show "c_nodes c \<noteq> []" "isTree c" by (rule D)+
  show "\<exists>y. nc x = Some y \<and> y \<in> set (nodes (m_graph (s\<lparr> m_graph := g' \<rparr>)))
               \<and> m_nodeOrig (s\<lparr> m_graph := g' \<rparr>) y = Some x
               \<and> (if m_isTerminal (s\<lparr> m_graph := g' \<rparr>) x then m_nodeCopy (s\<lparr> m_graph := g' \<rparr>) x = Some y
                   else adjEntries (m_graph (s\<lparr> m_graph := g' \<rparr>)) y = incident nc y e0 (c_edges c))"
    if "x \<in> set (c_nodes c)" for x
  proof -
    from D(3) [OF that] obtain y where y: "nc x = Some y" "y \<in> set (nodes (m_graph s))"
      "m_nodeOrig s y = Some x"
      "if m_isTerminal s x then m_nodeCopy s x = Some y
       else adjEntries (m_graph s) y = incident nc y e0 (c_edges c)" by blast
    show ?thesis
    proof (cases "m_isTerminal s x")
      case True
      with y n show ?thesis by simp
    next
      case False
      with a [OF y(3) False] y n show ?thesis by simp
    qed
  qed
  show "\<exists>u v. nc (fst (c_edges c ! k)) = Some u \<and> nc (fst (snd (c_edges c ! k))) = Some v
               \<and> ends (m_graph (s\<lparr> m_graph := g' \<rparr>)) (e0 + k) = Some (u, v)
               \<and> weight (m_graph (s\<lparr> m_graph := g' \<rparr>)) (e0 + k) = snd (snd (c_edges c ! k))"
    if "k < length (c_edges c)" for k
  proof -
    from that D(5) have "e0 + k < edgeIdCount (m_graph s)" by simp
    from e [OF this] D(4) [OF that] show ?thesis by simp
  qed
  show "e0 + length (c_edges c) \<le> edgeIdCount (m_graph (s\<lparr> m_graph := g' \<rparr>))" using D(5) c by simp
  show "md_start md = find_start (m_isTerminal (s\<lparr> m_graph := g' \<rparr>)) e0 (c_edges c)" using D(6) by simp
  show "md_cost md = sum_list (map (\<lambda>e. snd (snd e)) (c_edges c))" by (rule D(7))
  show "md_terminals md = sort (filter (m_isTerminal (s\<lparr> m_graph := g' \<rparr>)) (c_nodes c))" using D(8) by simp
qed

lemma embedded_extra [simp]:
  "embedded s gh (md\<lparr> md_extra := x \<rparr>) = embedded s gh md"
  by (simp add: embedded_def)

lemma wf_edge_bound: "wf_graph g \<Longrightarrow> ends g e = Some (u, v) \<Longrightarrow> e < edgeIdCount g"
  by (auto simp: wf_graph_def)

lemma foreach_store:
  fixes s :: "('w::comm_monoid_add, 'x) FullComponentStore"
  assumes emb: "embedded s (c, nc, e0) (m_components s ! i)" and i: "i < length (m_components s)"
    and full: "full_component (m_isTerminal s) c"
  shows "\<exists>out. foreachAdjEntry s (int i) = Some (Inr out)
     \<and> (\<forall>a \<in> set out. ends (m_graph s) (theEdge a) \<noteq> None)
     \<and> sum_list (map (\<lambda>a. weight (m_graph s) (theEdge a)) out) = md_cost (m_components s ! i)"
proof -
  let ?md = "m_components s ! i"
  note E = embeddedD [OF emb]
  from foreach_embedded [OF emb full] obtain a0 out
    where a0: "md_start ?md = Some a0" "ends (m_graph s) (theEdge a0) \<noteq> None"
      and lp: "if length (md_terminals ?md) = 2 then out = [twin a0]
         else dfs_loop s (2 * int (length (md_terminals ?md)) - 2) [a0] [] = Some (Inr out)"
      and out: "distinct (map theEdge out)" "theEdge ` set out = {e0 ..< e0 + length (c_edges c)}"
    by blast
  from full_component_bound [OF E(2,1) full] E(8)
  have k: "2 \<le> length (md_terminals ?md)" by simp
  have ca: "component_at s (int i) = Inr ?md" using i by (simp add: component_at_def)
  have f: "foreachAdjEntry s (int i) = Some (Inr out)"
  proof (cases "length (md_terminals ?md) = 2")
    case True
    with lp a0 ca show ?thesis by (simp add: foreachAdjEntry_def)
  next
    case False
    with k have "push_all (2 * int (length (md_terminals ?md)) - 2) [] [a0] = Inr [a0]" by simp
    with False lp a0 ca show ?thesis by (simp add: foreachAdjEntry_def Let_def)
  qed
  have w: "\<forall>k < length (c_edges c). weight (m_graph s) (e0 + k) = snd (snd (c_edges c ! k))"
    using E(4) by blast
  have lv: "\<forall>a \<in> set out. ends (m_graph s) (theEdge a) \<noteq> None"
  proof
    fix a assume "a \<in> set out"
    with out(2) have "theEdge a \<in> {e0 ..< e0 + length (c_edges c)}" by blast
    then have "theEdge a - e0 < length (c_edges c)" "e0 + (theEdge a - e0) = theEdge a" by auto
    with E(4) [of "theEdge a - e0"] show "ends (m_graph s) (theEdge a) \<noteq> None" by auto
  qed
  from out(2) have e': "set (map theEdge out) = {e0 ..< e0 + length (c_edges c)}" by simp
  from sum_list_weights [OF out(1) e' w]
  have "sum_list (map (weight (m_graph s)) (map theEdge out)) = md_cost ?md" by (simp only: E(7))
  then have "sum_list (map (\<lambda>a. weight (m_graph s) (theEdge a)) out) = md_cost ?md"
    by (simp add: comp_def)
  with f lv show ?thesis by blast
qed

lemma loss_all_correct:
  fixes s :: "('w::comm_monoid_add, 'w LossMetadata) FullComponentStore" and rank :: "node \<Rightarrow> nat"
  assumes H: "\<And>u e. u \<notin> D \<Longrightarrow> pred u = Some e \<Longrightarrow> \<exists>v. opposite g e u = Some v \<and> rank v < rank u"
  shows "m_graph s = g \<Longrightarrow> length G = length (m_components s)
     \<Longrightarrow> \<forall>i < length G. embedded s (G ! i) (m_components s ! i)
            \<and> full_component (m_isTerminal s) (fst (G ! i))
     \<Longrightarrow> \<forall>u \<in> D. lt u \<noteq> None \<Longrightarrow> set js \<subseteq> {..<length G} \<Longrightarrow> distinct js
     \<Longrightarrow> \<forall>i \<in> set js. md_extra (m_components s ! i) = LossMetadata 0 []
     \<Longrightarrow> \<exists>ls'. loss_all s pred isLossEdge lt js = Some (Inr ls') \<and> m_graph (fcs ls') = g
           \<and> length (m_components (fcs ls')) = length G
           \<and> (\<forall>i < length G. md_cost (m_components (fcs ls') ! i) = md_cost (m_components s ! i)
                \<and> (i \<in> set js \<longrightarrow> balanced g (m_components (fcs ls') ! i))
                \<and> (i \<notin> set js \<longrightarrow> m_components (fcs ls') ! i = m_components s ! i))"
proof (induction js arbitrary: s lt)
  case Nil
  then show ?case by simp
next
  case (Cons i js)
  let ?cs = "m_components s"
  from Cons.prems(5) have i: "i < length G" by simp
  with Cons.prems(2) have il: "i < length ?cs" by simp
  obtain c nc e0 where gh: "G ! i = (c, nc, e0)" by (cases "G ! i")
  from Cons.prems(3) i gh have emb: "embedded s (c, nc, e0) (?cs ! i)"
    and full: "full_component (m_isTerminal s) c" by auto
  from foreach_store [OF emb il full] obtain out
    where out: "foreachAdjEntry s (int i) = Some (Inr out)"
      "\<forall>a \<in> set out. ends (m_graph s) (theEdge a) \<noteq> None"
      "sum_list (map (\<lambda>a. weight (m_graph s) (theEdge a)) out) = md_cost (?cs ! i)" by blast
  from out(2) Cons.prems(1) have lv: "\<forall>a \<in> set out. ends g (theEdge a) \<noteq> None" by simp
  from loss_visit_total [OF H Cons.prems(4) lv, where isLossEdge = isLossEdge and x = "md_extra (?cs ! i)"]
  obtain x lt' where x: "loss_visit g pred isLossEdge (md_extra (?cs ! i)) lt out = Some (Inr (x, lt'))"
    "\<forall>u \<in> D. lt' u \<noteq> None" by blast
  from Cons.prems(7) have x0: "md_extra (?cs ! i) = LossMetadata 0 []" by simp
  from loss_visit_sum [OF x(1)] out(3) Cons.prems(1)
  have bal: "loss_of x + sum_list (map (weight g) (bridges_of x)) = md_cost (?cs ! i)"
    by (simp add: x0)
  let ?s' = "s\<lparr> m_components := ?cs[i := (?cs ! i)\<lparr> md_extra := x \<rparr>] \<rparr>"
  have step: "loss_all s pred isLossEdge lt (i # js) = loss_all ?s' pred isLossEdge lt' js"
    using out(1) x(1) Cons.prems(1) by simp
  have 1: "m_graph ?s' = g" using Cons.prems(1) by simp
  have 2: "length G = length (m_components ?s')" using Cons.prems(2) by simp
  have 3: "\<forall>j < length G. embedded ?s' (G ! j) (m_components ?s' ! j)
            \<and> full_component (m_isTerminal ?s') (fst (G ! j))"
  proof (intro allI impI)
    fix j assume j: "j < length G"
    with Cons.prems(3) have e: "embedded s (G ! j) (?cs ! j)"
      and f: "full_component (m_isTerminal s) (fst (G ! j))" by auto
    from e j Cons.prems(2) have "embedded ?s' (G ! j) (m_components ?s' ! j)"
      by (cases "j = i") simp_all
    with f show "embedded ?s' (G ! j) (m_components ?s' ! j)
            \<and> full_component (m_isTerminal ?s') (fst (G ! j))" by simp
  qed
  from Cons.prems(5) have 5: "set js \<subseteq> {..<length G}" by simp
  from Cons.prems(6) have 6: "distinct js" and ni: "i \<notin> set js" by simp_all
  have 7: "\<forall>j \<in> set js. md_extra (m_components ?s' ! j) = LossMetadata 0 []"
  proof
    fix j assume j: "j \<in> set js"
    with ni have "j \<noteq> i" by auto
    then have "m_components ?s' ! j = ?cs ! j" by simp
    with Cons.prems(7) j show "md_extra (m_components ?s' ! j) = LossMetadata 0 []" by simp
  qed
  from Cons.IH [OF 1 2 3 x(2) 5 6 7] obtain ls'
    where r: "loss_all ?s' pred isLossEdge lt' js = Some (Inr ls')" "m_graph (fcs ls') = g"
      "length (m_components (fcs ls')) = length G"
      and all: "\<forall>j < length G. md_cost (m_components (fcs ls') ! j) = md_cost (m_components ?s' ! j)
                \<and> (j \<in> set js \<longrightarrow> balanced g (m_components (fcs ls') ! j))
                \<and> (j \<notin> set js \<longrightarrow> m_components (fcs ls') ! j = m_components ?s' ! j)"
    by blast
  have "md_cost (m_components (fcs ls') ! j) = md_cost (?cs ! j)
                \<and> (j \<in> set (i # js) \<longrightarrow> balanced g (m_components (fcs ls') ! j))
                \<and> (j \<notin> set (i # js) \<longrightarrow> m_components (fcs ls') ! j = ?cs ! j)"
    if j: "j < length G" for j
  proof (cases "j = i")
    case True
    from all i ni have "m_components (fcs ls') ! i = m_components ?s' ! i" by blast
    with il have fin: "m_components (fcs ls') ! i = (?cs ! i)\<lparr> md_extra := x \<rparr>" by simp
    with bal show ?thesis by (simp add: True balanced_def)
  next
    case False
    with j Cons.prems(2) have "m_components ?s' ! j = ?cs ! j" by simp
    with all j False show ?thesis by auto
  qed
  with r step show ?case by auto
qed

lemma set_swap_remove: "set (swap_remove i xs) \<subseteq> set xs"
proof (cases "xs = []")
  case True
  then show ?thesis by (simp add: swap_remove_def)
next
  case False
  have "set (butlast xs) \<subseteq> set xs" by (auto dest: in_set_butlastD)
  moreover have "set ((butlast xs)[i := last xs]) \<subseteq> insert (last xs) (set (butlast xs))"
    by (rule set_update_subset_insert)
  ultimately show ?thesis using False by (auto simp: swap_remove_def)
qed

lemma reach_extra_default:
  "reach s cs \<Longrightarrow> \<forall>md \<in> set (m_components s). md_extra md = default"
proof (induction rule: reach.induct)
  case (reach_new isT ts)
  show ?case by (simp add: new_store_fields)
next
  case (reach_insert s cs c r s')
  from reach_insert.hyps(2) obtain s1 tmp ts s2 d
    where n: "insert_nodes s [] [] (c_nodes c) = (s1, tmp, ts)"
      and e: "insert_edges s1 (Metadata0\<lparr> md_terminals := sort ts \<rparr>) (c_edges c) = Inr (s2, d)"
      and s': "s' = s2\<lparr> m_nodeCopy := fold (\<lambda>vO m. m(vO := None)) tmp (m_nodeCopy s2),
              m_components := m_components s2 @ [d] \<rparr>"
    by (rule insert_fc_Inr)
  from insert_edges_fields [OF e] have "m_components s2 = m_components s1" "md_extra d = default"
    by (simp_all add: Metadata0_def)
  moreover from insert_nodes_fields [OF n] have "m_components s1 = m_components s" by simp
  ultimately show ?case using reach_insert.IH by (simp add: s')
next
  case (reach_remove s cs i s')
  from reach_remove.hyps(2) obtain s1
    where "s' = s1\<lparr> m_components := swap_remove (nat i) (m_components s) \<rparr>"
    by (rule remove_fc_Inr)
  with reach_remove.IH set_swap_remove [of "nat i" "m_components s"] show ?case by auto
qed

lemma zero_round:
  fixes s :: "('w::zero, 'x) FullComponentStore"
  assumes B: "base_inv s" and mt: "m_terminals s = t # ts" and sC: "m_nodeCopy s t = Some sC"
    and z: "zero_edges s sC ts lt0 [] = Inr (s1, lt1, zs1)" and lt0: "lt0 sC \<noteq> None"
  shows "s1\<lparr> m_graph := fold (\<lambda>e g. delEdge g e) zs1 (m_graph s1) \<rparr>
           = s\<lparr> m_graph := rg (m_graph s1) (set zs1) {} \<rparr>"
    and "nodes (rg (m_graph s1) (set zs1) {}) = nodes (m_graph s)"
    and "edgeIdCount (m_graph s) \<le> edgeIdCount (rg (m_graph s1) (set zs1) {})"
    and "\<And>e. e < edgeIdCount (m_graph s) \<Longrightarrow>
           ends (rg (m_graph s1) (set zs1) {}) e = ends (m_graph s) e
           \<and> weight (rg (m_graph s1) (set zs1) {}) e = weight (m_graph s) e"
    and "\<And>y x. m_nodeOrig s y = Some x \<Longrightarrow> \<not> m_isTerminal s x \<Longrightarrow>
           adjEntries (rg (m_graph s1) (set zs1) {}) y = adjEntries (m_graph s) y"
    and "\<And>u v. v \<in> set (m_terminals s) \<Longrightarrow> m_nodeCopy s v = Some u \<Longrightarrow> lt1 u \<noteq> None"
    and "\<And>u e a b. \<not> (\<exists>v \<in> set (m_terminals s). m_nodeCopy s v = Some u) \<Longrightarrow>
           ends (m_graph s1) e = Some (a, b) \<Longrightarrow> u = a \<or> u = b \<Longrightarrow>
           ends (rg (m_graph s1) (set zs1) {}) e = Some (a, b)"
proof -
  let ?g = "m_graph s" and ?g1 = "m_graph s1"
  let ?g2 = "rg ?g1 (set zs1) {}"
  from B have wf: "wf_graph ?g" by (simp add: base_inv_def)
  note P = zero_edges_props [OF z]
  from P have a: "s1 = s\<lparr> m_graph := ?g1 \<rparr>" by blast
  from P have b: "nodes ?g1 = nodes ?g" by blast
  from P have c: "edgeIdCount ?g \<le> edgeIdCount ?g1" by blast
  from P have d: "\<forall>e < edgeIdCount ?g. weight ?g1 e = weight ?g e" by blast
  from P have e: "\<forall>e. ends ?g1 e = ends ?g e
            \<or> (edgeIdCount ?g \<le> e \<and> (\<exists>v \<in> set ts. ends ?g1 e = Some (sC, the (m_nodeCopy s v))))" by blast
  from P have f: "set zs1 \<subseteq> {edgeIdCount ?g ..}" by simp
  from P have g: "\<forall>y. y \<noteq> sC \<and> (\<forall>v \<in> set ts. m_nodeCopy s v \<noteq> Some y)
            \<longrightarrow> adjEntries ?g1 y = adjEntries ?g y" by blast
  from P have h: "\<forall>u. lt0 u \<noteq> None \<or> (\<exists>v \<in> set ts. m_nodeCopy s v = Some u) \<longrightarrow> lt1 u \<noteq> None" by blast
  from P wf have wf1: "wf_graph ?g1" by blast
  have low: "ends ?g1 e = ends ?g e" if "e < edgeIdCount ?g" for e
    using e that by (metis not_le)
  from fold_delEdge_edges_rg [OF wf1, of zs1 "{}" "{}"]
  have "fold (\<lambda>e g. delEdge g e) zs1 ?g1 = ?g2" by (simp add: rg_empty)
  then have "s1\<lparr> m_graph := fold (\<lambda>e g. delEdge g e) zs1 ?g1 \<rparr> = s1\<lparr> m_graph := ?g2 \<rparr>" by simp
  also have "\<dots> = s\<lparr> m_graph := ?g2 \<rparr>" by (subst a) simp
  finally show "s1\<lparr> m_graph := fold (\<lambda>e g. delEdge g e) zs1 ?g1 \<rparr> = s\<lparr> m_graph := ?g2 \<rparr>" .
  show "nodes ?g2 = nodes ?g" using b by (simp add: rg_simps)
  show "edgeIdCount ?g \<le> edgeIdCount ?g2" using c by (simp add: rg_simps)
  show "ends ?g2 e = ends ?g e \<and> weight ?g2 e = weight ?g e" if "e < edgeIdCount ?g" for e
  proof -
    from that f have "e \<notin> set zs1" by auto
    with low [OF that] d that show ?thesis by (simp add: rg_simps)
  qed
  have isterm: "m_isTerminal s v" if "m_nodeCopy s v = Some y" for v y
    using B that by (auto simp: base_inv_def)
  have orig: "m_nodeOrig s y = Some v" if "m_nodeCopy s v = Some y" for v y
    using B that by (auto simp: base_inv_def)
  show "adjEntries ?g2 y = adjEntries ?g y" if y: "m_nodeOrig s y = Some x" "\<not> m_isTerminal s x" for y x
  proof -
    have nc: "m_nodeCopy s v \<noteq> Some y" for v
    proof
      assume "m_nodeCopy s v = Some y"
      from orig [OF this] isterm [OF this] y show False by simp
    qed
    then have "y \<noteq> sC" using sC by auto
    with g nc have 1: "adjEntries ?g1 y = adjEntries ?g y" by blast
    have "theEdge a \<notin> set zs1" if "a \<in> set (adjEntries ?g y)" for a
    proof -
      from wf_entry_edge [OF wf that] obtain u v where "ends ?g (theEdge a) = Some (u, v)" by auto
      from wf_edge_bound [OF wf this] f show ?thesis by auto
    qed
    then have "filter (\<lambda>a. theEdge a \<notin> set zs1) (adjEntries ?g y) = adjEntries ?g y"
      by (intro filter_True) simp
    with 1 show ?thesis by (simp add: rg_simps)
  qed
  show "lt1 u \<noteq> None" if "v \<in> set (m_terminals s)" "m_nodeCopy s v = Some u" for u v
  proof (cases "v = t")
    case True
    with that sC lt0 h show ?thesis by auto
  next
    case False
    with that mt have "v \<in> set ts" by simp
    with that(2) h show ?thesis by blast
  qed
  show "ends ?g2 e = Some (a, b)"
    if nd: "\<not> (\<exists>v \<in> set (m_terminals s). m_nodeCopy s v = Some u)"
      and ab: "ends ?g1 e = Some (a, b)" "u = a \<or> u = b" for u e a b
  proof -
    from e have "ends ?g1 e = ends ?g e
            \<or> (edgeIdCount ?g \<le> e \<and> (\<exists>v \<in> set ts. ends ?g1 e = Some (sC, the (m_nodeCopy s v))))" ..
    then have old: "ends ?g e = Some (a, b)"
    proof
      assume "ends ?g1 e = ends ?g e"
      with ab(1) show ?thesis by simp
    next
      assume "edgeIdCount ?g \<le> e \<and> (\<exists>v \<in> set ts. ends ?g1 e = Some (sC, the (m_nodeCopy s v)))"
      then obtain v where v: "v \<in> set ts" "ends ?g1 e = Some (sC, the (m_nodeCopy s v))" by blast
      from v(1) mt have vt: "v \<in> set (m_terminals s)" by simp
      with B have "m_nodeCopy s v \<noteq> None" by (auto simp: base_inv_def)
      then obtain vC where vC: "m_nodeCopy s v = Some vC" by auto
      with v(2) ab have "u = sC \<or> u = vC" by auto
      with nd sC vC vt mt have False by auto
      then show ?thesis ..
    qed
    from wf_edge_bound [OF wf old] f have "e \<notin> set zs1" by auto
    with ab(1) show ?thesis by (simp add: rg_simps)
  qed
qed

lemma computeAllLosses_correct:
  fixes ls :: "'w::comm_monoid_add FullComponentWithLossStore"
  assumes si: "store_inv (fcs ls) G"
    and full: "\<forall>i < length G. full_component (m_isTerminal (fcs ls)) (fst (G ! i))"
    and ex: "\<forall>md \<in> set (m_components (fcs ls)). md_extra md = LossMetadata 0 []"
    and ok: "\<forall>r g. pred_ok g (fst (computeMinST r g))"
    and ne: "m_terminals (fcs ls) \<noteq> []"
  shows "\<exists>ls'. computeAllLosses computeMinST ls = Some (Inr ls')
     \<and> length (m_components (fcs ls')) = length G
     \<and> (\<forall>i < length G. md_cost (m_components (fcs ls') ! i) = md_cost (m_components (fcs ls) ! i)
            \<and> balanced (m_graph (fcs ls')) (m_components (fcs ls') ! i))"
proof -
  let ?s = "fcs ls"
  from si have B: "base_inv ?s" and len: "length G = length (m_components ?s)"
    and emb: "\<forall>i < length G. embedded ?s (G ! i) (m_components ?s ! i)"
    by (simp_all add: store_inv_def)
  from ne obtain t ts where mt: "m_terminals ?s = t # ts" by (cases "m_terminals ?s") auto
  have copy: "\<exists>y. m_nodeCopy ?s v = Some y \<and> y \<in> set (nodes (m_graph ?s))"
    if "v \<in> set (m_terminals ?s)" for v
  proof -
    from B that have "m_nodeCopy ?s v \<noteq> None" by (auto simp: base_inv_def)
    then obtain y where "m_nodeCopy ?s v = Some y" by auto
    with B show ?thesis by (auto simp: base_inv_def)
  qed
  from copy [of t] mt obtain sC where sC: "m_nodeCopy ?s t = Some sC" "sC \<in> set (nodes (m_graph ?s))"
    by auto
  let ?lt0 = "(\<lambda>v. None)(sC := Some t)"
  have "\<forall>v \<in> set ts. \<exists>vC. m_nodeCopy ?s v = Some vC \<and> vC \<in> set (nodes (m_graph ?s))"
    using copy mt by simp
  from zero_edges_total [OF sC(2) this, of ?lt0 "[]"] obtain s1 lt1 zs1
    where z: "zero_edges ?s sC ts ?lt0 [] = Inr (s1, lt1, zs1)" by blast
  have lt0: "?lt0 sC \<noteq> None" by simp
  note R = zero_round [OF B mt sC(1) z lt0]
  let ?g2 = "rg (m_graph s1) (set zs1) {}"
  let ?s2 = "?s\<lparr> m_graph := ?g2 \<rparr>"
  obtain pred isLossEdge where m: "computeMinST sC (m_graph s1) = (pred, isLossEdge)"
    by (cases "computeMinST sC (m_graph s1)")
  have cs1: "m_components s1 = m_components ?s"
    using arg_cong [OF R(1), of m_components] by simp
  have run: "computeAllLosses computeMinST ls
      = loss_all ?s2 pred isLossEdge lt1 [0 ..< length (m_components ?s2)]"
    by (simp add: computeAllLosses_def mt sC(1) z m R(1) cs1)
  from ok m have "pred_ok (m_graph s1) pred" by (metis fst_conv)
  then obtain rank :: "node \<Rightarrow> nat" where rank: "\<And>u e. pred u = Some e \<Longrightarrow>
      \<exists>a b. ends (m_graph s1) e = Some (a, b) \<and> (u = a \<and> rank b < rank u \<or> u = b \<and> rank a < rank u)"
    unfolding pred_ok_def by blast
  let ?D = "{u. \<exists>v \<in> set (m_terminals ?s). m_nodeCopy ?s v = Some u}"
  have H: "\<exists>v. opposite ?g2 e u = Some v \<and> rank v < rank u" if "u \<notin> ?D" "pred u = Some e" for u e
  proof -
    from rank [OF that(2)] obtain a b where ab: "ends (m_graph s1) e = Some (a, b)"
      "u = a \<and> rank b < rank u \<or> u = b \<and> rank a < rank u" by blast
    from that(1) have "\<not> (\<exists>v \<in> set (m_terminals ?s). m_nodeCopy ?s v = Some u)" by simp
    from R(7) [OF this ab(1)] ab(2) have "ends ?g2 e = Some (a, b)" by blast
    with ab(2) show ?thesis by (auto simp: opposite_def)
  qed
  have 1: "m_graph ?s2 = ?g2" by simp
  have 2: "length G = length (m_components ?s2)" using len by simp
  have 3: "\<forall>i < length G. embedded ?s2 (G ! i) (m_components ?s2 ! i)
            \<and> full_component (m_isTerminal ?s2) (fst (G ! i))"
  proof (intro allI impI)
    fix i assume i: "i < length G"
    obtain c nc e0 where gh: "G ! i = (c, nc, e0)" by (cases "G ! i")
    from emb i gh have "embedded ?s (c, nc, e0) (m_components ?s ! i)" by auto
    then have "embedded ?s2 (c, nc, e0) (m_components ?s ! i)"
      by (rule embedded_graph_frame [OF _ R(2,3)]) (erule R(4), erule (1) R(5))
    moreover from full i have "full_component (m_isTerminal (fcs ls)) (fst (G ! i))" by blast
    ultimately show "embedded ?s2 (G ! i) (m_components ?s2 ! i)
            \<and> full_component (m_isTerminal ?s2) (fst (G ! i))" using gh by simp
  qed
  have 4: "\<forall>u \<in> ?D. lt1 u \<noteq> None" using R(6) by blast
  have 5: "set [0 ..< length G] \<subseteq> {..<length G}" by auto
  have 6: "distinct [0 ..< length G]" by simp
  have 7: "\<forall>i \<in> set [0 ..< length G]. md_extra (m_components ?s2 ! i) = LossMetadata 0 []"
    using ex len by simp
  from loss_all_correct [OF H 1 2 3 4 5 6 7, where isLossEdge = isLossEdge]
  obtain ls' where r: "loss_all ?s2 pred isLossEdge lt1 [0 ..< length G] = Some (Inr ls')"
    "m_graph (fcs ls') = ?g2" "length (m_components (fcs ls')) = length G"
    "\<forall>i < length G. md_cost (m_components (fcs ls') ! i) = md_cost (m_components ?s2 ! i)
                \<and> (i \<in> set [0 ..< length G] \<longrightarrow> balanced ?g2 (m_components (fcs ls') ! i))
                \<and> (i \<notin> set [0 ..< length G] \<longrightarrow> m_components (fcs ls') ! i = m_components ?s2 ! i)"
    by blast
  from run r(1) 2 have "computeAllLosses computeMinST ls = Some (Inr ls')" by simp
  moreover from r(2,4) have "\<forall>i < length G. md_cost (m_components (fcs ls') ! i) = md_cost (m_components ?s ! i)
            \<and> balanced (m_graph (fcs ls')) (m_components (fcs ls') ! i)" by simp
  ultimately show ?thesis using r(3) by blast
qed

lemma ex_loss_insert:
  "insert_fc ex_loss0 ex_star = Inr (Void, fcs ex_loss_star)"
  "insert_fc ex_loss0 ex_path = Inr (Void, fcs ex_loss_path)"
proof -
  have "\<not> isl (insert_fc ex_loss0 ex_star)" by code_simp
  then obtain r s' where r: "insert_fc ex_loss0 ex_star = Inr (r, s')"
    by (cases "insert_fc ex_loss0 ex_star") auto
  then have "r = Void" by (auto elim: insert_fc_Inr)
  with r show "insert_fc ex_loss0 ex_star = Inr (Void, fcs ex_loss_star)"
    by (simp add: ex_loss_star_def after_def)
  have "\<not> isl (insert_fc ex_loss0 ex_path)" by code_simp
  then obtain r s' where r: "insert_fc ex_loss0 ex_path = Inr (r, s')"
    by (cases "insert_fc ex_loss0 ex_path") auto
  then have "r = Void" by (auto elim: insert_fc_Inr)
  with r show "insert_fc ex_loss0 ex_path = Inr (Void, fcs ex_loss_path)"
    by (simp add: ex_loss_path_def after_def)
qed

lemma ex_loss_reach: "reach (fcs ex_loss_star) [ex_star]"
proof -
  have "reach ex_loss0 []" unfolding ex_loss0_def by (rule reach_new) (rule ex_isT_terminals)
  from reach_insert [OF this ex_loss_insert(1)] show ?thesis by simp
qed

lemma ex_mst_ok: "\<forall>r g. pred_ok g (fst (ex_mst r g))"
  by (simp add: pred_ok_def ex_mst_def)

lemma losses_of_run:
  assumes "case computeAllLosses ex_mst ls of Some (Inr ls') \<Rightarrow> True | _ \<Rightarrow> False"
  shows "computeAllLosses ex_mst ls = Some (Inr (losses_of ls))"
  using assms by (auto simp: losses_of_def split: option.splits sum.splits)

section \<open>The claims\<close>

text \<open>
  Claim C6. The queries that take an identifier fail on an identifier outside
  \<open>[0, size)\<close> and give the stored metadata inside; the traversals that take an
  identifier fail outside \<open>[0, size)\<close> as well.
\<close>

theorem queries_bounds_checked:
  "(i < 0 \<or> size_fc s \<le> i \<longrightarrow>
      terminals s i = Inl AssertionFailed \<and> isTerminal s i t = Inl AssertionFailed
      \<and> cost s i = Inl AssertionFailed \<and> start s i = Inl AssertionFailed
      \<and> foreachAdjEntry s i = Some (Inl AssertionFailed)
      \<and> foreachNode s i = Some (Inl AssertionFailed)
      \<and> foreachEdge s i pred opp = Some (Inl AssertionFailed)
      \<and> foreachNode_pred s i pred opp = Some (Inl AssertionFailed))
   \<and> (0 \<le> i \<and> i < size_fc s \<longrightarrow>
      terminals s i = Inr (md_terminals (m_components s ! nat i))
      \<and> isTerminal s i t = Inr (t \<in> set (md_terminals (m_components s ! nat i)))
      \<and> cost s i = Inr (md_cost (m_components s ! nat i))
      \<and> start s i = Inr (md_start (m_components s ! nat i)))"
  by (auto simp: terminals_def isTerminal_def cost_def start_def size_fc_def foreachAdjEntry_def
        foreachNode_def foreachEdge_def foreachNode_pred_def component_at_def)

theorem queries_bounds_checked_witness:
  "size_fc ex_store1 = 1
   \<and> terminals ex_store1 1 = Inl AssertionFailed \<and> cost ex_store1 (- 1) = Inl AssertionFailed
   \<and> foreachAdjEntry ex_store1 1 = Some (Inl AssertionFailed)
   \<and> terminals ex_store1 0 = Inr [1, 2, 3] \<and> cost ex_store1 0 = Inr 9
   \<and> isTerminal ex_store1 0 2 = Inr True \<and> start ex_store1 0 = Inr (Some (AdjTarget 2))"
proof -
  have sz: "size_fc ex_store1 = 1" by code_simp
  have md: "m_components ex_store1 ! nat 0 =
      \<lparr> md_start = Some (AdjTarget 2), md_terminals = [1, 2, 3], md_cost = 9, md_extra = () \<rparr>"
    by code_simp
  from queries_bounds_checked [of 1 ex_store1 2 "\<lambda>u v. None" "\<lambda>e v. v"]
       queries_bounds_checked [of "- 1" ex_store1 2 "\<lambda>u v. None" "\<lambda>e v. v"]
       queries_bounds_checked [of 0 ex_store1 2 "\<lambda>u v. None" "\<lambda>e v. v"] sz md
  show ?thesis by simp
qed

text \<open>
  Claim C4, as the code has it. \<open>insert\<close> is declared \<open>void\<close> and returns no identifier.
  On a store reached by calls of \<open>insert\<close> and \<open>remove\<close>, a non-empty tree is accepted;
  the component is stored under the identifier that equals the size before the call, the
  size grows by one, and the records of the other identifiers stay as they are.
\<close>

theorem insert_gives_next_identifier:
  fixes s :: "('w::monoid_add, 'x::default) FullComponentStore"
  assumes "reach s cs" "c_nodes c \<noteq> []" "isTree c"
  shows "\<exists>s'. insert_fc s c = Inr (Void, s')
    \<and> size_fc s' = size_fc s + 1
    \<and> (\<forall>j. 0 \<le> j \<and> j < size_fc s \<longrightarrow> component_at s' j = component_at s j)
    \<and> cost s' (size_fc s) = Inr (sum_list (map (\<lambda>e. snd (snd e)) (c_edges c)))
    \<and> terminals s' (size_fc s) = Inr (sort (filter (m_isTerminal s) (c_nodes c)))"
proof -
  from reach_store_inv [OF assms(1)] obtain G where G: "map fst G = cs" "store_inv s G" by blast
  then have B: "base_inv s" and len: "length G = length (m_components s)" by (auto simp: store_inv_def)
  from insert_fc_total [OF B assms(2,3)] obtain s' where ins: "insert_fc s c = Inr (Void, s')" by blast
  from insert_fc_components [OF ins] obtain d where d: "m_components s' = m_components s @ [d]" by blast
  let ?gh = "(c, m_nodeCopy (fst (insert_nodes s [] [] (c_nodes c))), edgeIdCount (m_graph s))"
  from insert_store_inv [OF G(2) ins] have "embedded s' ((G @ [?gh]) ! length G) (m_components s' ! length G)"
    by (auto simp: store_inv_def)
  then have emb: "embedded s' ?gh d" by (simp add: d len [symmetric] nth_append)
  note D = embeddedD [OF emb]
  have isT: "m_isTerminal s' = m_isTerminal s" using insert_fc_keeps [OF ins] by simp
  show ?thesis
  proof (intro exI [of _ s'] conjI allI impI)
    show "insert_fc s c = Inr (Void, s')" by fact
    show "size_fc s' = size_fc s + 1" by (simp add: size_fc_def d)
    show "cost s' (size_fc s) = Inr (sum_list (map (\<lambda>e. snd (snd e)) (c_edges c)))"
      using D(7) by (simp add: cost_def size_fc_def d)
    show "terminals s' (size_fc s) = Inr (sort (filter (m_isTerminal s) (c_nodes c)))"
      using D(8) by (simp add: terminals_def size_fc_def d isT)
  next
    fix j assume "0 \<le> j \<and> j < size_fc s"
    then show "component_at s' j = component_at s j"
      by (auto simp: component_at_def size_fc_def d nth_append nat_less_iff)
  qed
qed

theorem insert_gives_next_identifier_witness:
  "reach ex_store1 [ex_star] \<and> c_nodes ex_edge \<noteq> [] \<and> isTree ex_edge
   \<and> insert_fc ex_store1 ex_edge = Inr (Void, ex_store2)
   \<and> size_fc ex_store1 = 1 \<and> size_fc ex_store2 = 2 \<and> cost ex_store2 1 = Inr 5
   \<and> terminals ex_store2 1 = Inr [1, 2]"
proof -
  have h: "c_nodes ex_edge \<noteq> []" "isTree ex_edge" by code_simp+
  have sz: "size_fc ex_store1 = 1" by code_simp
  have v: "sum_list (map (\<lambda>e. snd (snd e)) (c_edges ex_edge)) = 5"
    "sort (filter (m_isTerminal ex_store1) (c_nodes ex_edge)) = [1, 2]" by code_simp+
  from insert_gives_next_identifier [OF ex_reach1 h] ex_insert2 ex_reach1 h sz v
  show ?thesis by auto
qed

theorem insert_returns_identifier_counterexample:
  "map_sum id fst (insert_fc ex_store0 ex_star) = Inr Void
   \<and> (Inr Void :: error + retval) \<noteq> Inr (IntVal (size_fc ex_store0))"
  by (simp add: ex_insert1)

text \<open>
  Claim C5, as the code has it. The second loop of \<open>insert\<close> overwrites \<open>start\<close> at every
  edge with a terminal end, so the stored entry lies on the last such edge of the tree's
  edge order (at its source when the source is a terminal, at its target otherwise), and
  that edge is an edge of the graph.
\<close>

theorem start_on_last_terminal_edge:
  fixes s :: "('w::monoid_add, 'x::default) FullComponentStore"
  assumes "reach s cs" "insert_fc s c = Inr (r, s')"
    and "\<exists>e \<in> set (c_edges c). terminal_incident (m_isTerminal s) e"
  shows "\<exists>k < length (c_edges c).
      terminal_incident (m_isTerminal s) (c_edges c ! k)
    \<and> (\<forall>j. k < j \<and> j < length (c_edges c) \<longrightarrow> \<not> terminal_incident (m_isTerminal s) (c_edges c ! j))
    \<and> start s' (size_fc s) =
        Inr (Some (if m_isTerminal s (fst (c_edges c ! k))
                   then AdjSource (edgeIdCount (m_graph s) + k)
                   else AdjTarget (edgeIdCount (m_graph s) + k)))
    \<and> (\<exists>u v. ends (m_graph s') (edgeIdCount (m_graph s) + k) = Some (u, v))"
proof -
  from reach_store_inv [OF assms(1)] obtain G where G: "map fst G = cs" "store_inv s G" by blast
  then have len: "length G = length (m_components s)" by (auto simp: store_inv_def)
  from insert_fc_components [OF assms(2)] obtain d where d: "m_components s' = m_components s @ [d]" by blast
  let ?gh = "(c, m_nodeCopy (fst (insert_nodes s [] [] (c_nodes c))), edgeIdCount (m_graph s))"
  from insert_store_inv [OF G(2) assms(2)]
  have "embedded s' ((G @ [?gh]) ! length G) (m_components s' ! length G)"
    by (auto simp: store_inv_def)
  then have emb: "embedded s' ?gh d" by (simp add: d len [symmetric] nth_append)
  note D = embeddedD [OF emb]
  have isT: "m_isTerminal s' = m_isTerminal s" using insert_fc_keeps [OF assms(2)] by simp
  from assms(3) obtain a where a: "find_start (m_isTerminal s) (edgeIdCount (m_graph s)) (c_edges c) = Some a"
    using find_start_None [of "m_isTerminal s" "edgeIdCount (m_graph s)" "c_edges c"] by auto
  from find_start_Some [OF a] obtain k where k: "k < length (c_edges c)"
    "a = (if m_isTerminal s (fst (c_edges c ! k)) then AdjSource (edgeIdCount (m_graph s) + k)
          else AdjTarget (edgeIdCount (m_graph s) + k))"
    "terminal_incident (m_isTerminal s) (c_edges c ! k)"
    "\<forall>j. k < j \<and> j < length (c_edges c) \<longrightarrow> \<not> terminal_incident (m_isTerminal s) (c_edges c ! j)"
    by blast
  have "start s' (size_fc s) = Inr (Some a)"
    using D(6) a by (simp add: start_def size_fc_def d isT)
  moreover from D(4) [OF k(1)] have "\<exists>u v. ends (m_graph s') (edgeIdCount (m_graph s) + k) = Some (u, v)"
    by blast
  ultimately show ?thesis using k by (intro exI [of _ k]) simp
qed

theorem start_on_last_terminal_edge_witness:
  "reach ex_store0 [] \<and> insert_fc ex_store0 ex_star = Inr (Void, ex_store1)
   \<and> terminal_incident (m_isTerminal ex_store0) (c_edges ex_star ! 2)
   \<and> start ex_store1 0 = Inr (Some (AdjTarget 2))"
proof -
  have h: "\<exists>e \<in> set (c_edges ex_star). terminal_incident (m_isTerminal ex_store0) e" by code_simp
  have "start ex_store1 0 = Inr (Some (AdjTarget 2))"
    "terminal_incident (m_isTerminal ex_store0) (c_edges ex_star ! 2)" by code_simp+
  with start_on_last_terminal_edge [OF ex_reach0 ex_insert1 h] ex_reach0 ex_insert1
  show ?thesis by simp
qed

theorem start_on_first_terminal_edge_counterexample:
  "insert_fc ex_store0 ex_star = Inr (Void, ex_store1)
   \<and> terminal_incident (m_isTerminal ex_store0) (c_edges ex_star ! 0)
   \<and> start ex_store1 (size_fc ex_store0) = Inr (Some (AdjTarget 2))
   \<and> theEdge (AdjTarget 2) \<noteq> edgeIdCount (m_graph ex_store0) + 0"
proof -
  have "terminal_incident (m_isTerminal ex_store0) (c_edges ex_star ! 0)"
    "start ex_store1 (size_fc ex_store0) = Inr (Some (AdjTarget 2))"
    "theEdge (AdjTarget 2) \<noteq> edgeIdCount (m_graph ex_store0) + 0" by code_simp+
  with ex_insert1 show ?thesis by simp
qed

text \<open>
  Claim C8. In a store reached by calls of \<open>insert\<close> and \<open>remove\<close>, a terminal \<open>t\<close> is
  mapped to the node the constructor made for it; that node is still a node of the graph
  and its original is \<open>t\<close>. Every stored component has its edges in the graph, and each
  end of such an edge that stands for \<open>t\<close> is that one node.
\<close>

theorem terminal_nodes_permanent:
  fixes s :: "('w::monoid_add, 'x::default) FullComponentStore"
  assumes "reach s cs" "t \<in> set (m_terminals s)"
  shows "\<exists>u. m_nodeCopy s t = Some u
    \<and> m_nodeCopy (new_store (m_terminals s) (m_isTerminal s) :: ('w, 'x) FullComponentStore) t = Some u
    \<and> u \<in> set (nodes (m_graph s)) \<and> original s u = Inr t
    \<and> (\<exists>firstEdge. length firstEdge = length cs
         \<and> (\<forall>i < length cs. \<forall>k < length (c_edges (cs ! i)). \<exists>v w.
               ends (m_graph s) (firstEdge ! i + k) = Some (v, w)
               \<and> (fst (c_edges (cs ! i) ! k) = t \<longrightarrow> v = u)
               \<and> (fst (snd (c_edges (cs ! i) ! k)) = t \<longrightarrow> w = u)))"
proof -
  from reach_store_inv [OF assms(1)] obtain G where G: "map fst G = cs" "store_inv s G" by blast
  then have B: "base_inv s" by (simp add: store_inv_def)
  from B assms(2) have tT: "m_isTerminal s t" by (simp add: base_inv_def)
  from B have "(m_nodeCopy s t \<noteq> None) = m_isTerminal s t" unfolding base_inv_def by blast
  with tT obtain u where u: "m_nodeCopy s t = Some u" by auto
  with B have ul: "u \<in> set (nodes (m_graph s))" "m_nodeOrig s u = Some t" by (auto simp: base_inv_def)
  have "\<exists>v w. ends (m_graph s) (snd (snd (G ! i)) + k) = Some (v, w)
               \<and> (fst (c_edges (cs ! i) ! k) = t \<longrightarrow> v = u)
               \<and> (fst (snd (c_edges (cs ! i) ! k)) = t \<longrightarrow> w = u)"
    if i: "i < length cs" and k: "k < length (c_edges (cs ! i))" for i k
  proof -
    from store_inv_nth [OF G(2,1) i] obtain nc e0 where g: "G ! i = (cs ! i, nc, e0)"
      and emb: "embedded s (cs ! i, nc, e0) (m_components s ! i)" by blast
    note D = embeddedD [OF emb]
    from D(4) [OF k] obtain v w where vw: "nc (fst (c_edges (cs ! i) ! k)) = Some v"
      "nc (fst (snd (c_edges (cs ! i) ! k))) = Some w" "ends (m_graph s) (e0 + k) = Some (v, w)"
      by blast
    have tn: "nc t = Some u" if "t \<in> set (c_nodes (cs ! i))"
      using D(3) [OF that] tT u by auto
    from isTree_nodes(2) [OF D(2), of "c_edges (cs ! i) ! k"] k
    have "fst (c_edges (cs ! i) ! k) \<in> set (c_nodes (cs ! i))"
      "fst (snd (c_edges (cs ! i) ! k)) \<in> set (c_nodes (cs ! i))" by auto
    with tn vw show ?thesis by (auto simp: g)
  qed
  then have "\<exists>firstEdge. length firstEdge = length cs
         \<and> (\<forall>i < length cs. \<forall>k < length (c_edges (cs ! i)). \<exists>v w.
               ends (m_graph s) (firstEdge ! i + k) = Some (v, w)
               \<and> (fst (c_edges (cs ! i) ! k) = t \<longrightarrow> v = u)
               \<and> (fst (snd (c_edges (cs ! i) ! k)) = t \<longrightarrow> w = u))"
    using G(1) by (intro exI [of _ "map (\<lambda>g. snd (snd g)) G"]) auto
  moreover have "m_nodeCopy (new_store (m_terminals s) (m_isTerminal s) :: ('w, 'x) FullComponentStore) t = Some u"
    using reach_nodeCopy [OF assms(1)] u by simp
  ultimately show ?thesis using u ul by (intro exI [of _ u]) (simp add: original_def)
qed

theorem terminal_nodes_permanent_witness:
  "reach ex_store2 [ex_star, ex_edge] \<and> 1 \<in> set (m_terminals ex_store2)
   \<and> m_nodeCopy ex_store2 1 = Some 0 \<and> m_nodeCopy ex_store0 1 = Some 0
   \<and> 0 \<in> set (nodes (m_graph ex_store2)) \<and> original ex_store2 0 = Inr 1
   \<and> ends (m_graph ex_store2) 0 = Some (0, 3) \<and> ends (m_graph ex_store2) 3 = Some (0, 1)"
proof -
  have h: "1 \<in> set (m_terminals ex_store2)" by code_simp
  have v: "m_nodeCopy ex_store2 1 = Some 0" "m_nodeCopy ex_store0 1 = Some 0"
    "ends (m_graph ex_store2) 0 = Some (0, 3)" "ends (m_graph ex_store2) 3 = Some (0, 1)"
    by code_simp+
  from terminal_nodes_permanent [OF ex_reach2 h] v h ex_reach2 show ?thesis by auto
qed

text \<open>
  Claim C9. Inserting the single edge \<open>(a, b)\<close> of weight \<open>w\<close> between two terminals gives a
  component of cost \<open>w\<close> with the terminals \<open>a\<close> and \<open>b\<close> in sorted order, and
  \<open>foreachAdjEntry\<close> calls its function once, on the twin of the start entry.
\<close>

theorem single_edge_component:
  fixes s :: "('w::monoid_add, 'x::default) FullComponentStore"
  assumes "reach s cs" "a \<in> set (m_terminals s)" "b \<in> set (m_terminals s)" "a \<noteq> b"
    and "c_nodes c = [a, b] \<or> c_nodes c = [b, a]" and "c_edges c = [(a, b, w)]"
  shows "\<exists>s'. insert_fc s c = Inr (Void, s')
    \<and> cost s' (size_fc s) = Inr w
    \<and> terminals s' (size_fc s) = Inr (sort [a, b])
    \<and> start s' (size_fc s) = Inr (Some (AdjSource (edgeIdCount (m_graph s))))
    \<and> foreachAdjEntry s' (size_fc s) = Some (Inr [twin (AdjSource (edgeIdCount (m_graph s)))])"
proof -
  from reach_store_inv [OF assms(1)] obtain G where G: "map fst G = cs" "store_inv s G" by blast
  then have B: "base_inv s" and len: "length G = length (m_components s)" by (auto simp: store_inv_def)
  from B assms(2,3) have T: "m_isTerminal s a" "m_isTerminal s b" by (auto simp: base_inv_def)
  have tree: "isTree c" using assms(4,5,6) by (rule isTree_single_edge)
  have ne: "c_nodes c \<noteq> []" using assms(5) by auto
  from insert_fc_total [OF B ne tree] obtain s' where ins: "insert_fc s c = Inr (Void, s')" by blast
  from insert_fc_components [OF ins] obtain d where d: "m_components s' = m_components s @ [d]" by blast
  let ?gh = "(c, m_nodeCopy (fst (insert_nodes s [] [] (c_nodes c))), edgeIdCount (m_graph s))"
  from insert_store_inv [OF G(2) ins] have "embedded s' ((G @ [?gh]) ! length G) (m_components s' ! length G)"
    by (auto simp: store_inv_def)
  then have emb: "embedded s' ?gh d" by (simp add: d len [symmetric] nth_append)
  note D = embeddedD [OF emb]
  have isT: "m_isTerminal s' = m_isTerminal s" using insert_fc_keeps [OF ins] by simp
  have st: "md_start d = Some (AdjSource (edgeIdCount (m_graph s)))"
    using D(6) T by (simp add: isT assms(6))
  have co: "md_cost d = w" using D(7) by (simp add: assms(6))
  have "sort [b, a] = sort [a, b]" by (cases "a \<le> b") auto
  then have te: "md_terminals d = sort [a, b]" using D(8) T assms(5) by (auto simp: isT)
  then have l2: "length (md_terminals d) = 2" by simp
  from D(4) [of 0] have lv: "ends (m_graph s') (edgeIdCount (m_graph s)) \<noteq> None"
    by (auto simp: assms(6))
  have at: "component_at s' (size_fc s) = Inr d" by (simp add: component_at_def size_fc_def d)
  show ?thesis
  proof (intro exI [of _ s'] conjI)
    show "insert_fc s c = Inr (Void, s')" by fact
    show "cost s' (size_fc s) = Inr w" using co by (simp add: cost_def size_fc_def d)
    show "terminals s' (size_fc s) = Inr (sort [a, b])"
      using te by (simp add: terminals_def size_fc_def d)
    show "start s' (size_fc s) = Inr (Some (AdjSource (edgeIdCount (m_graph s))))"
      using st by (simp add: start_def size_fc_def d)
    show "foreachAdjEntry s' (size_fc s) = Some (Inr [twin (AdjSource (edgeIdCount (m_graph s)))])"
      using lv by (simp add: foreachAdjEntry_def at l2 st)
  qed
qed

theorem single_edge_component_witness:
  "reach ex_store1 [ex_star] \<and> 1 \<in> set (m_terminals ex_store1) \<and> 2 \<in> set (m_terminals ex_store1)
   \<and> insert_fc ex_store1 ex_edge = Inr (Void, ex_store2)
   \<and> cost ex_store2 1 = Inr 5 \<and> terminals ex_store2 1 = Inr [1, 2]
   \<and> start ex_store2 1 = Inr (Some (AdjSource 3))
   \<and> foreachAdjEntry ex_store2 1 = Some (Inr [AdjTarget 3])"
proof -
  have h: "1 \<in> set (m_terminals ex_store1)" "2 \<in> set (m_terminals ex_store1)" "(1::nat) \<noteq> 2"
    "c_nodes ex_edge = [1, 2] \<or> c_nodes ex_edge = [2, 1]" "c_edges ex_edge = [(1, 2, 5)]"
    by code_simp+
  have v: "size_fc ex_store1 = 1" "edgeIdCount (m_graph ex_store1) = 3" "sort [1, 2::nat] = [1, 2]"
    by code_simp+
  from single_edge_component [OF ex_reach1 h] ex_insert2 v h ex_reach1
  show ?thesis by auto
qed

text \<open>
  Claim C10. In a store reached by calls of \<open>insert\<close> and \<open>remove\<close>, the start entry of a
  component whose tree has an edge with a terminal end is a live entry, and the node it
  sits on is a node of the graph whose original is a terminal.
\<close>

theorem start_sits_on_terminal:
  fixes s :: "('w::monoid_add, 'x::default) FullComponentStore"
  assumes "reach s cs" "i < length cs"
    and "\<exists>e \<in> set (c_edges (cs ! i)). terminal_incident (m_isTerminal s) e"
  shows "\<exists>a v. start s (int i) = Inr (Some a) \<and> theNode (m_graph s) a = Some v
    \<and> v \<in> set (nodes (m_graph s)) \<and> isTerminal_node s v = Inr True"
proof -
  from reach_store_inv [OF assms(1)] obtain G where G: "map fst G = cs" "store_inv s G" by blast
  from store_inv_nth [OF G(2,1) assms(2)] obtain nc e0 where
    emb: "embedded s (cs ! i, nc, e0) (m_components s ! i)" and il: "i < length (m_components s)"
    by blast
  note D = embeddedD [OF emb]
  let ?es = "c_edges (cs ! i)"
  from assms(3) obtain a where a: "find_start (m_isTerminal s) e0 ?es = Some a"
    using find_start_None [of "m_isTerminal s" e0 ?es] by auto
  from find_start_Some [OF a] obtain k where k: "k < length ?es"
    "a = (if m_isTerminal s (fst (?es ! k)) then AdjSource (e0 + k) else AdjTarget (e0 + k))"
    "terminal_incident (m_isTerminal s) (?es ! k)" by blast
  from D(4) [OF k(1)] obtain u w where uw: "nc (fst (?es ! k)) = Some u"
    "nc (fst (snd (?es ! k))) = Some w" "ends (m_graph s) (e0 + k) = Some (u, w)" by blast
  from isTree_nodes(2) [OF D(2), of "?es ! k"] k(1)
  have mem: "fst (?es ! k) \<in> set (c_nodes (cs ! i))" "fst (snd (?es ! k)) \<in> set (c_nodes (cs ! i))"
    by auto
  have st: "start s (int i) = Inr (Some a)" using D(6) a il by (simp add: start_def)
  show ?thesis
  proof (cases "m_isTerminal s (fst (?es ! k))")
    case True
    from D(3) [OF mem(1)] uw(1) True have "u \<in> set (nodes (m_graph s))" "isTerminal_node s u = Inr True"
      by (auto simp: isTerminal_node_def)
    moreover have "theNode (m_graph s) a = Some u" using k(2) True uw(3) by (simp add: theNode_def)
    ultimately show ?thesis using st by blast
  next
    case False
    with k(3) have T: "m_isTerminal s (fst (snd (?es ! k)))" by (simp add: terminal_incident_def)
    from D(3) [OF mem(2)] uw(2) T have "w \<in> set (nodes (m_graph s))" "isTerminal_node s w = Inr True"
      by (auto simp: isTerminal_node_def)
    moreover have "theNode (m_graph s) a = Some w" using k(2) False uw(3) by (simp add: theNode_def)
    ultimately show ?thesis using st by blast
  qed
qed

theorem start_sits_on_terminal_witness:
  "reach ex_store2 [ex_star, ex_edge] \<and> (0::nat) < length [ex_star, ex_edge]
   \<and> terminal_incident (m_isTerminal ex_store2) (c_edges ([ex_star, ex_edge] ! 0) ! 0)
   \<and> start ex_store2 (int 0) = Inr (Some (AdjTarget 2))
   \<and> theNode (m_graph ex_store2) (AdjTarget 2) = Some 2
   \<and> isTerminal_node ex_store2 2 = Inr True"
proof -
  have h: "\<exists>e \<in> set (c_edges ([ex_star, ex_edge] ! 0)). terminal_incident (m_isTerminal ex_store2) e"
    by code_simp
  have v: "terminal_incident (m_isTerminal ex_store2) (c_edges ([ex_star, ex_edge] ! 0) ! 0)"
    "start ex_store2 (int 0) = Inr (Some (AdjTarget 2))"
    "theNode (m_graph ex_store2) (AdjTarget 2) = Some 2"
    "isTerminal_node ex_store2 2 = Inr True" by code_simp+
  from start_sits_on_terminal [OF ex_reach2, of 0] h v ex_reach2 show ?thesis by auto
qed

text \<open>
  Claim C2, for the trees the store is made for. When the tree stored under an identifier
  is a full component (every terminal has degree 1 and every other node degree at least
  3), \<open>foreachAdjEntry\<close> comes to an end without a failure, calls its function once for
  each edge of the tree, and the weights of the edges of these calls add up to the cost.
\<close>

theorem cost_is_sum_of_visited_weights:
  fixes s :: "('w::comm_monoid_add, 'x::default) FullComponentStore"
  assumes "reach s cs" "i < length cs" "full_component (m_isTerminal s) (cs ! i)"
  shows "\<exists>out. foreachAdjEntry s (int i) = Some (Inr out)
           \<and> distinct (map theEdge out) \<and> length out = length (c_edges (cs ! i))
           \<and> cost s (int i) = Inr (sum_list (map (\<lambda>a. weight (m_graph s) (theEdge a)) out))"
proof -
  from assms obtain e0 out where f: "foreachAdjEntry s (int i) = Some (Inr out)"
    and d: "distinct (map theEdge out)"
    and e: "theEdge ` set out = {e0 ..< e0 + length (c_edges (cs ! i))}"
    and w: "\<forall>k < length (c_edges (cs ! i)). weight (m_graph s) (e0 + k) = snd (snd (c_edges (cs ! i) ! k))"
    and c: "md_cost (m_components s ! i) = sum_list (map (\<lambda>e. snd (snd e)) (c_edges (cs ! i)))"
    and i: "i < length (m_components s)"
    by (rule foreach_reach)
  from e have e': "set (map theEdge out) = {e0 ..< e0 + length (c_edges (cs ! i))}" by simp
  from distinct_card [OF d] e' have len: "length out = length (c_edges (cs ! i))" by simp
  from sum_list_weights [OF d e' w]
  have "sum_list (map (weight (m_graph s)) (map theEdge out)) = md_cost (m_components s ! i)"
    by (simp only: c)
  then have "sum_list (map (\<lambda>a. weight (m_graph s) (theEdge a)) out) = md_cost (m_components s ! i)"
    by (simp add: comp_def)
  with i have "cost s (int i) = Inr (sum_list (map (\<lambda>a. weight (m_graph s) (theEdge a)) out))"
    by (simp add: cost_def)
  with f d len show ?thesis by blast
qed

theorem cost_is_sum_of_visited_weights_witness:
  "reach ex_store1 [ex_star] \<and> (0::nat) < length [ex_star]
   \<and> full_component (m_isTerminal ex_store1) ([ex_star] ! 0)
   \<and> foreachAdjEntry ex_store1 (int 0) = Some (Inr [AdjSource 2, AdjSource 1, AdjSource 0])
   \<and> cost ex_store1 (int 0) = Inr 9
   \<and> (\<exists>out. foreachAdjEntry ex_store1 (int 0) = Some (Inr out)
         \<and> cost ex_store1 (int 0) = Inr (sum_list (map (\<lambda>a. weight (m_graph ex_store1) (theEdge a)) out)))"
proof -
  have h: "(0::nat) < length [ex_star]" "full_component (m_isTerminal ex_store1) ([ex_star] ! 0)"
    by code_simp+
  have v: "foreachAdjEntry ex_store1 (int 0) = Some (Inr [AdjSource 2, AdjSource 1, AdjSource 0])"
    "cost ex_store1 (int 0) = Inr 9" by code_simp+
  from cost_is_sum_of_visited_weights [OF ex_reach1 h]
  have "\<exists>out. foreachAdjEntry ex_store1 (int 0) = Some (Inr out)
         \<and> cost ex_store1 (int 0) = Inr (sum_list (map (\<lambda>a. weight (m_graph ex_store1) (theEdge a)) out))"
    by blast
  with ex_reach1 h v show ?thesis by blast
qed

theorem cost_exceeds_visited_weights_counterexample:
  "insert_fc ex_store0 ex_path = Inr (Void, ex_store3)
   \<and> cost ex_store3 0 = Inr 5
   \<and> foreachAdjEntry ex_store3 0 = Some (Inr [AdjSource 1])
   \<and> weight (m_graph ex_store3) (theEdge (AdjSource 1)) = 3"
proof -
  have "cost ex_store3 0 = Inr 5" "foreachAdjEntry ex_store3 0 = Some (Inr [AdjSource 1])"
    "weight (m_graph ex_store3) (theEdge (AdjSource 1)) = 3" by code_simp+
  with ex_insert3 show ?thesis by simp
qed

text \<open>
  Claim C1, for the trees the store is made for. In a store reached by calls of \<open>insert\<close>
  and \<open>remove\<close>, \<open>remove(i)\<close> of a stored full component returns, and leaves a store that
  is smaller by one: identifier \<open>i\<close> now names what was the last record (when \<open>i\<close> was
  the last index itself, that record is dropped and \<open>i\<close> is no identifier any more), and
  every other identifier below the new size names the record it named before.
\<close>

theorem remove_swaps_last:
  fixes s :: "('w::monoid_add, 'x::default) FullComponentStore"
  assumes "reach s cs" "i < length cs" "full_component (m_isTerminal s) (cs ! i)"
  shows "\<exists>s'. remove_fc s (int i) = Inr s' \<and> size_fc s' = size_fc s - 1
    \<and> (\<forall>j. 0 \<le> j \<and> j < size_fc s' \<longrightarrow>
          component_at s' j = component_at s (if j = int i then size_fc s - 1 else j))"
proof -
  from remove_fc_total [OF assms] obtain s' where "remove_fc s (int i) = Inr s'" by blast
  with remove_fc_table [OF this] show ?thesis by blast
qed

theorem remove_swaps_last_witness:
  "reach ex_store2 [ex_star, ex_edge] \<and> (0::nat) < length [ex_star, ex_edge]
   \<and> full_component (m_isTerminal ex_store2) ([ex_star, ex_edge] ! 0)
   \<and> \<not> isl (remove_fc ex_store2 (int 0)) \<and> size_fc ex_store2 = 2
   \<and> size_fc (projr (remove_fc ex_store2 (int 0))) = 1
   \<and> component_at (projr (remove_fc ex_store2 (int 0))) 0 = component_at ex_store2 1"
proof -
  have h: "(0::nat) < length [ex_star, ex_edge]"
    "full_component (m_isTerminal ex_store2) ([ex_star, ex_edge] ! 0)" by code_simp+
  have sz: "size_fc ex_store2 = 2" by code_simp
  from remove_swaps_last [OF ex_reach2 h] sz ex_reach2 h show ?thesis by auto
qed

theorem remove_fails_on_single_node_counterexample:
  "insert_fc ex_store0 ex_single = Inr (Void, ex_store4)
   \<and> size_fc ex_store4 = 1 \<and> remove_fc ex_store4 0 = Inl NullPointer"
proof -
  have "case remove_fc ex_store4 0 of Inl e \<Rightarrow> e = NullPointer | Inr s' \<Rightarrow> False" by code_simp
  then have "remove_fc ex_store4 0 = Inl NullPointer" by (cases "remove_fc ex_store4 0") auto
  moreover have "size_fc ex_store4 = 1" by code_simp
  ultimately show ?thesis using ex_insert4 by simp
qed

text \<open>
  Claim C7. For a stored full component (every terminal of its tree has degree 1, every
  other node degree at least 3) with three or more terminals, the walk of \<open>remove\<close>, on
  its stack for \<open>2 * |terminals| - 3\<close> nodes, comes to an end without a push onto the
  full stack, and \<open>remove\<close> returns.
\<close>

theorem remove_walk_within_stack_bound:
  fixes s :: "('w::monoid_add, 'x::default) FullComponentStore"
  assumes "reach s cs" "i < length cs" "full_component (m_isTerminal s) (cs ! i)"
    and "terminals s (int i) = Inr ts" "3 \<le> length ts"
  shows "\<exists>a v s1 s'. start s (int i) = Inr (Some a) \<and> twinNode (m_graph s) a = Some v
     \<and> remove_loop (s\<lparr> m_graph := delEdge (m_graph s) (theEdge a) \<rparr>) (2 * int (length ts) - 3) [v] = Inr s1
     \<and> remove_fc s (int i) = Inr s'"
proof -
  from remove_fc_total [OF assms(1-3)] assms(4) obtain a v s1 s'
    where "start s (int i) = Inr (Some a)" "twinNode (m_graph s) a = Some v"
      "length ts \<noteq> 2 \<longrightarrow>
           remove_loop (s\<lparr> m_graph := delEdge (m_graph s) (theEdge a) \<rparr>) (2 * int (length ts) - 3) [v] = Inr s1"
      "remove_fc s (int i) = Inr s'" by auto
  with assms(5) show ?thesis by auto
qed

theorem remove_walk_within_stack_bound_witness:
  "reach ex_store1 [ex_star] \<and> (0::nat) < length [ex_star]
   \<and> full_component (m_isTerminal ex_store1) ([ex_star] ! 0)
   \<and> terminals ex_store1 (int 0) = Inr [1, 2, 3] \<and> 3 \<le> length [1::nat, 2, 3]
   \<and> start ex_store1 (int 0) = Inr (Some (AdjTarget 2))
   \<and> twinNode (m_graph ex_store1) (AdjTarget 2) = Some 3
   \<and> \<not> isl (remove_loop (ex_store1\<lparr> m_graph := delEdge (m_graph ex_store1) (theEdge (AdjTarget 2)) \<rparr>)
              (2 * int (length [1::nat, 2, 3]) - 3) [3])
   \<and> (\<exists>s'. remove_fc ex_store1 (int 0) = Inr s')"
proof -
  have h: "(0::nat) < length [ex_star]" "full_component (m_isTerminal ex_store1) ([ex_star] ! 0)"
    "terminals ex_store1 (int 0) = Inr [1, 2, 3]" "3 \<le> length [1::nat, 2, 3]" by code_simp+
  have v: "start ex_store1 (int 0) = Inr (Some (AdjTarget 2))"
    "twinNode (m_graph ex_store1) (AdjTarget 2) = Some 3"
    "\<not> isl (remove_loop (ex_store1\<lparr> m_graph := delEdge (m_graph ex_store1) (theEdge (AdjTarget 2)) \<rparr>)
              (2 * int (length [1::nat, 2, 3]) - 3) [3])" by code_simp+
  from remove_walk_within_stack_bound [OF ex_reach1 h]
  have "\<exists>s'. remove_fc ex_store1 (int 0) = Inr s'" by blast
  with ex_reach1 h v show ?thesis by blast
qed

text \<open>
  Claim C3, for the trees the store is made for. When every stored tree is a full
  component and the predecessor edges that \<open>computeMinST\<close> returns lead from a node to a
  node of smaller rank, \<open>computeAllLosses\<close>, run on a store reached by calls of \<open>insert\<close>
  and \<open>remove\<close>, returns; afterwards the loss of a component plus the weights of its
  bridges is its cost, which is the cost it had before.
\<close>

theorem loss_plus_bridges_is_cost:
  fixes ls :: "'w::comm_monoid_add FullComponentWithLossStore"
  assumes "reach (fcs ls) cs"
    and "\<forall>c \<in> set cs. full_component (m_isTerminal (fcs ls)) c"
    and "\<forall>r g. pred_ok g (fst (computeMinST r g))"
    and "i < length cs"
  shows "\<exists>ls' l bs. computeAllLosses computeMinST ls = Some (Inr ls')
     \<and> loss ls' (int i) = Inr l \<and> lossBridges ls' (int i) = Inr bs
     \<and> cost (fcs ls') (int i) = Inr (l + sum_list (map (weight (m_graph (fcs ls'))) bs))
     \<and> cost (fcs ls') (int i) = cost (fcs ls) (int i)"
proof -
  let ?s = "fcs ls"
  from reach_store_inv [OF assms(1)] obtain G where G: "map fst G = cs" "store_inv ?s G" by blast
  from G(1) have lG: "length G = length cs" by auto
  have full: "\<forall>j < length G. full_component (m_isTerminal ?s) (fst (G ! j))"
  proof (intro allI impI)
    fix j assume j: "j < length G"
    then have "fst (G ! j) = cs ! j" using G(1) by (metis nth_map)
    moreover from j lG have "cs ! j \<in> set cs" by simp
    ultimately show "full_component (m_isTerminal ?s) (fst (G ! j))" using assms(2) by simp
  qed
  from reach_extra_default [OF assms(1)]
  have ex: "\<forall>md \<in> set (m_components ?s). md_extra md = LossMetadata 0 []"
    by (simp add: default_LossMetadata_def)
  from store_inv_nth [OF G(2,1) assms(4)] obtain nc e0
    where emb: "embedded ?s (cs ! i, nc, e0) (m_components ?s ! i)" and il: "i < length (m_components ?s)"
    by metis
  from assms(2,4) have fi: "full_component (m_isTerminal ?s) (cs ! i)" by simp
  from full_component_start [OF embeddedD(2,1) [OF emb] fi, of e0]
  obtain x where "m_isTerminal ?s x" by blast
  with G(2) have ne: "m_terminals ?s \<noteq> []" by (auto simp: store_inv_def base_inv_def)
  from computeAllLosses_correct [OF G(2) full ex assms(3) ne] obtain ls'
    where r: "computeAllLosses computeMinST ls = Some (Inr ls')"
      "length (m_components (fcs ls')) = length G"
      "\<forall>i < length G. md_cost (m_components (fcs ls') ! i) = md_cost (m_components ?s ! i)
            \<and> balanced (m_graph (fcs ls')) (m_components (fcs ls') ! i)" by blast
  let ?md = "m_components (fcs ls') ! i"
  from r(2) lG assms(4) have i': "i < length (m_components (fcs ls'))" by simp
  from r(3) lG assms(4) have c: "md_cost ?md = md_cost (m_components ?s ! i)"
    and b: "balanced (m_graph (fcs ls')) ?md" by simp_all
  have "loss ls' (int i) = Inr (loss_of (md_extra ?md))"
    "lossBridges ls' (int i) = Inr (bridges_of (md_extra ?md))"
    using i' by (simp_all add: loss_def lossBridges_def extra_def)
  moreover have "cost (fcs ls') (int i)
      = Inr (loss_of (md_extra ?md) + sum_list (map (weight (m_graph (fcs ls'))) (bridges_of (md_extra ?md))))"
    using i' b by (simp add: cost_def balanced_def)
  moreover have "cost (fcs ls') (int i) = cost ?s (int i)" using i' il c by (simp add: cost_def)
  ultimately show ?thesis using r(1) by blast
qed

theorem loss_plus_bridges_is_cost_witness:
  "reach (fcs ex_loss_star) [ex_star] \<and> full_component (m_isTerminal (fcs ex_loss_star)) ex_star
   \<and> computeAllLosses ex_mst ex_loss_star = Some (Inr (losses_of ex_loss_star))
   \<and> loss (losses_of ex_loss_star) (int 0) = Inr 2
   \<and> lossBridges (losses_of ex_loss_star) (int 0) = Inr [2, 1]
   \<and> cost (fcs ex_loss_star) (int 0) = Inr 9
   \<and> (\<exists>ls' l bs. computeAllLosses ex_mst ex_loss_star = Some (Inr ls')
         \<and> loss ls' (int 0) = Inr l \<and> lossBridges ls' (int 0) = Inr bs
         \<and> cost (fcs ls') (int 0) = Inr (l + sum_list (map (weight (m_graph (fcs ls'))) bs)))"
proof -
  have f: "full_component (m_isTerminal (fcs ex_loss_star)) ex_star" by code_simp
  then have h: "\<forall>c \<in> set [ex_star]. full_component (m_isTerminal (fcs ex_loss_star)) c" by simp
  have "case computeAllLosses ex_mst ex_loss_star of Some (Inr ls') \<Rightarrow> True | _ \<Rightarrow> False" by code_simp
  then have run: "computeAllLosses ex_mst ex_loss_star = Some (Inr (losses_of ex_loss_star))"
    by (rule losses_of_run)
  have v: "loss (losses_of ex_loss_star) (int 0) = Inr 2"
    "lossBridges (losses_of ex_loss_star) (int 0) = Inr [2, 1]"
    "cost (fcs ex_loss_star) (int 0) = Inr 9" by code_simp+
  from loss_plus_bridges_is_cost [OF ex_loss_reach h ex_mst_ok, of 0]
  have "\<exists>ls' l bs. computeAllLosses ex_mst ex_loss_star = Some (Inr ls')
         \<and> loss ls' (int 0) = Inr l \<and> lossBridges ls' (int 0) = Inr bs
         \<and> cost (fcs ls') (int 0) = Inr (l + sum_list (map (weight (m_graph (fcs ls'))) bs))"
    by auto
  with ex_loss_reach f run v show ?thesis by blast
qed

theorem loss_misses_edges_counterexample:
  "insert_fc ex_loss0 ex_path = Inr (Void, fcs ex_loss_path)
   \<and> computeAllLosses ex_mst ex_loss_path = Some (Inr (losses_of ex_loss_path))
   \<and> loss (losses_of ex_loss_path) 0 = Inr 0
   \<and> lossBridges (losses_of ex_loss_path) 0 = Inr [1]
   \<and> weight (m_graph (fcs (losses_of ex_loss_path))) 1 = 3
   \<and> cost (fcs (losses_of ex_loss_path)) 0 = Inr 5"
proof -
  have "case computeAllLosses ex_mst ex_loss_path of Some (Inr ls') \<Rightarrow> True | _ \<Rightarrow> False" by code_simp
  then have run: "computeAllLosses ex_mst ex_loss_path = Some (Inr (losses_of ex_loss_path))"
    by (rule losses_of_run)
  have v: "loss (losses_of ex_loss_path) 0 = Inr 0"
    "lossBridges (losses_of ex_loss_path) 0 = Inr [1]"
    "weight (m_graph (fcs (losses_of ex_loss_path))) 1 = 3"
    "cost (fcs (losses_of ex_loss_path)) 0 = Inr 5" by code_simp+
  with ex_loss_insert(2) run show ?thesis by simp
qed


end
